(* ===== verification/Prelude.thy ===== *)
theory Prelude
  imports Main "HOL-Library.Word"
begin

text \<open>
  The shared vocabulary of the development: machine types, faults, raw memory, the little-endian
  memory image of the fixed-width integers, C strings in character arrays, sequences of
  fault-raising steps, and two interfaces (locales) that several components provide or use:
  fixed-size codecs and transition systems with an invariant.
\<close>

section \<open>Types and collections\<close>

type_synonym byte = "8 word"
type_synonym bytes = "8 word list"
type_synonym u8 = "8 word"
type_synonym u16 = "16 word"
type_synonym i32 = "32 word"
type_synonym u64 = "64 word"

named_theorems codec_simps \<open>length and decode-after-encode facts of the memory images\<close>
named_theorems mem_simps \<open>in-range reads and writes of raw memory\<close>

text \<open>
  What the source leaves undefined or lets abort: an access outside an allocation, a null
  dereference, a failed assertion, a receive that would block for ever on the modelled input,
  a mutated container under iteration, an object used after it was deleted.
\<close>

datatype fault = OutOfBounds | NullDeref | AssertFail | WouldBlock | BadIterator | BadShift | NonTermination | UseAfterFree

type_synonym 'a res = "fault + 'a"

definition rbind :: "'a res \<Rightarrow> ('a \<Rightarrow> 'b res) \<Rightarrow> 'b res" where
  "rbind r f = (case r of Inl e \<Rightarrow> Inl e | Inr x \<Rightarrow> f x)"

fun rfold :: "('a \<Rightarrow> 's \<Rightarrow> 's res) \<Rightarrow> 'a list \<Rightarrow> 's \<Rightarrow> 's res" where
  "rfold f [] s = Inr s"
| "rfold f (x # xs) s = rbind (f x s) (rfold f xs)"

section \<open>Raw memory\<close>

text \<open>
  An allocation is its list of bytes. \<open>memcpy\<close> into or out of it at an offset is in range or
  faults; offsets are C \<open>int\<close>s and may be negative.
\<close>

definition mem_write :: "int \<Rightarrow> bytes \<Rightarrow> bytes \<Rightarrow> bytes res" where
  "mem_write off src m =
     (if 0 \<le> off \<and> off + int (length src) \<le> int (length m)
      then Inr (take (nat off) m @ src @ drop (nat off + length src) m)
      else Inl OutOfBounds)"

definition mem_read :: "int \<Rightarrow> nat \<Rightarrow> bytes \<Rightarrow> bytes res" where
  "mem_read off n m =
     (if 0 \<le> off \<and> off + int n \<le> int (length m)
      then Inr (take n (drop (nat off) m))
      else Inl OutOfBounds)"

text \<open>The elements of a \<open>std::vector\<close>, indexed with a C \<open>int\<close>.\<close>

definition vget :: "'a list \<Rightarrow> int \<Rightarrow> 'a res" where
  "vget xs i = (if 0 \<le> i \<and> i < int (length xs) then Inr (xs ! nat i) else Inl OutOfBounds)"

definition vset :: "'a list \<Rightarrow> int \<Rightarrow> 'a \<Rightarrow> 'a list res" where
  "vset xs i x = (if 0 \<le> i \<and> i < int (length xs) then Inr (xs[nat i := x]) else Inl OutOfBounds)"

section \<open>Little-endian images of integers\<close>

fun le_bytes :: "nat \<Rightarrow> nat \<Rightarrow> bytes" where
  "le_bytes 0 v = []"
| "le_bytes (Suc n) v = word_of_nat v # le_bytes n (v div 256)"

fun le_nat :: "bytes \<Rightarrow> nat" where
  "le_nat [] = 0"
| "le_nat (b # bs) = unat b + 256 * le_nat bs"

definition enc_u8 :: "u8 \<Rightarrow> bytes" where "enc_u8 w = [w]"
definition dec_u8 :: "bytes \<Rightarrow> u8" where "dec_u8 bs = word_of_nat (le_nat (take 1 bs))"
definition enc_u16 :: "u16 \<Rightarrow> bytes" where "enc_u16 w = le_bytes 2 (unat w)"
definition dec_u16 :: "bytes \<Rightarrow> u16" where "dec_u16 bs = word_of_nat (le_nat (take 2 bs))"
definition enc_i32 :: "i32 \<Rightarrow> bytes" where "enc_i32 w = le_bytes 4 (unat w)"
definition dec_i32 :: "bytes \<Rightarrow> i32" where "dec_i32 bs = word_of_nat (le_nat (take 4 bs))"
definition enc_u64 :: "u64 \<Rightarrow> bytes" where "enc_u64 w = le_bytes 8 (unat w)"
definition dec_u64 :: "bytes \<Rightarrow> u64" where "dec_u64 bs = word_of_nat (le_nat (take 8 bs))"

section \<open>C strings in character arrays\<close>

definition cstr :: "bytes \<Rightarrow> bytes" where
  "cstr bs = takeWhile (\<lambda>b. b \<noteq> 0) bs"

text \<open>\<open>strcpy\<close> of the C string at the head of \<open>src\<close> into an array; it faults where it would overrun.\<close>

definition strcpy :: "bytes \<Rightarrow> bytes \<Rightarrow> bytes res" where
  "strcpy dst src = mem_write 0 (cstr src @ [0]) dst"

text \<open>The C string in a character array; reading on past an array without a terminator is out of bounds.\<close>

definition c_string :: "bytes \<Rightarrow> bytes res" where
  "c_string a = (if 0 \<in> set a then Inr (cstr a) else Inl OutOfBounds)"

text \<open>\<open>sprintf\<close> into an array of \<open>n\<close> bytes: the text and its terminator must fit.\<close>

definition sprintf_fits :: "nat \<Rightarrow> bytes \<Rightarrow> bytes res" where
  "sprintf_fits n t = (if length t < n then Inr t else Inl OutOfBounds)"

text \<open>The decimal digits of \<open>%d\<close>.\<close>

fun show_nat :: "nat \<Rightarrow> string" where
  "show_nat n = (if n < 10 then [char_of (48 + n)] else show_nat (n div 10) @ [char_of (48 + n mod 10)])"

declare show_nat.simps [simp del]

definition show_int :: "int \<Rightarrow> string" where
  "show_int i = (if i < 0 then CHR ''-'' # show_nat (nat (- i)) else show_nat (nat i))"

text \<open>\<open>strncpy(dst, src, n)\<close>: at most \<open>n\<close> characters, the rest of the \<open>n\<close> filled with zeros.\<close>

definition strncpy :: "bytes \<Rightarrow> bytes \<Rightarrow> nat \<Rightarrow> bytes res" where
  "strncpy dst src n =
     (let s = take n (cstr src) in mem_write 0 (s @ replicate (n - length s) 0) dst)"

definition bytes_of_string :: "string \<Rightarrow> bytes" where
  "bytes_of_string s = map (\<lambda>c. of_char c) s"

abbreviation lit :: "string \<Rightarrow> bytes" where "lit \<equiv> bytes_of_string"

section \<open>Multipart messages\<close>

text \<open>A ZeroMQ frame with its \<open>ZMQ_RCVMORE\<close> (or \<open>ZMQ_SNDMORE\<close>) flag, and the frames of one message.\<close>

type_synonym frame = "bytes \<times> bool"

fun multipart :: "bytes list \<Rightarrow> frame list" where
  "multipart [] = []"
| "multipart [m] = [(m, False)]"
| "multipart (m # ms) = (m, True) # multipart ms"

section \<open>Reachable states of a transition system\<close>

inductive reach :: "('s \<Rightarrow> bool) \<Rightarrow> ('s \<Rightarrow> 's \<Rightarrow> bool) \<Rightarrow> 's \<Rightarrow> bool" for init step where
  reach_init: "init s \<Longrightarrow> reach init step s"
| reach_step: "reach init step s \<Longrightarrow> step s t \<Longrightarrow> reach init step t"

section \<open>Lemmas\<close>

lemma rbind_simps [simp]: "rbind (Inl e) f = Inl e" "rbind (Inr x) f = f x"
  by (simp_all add: rbind_def)

lemma rbind_Inr: "rbind r f = Inr y \<longleftrightarrow> (\<exists>x. r = Inr x \<and> f x = Inr y)"
  by (cases r) auto

lemma rbind_cong [fundef_cong]:
  "r = r' \<Longrightarrow> (\<And>x. r' = Inr x \<Longrightarrow> f x = g x) \<Longrightarrow> rbind r f = rbind r' g"
  by (cases r') simp_all

lemma rfold_append: "rfold f (xs @ ys) s = rbind (rfold f xs s) (rfold f ys)"
proof (induction xs arbitrary: s)
  case (Cons x xs)
  then show ?case by (cases "f x s") auto
qed simp

lemma rfold_invariant:
  assumes "rfold f xs s = Inr t" and "P s"
    and "\<And>x s t. x \<in> set xs \<Longrightarrow> P s \<Longrightarrow> f x s = Inr t \<Longrightarrow> P t"
  shows "P t"
  using assms
proof (induction xs arbitrary: s)
  case (Cons x xs)
  from Cons.prems(1) obtain u where u: "f x s = Inr u" "rfold f xs u = Inr t"
    by (auto simp: rbind_Inr)
  moreover have "P u" using Cons.prems(2,3) u(1) by auto
  ultimately show ?case using Cons.IH Cons.prems(3) by auto
qed simp

subsection \<open>Memory\<close>

lemma mem_write_Inr [mem_simps]:
  "0 \<le> off \<Longrightarrow> off + int (length src) \<le> int (length m) \<Longrightarrow>
   mem_write off src m = Inr (take (nat off) m @ src @ drop (nat off + length src) m)"
  by (simp add: mem_write_def)

lemma mem_write_length: "mem_write off src m = Inr m' \<Longrightarrow> length m' = length m"
  by (auto simp: mem_write_def split: if_splits)

lemma mem_read_Inr [mem_simps]:
  "0 \<le> off \<Longrightarrow> off + int n \<le> int (length m) \<Longrightarrow>
   mem_read off n m = Inr (take n (drop (nat off) m))"
  by (simp add: mem_read_def)

lemma mem_read_length: "mem_read off n m = Inr d \<Longrightarrow> length d = n"
  by (auto simp: mem_read_def split: if_splits)

lemma mem_read_write_same:
  "mem_write off src m = Inr m' \<Longrightarrow> mem_read off (length src) m' = Inr src"
  by (auto simp: mem_write_def mem_read_def split: if_splits)

lemma vget_Inr: "vget xs i = Inr v \<longleftrightarrow> 0 \<le> i \<and> i < int (length xs) \<and> v = xs ! nat i"
  by (auto simp: vget_def)

subsection \<open>Integer images\<close>

lemma unat_byte_less: "unat (b :: byte) < 256"
  using unsigned_less [of b] by simp

lemma less_succ_word:
  fixes x :: "'a::len word"
  assumes "x \<noteq> - 1"
  shows "x < x + 1"
proof -
  have "unat x \<noteq> unat (- 1 :: 'a word)" using assms by (metis word_unat_eq_iff)
  then have "unat x < 2 ^ LENGTH('a) - 1"
    using unsigned_less [of x] less_Suc_eq [of "unat x" "2 ^ LENGTH('a) - 1"]
    by (simp add: unsigned_minus_1_eq_mask mask_eq_exp_minus_1)
  then have "unat x + 1 < 2 ^ LENGTH('a)" by linarith
  then have "unat (x + 1) = unat x + 1" by (simp add: unat_word_ariths)
  then show ?thesis by (simp add: word_less_nat_alt)
qed

lemma length_le_bytes [simp, codec_simps]: "length (le_bytes n v) = n"
  by (induction n arbitrary: v) auto

lemma le_nat_le_bytes: "le_nat (le_bytes n v) = v mod 256 ^ n"
proof (induction n arbitrary: v)
  case (Suc n)
  have "v mod (256 * 256 ^ n) = 256 * (v div 256 mod 256 ^ n) + v mod 256"
    by (rule mod_mult2_eq)
  then show ?case using Suc by (simp add: unat_of_nat)
qed simp

lemma le_nat_less: "le_nat bs < 256 ^ length bs"
proof (induction bs)
  case (Cons b bs)
  have "unat b < 256" by (rule unat_byte_less)
  with Cons show ?case by simp
qed simp

lemma le_bytes_le_nat: "le_bytes (length bs) (le_nat bs) = bs"
proof (induction bs)
  case (Cons b bs)
  have "unat b < 256" by (rule unat_byte_less)
  then have "(unat b + 256 * le_nat bs) div 256 = le_nat bs" by simp
  moreover have "(word_of_nat (unat b + 256 * le_nat bs) :: 8 word) = b"
    using unat_byte_less [of b] by (simp add: unat_of_nat word_unat_eq_iff del: of_nat_add of_nat_mult)
  ultimately show ?case using Cons by simp
qed simp

lemma le_nat_le_bytes_word:
  fixes w :: "'a::len word"
  assumes "LENGTH('a) = 8 * n"
  shows "le_nat (le_bytes n (unat w)) = unat w"
proof -
  have "(256 :: nat) ^ n = 2 ^ LENGTH('a)" by (simp add: assms power_mult)
  then show ?thesis by (simp add: le_nat_le_bytes)
qed

lemma length_enc_int [simp, codec_simps]:
  "length (enc_u8 a) = 1" "length (enc_u16 b) = 2" "length (enc_i32 c) = 4" "length (enc_u64 d) = 8"
  by (simp_all add: enc_u8_def enc_u16_def enc_i32_def enc_u64_def)

section \<open>The interface of a fixed-size memory image\<close>

text \<open>
  Everything that crosses a socket or a byte array in this code base is the memory image of a
  trivially copyable value. The provider promises the size of the image and that reading it back
  gives the value; the clients get the facts about images inside longer byte sequences.
\<close>

locale fixed_codec =
  fixes enc :: "'a \<Rightarrow> bytes" and dec :: "bytes \<Rightarrow> 'a" and size_of :: nat and ok :: "'a \<Rightarrow> bool"
  assumes length_enc: "ok x \<Longrightarrow> length (enc x) = size_of"
    and dec_enc_append: "ok x \<Longrightarrow> dec (enc x @ rest) = x"
begin

lemma dec_enc: "ok x \<Longrightarrow> dec (enc x) = x"
  using dec_enc_append [of x "[]"] by simp

lemma enc_inj: "ok x \<Longrightarrow> ok y \<Longrightarrow> enc x = enc y \<Longrightarrow> x = y"
  by (metis dec_enc)

lemma take_enc: "ok x \<Longrightarrow> take size_of (enc x @ rest) = enc x"
  by (simp add: length_enc)

lemma drop_enc: "ok x \<Longrightarrow> drop size_of (enc x @ rest) = rest"
  by (simp add: length_enc)

lemma map_dec_enc: "\<forall>x\<in>set xs. ok x \<Longrightarrow> map dec (map enc xs) = xs"
  by (induction xs) (auto simp: dec_enc)

end

interpretation u8_codec: fixed_codec enc_u8 dec_u8 1 "\<lambda>_. True"
  by unfold_locales (simp_all add: enc_u8_def dec_u8_def)

interpretation u16_codec: fixed_codec enc_u16 dec_u16 2 "\<lambda>_. True"
  by unfold_locales (simp_all add: enc_u16_def dec_u16_def le_nat_le_bytes_word)

interpretation i32_codec: fixed_codec enc_i32 dec_i32 4 "\<lambda>_. True"
  by unfold_locales (simp_all add: enc_i32_def dec_i32_def le_nat_le_bytes_word)

interpretation u64_codec: fixed_codec enc_u64 dec_u64 8 "\<lambda>_. True"
  by unfold_locales (simp_all add: enc_u64_def dec_u64_def le_nat_le_bytes_word)

lemmas dec_enc_int [simp, codec_simps] =
  u8_codec.dec_enc [OF TrueI] u16_codec.dec_enc [OF TrueI]
  i32_codec.dec_enc [OF TrueI] u64_codec.dec_enc [OF TrueI]
  u8_codec.dec_enc_append [OF TrueI] u16_codec.dec_enc_append [OF TrueI]
  i32_codec.dec_enc_append [OF TrueI] u64_codec.dec_enc_append [OF TrueI]

lemma enc_dec_i32: "length bs = 4 \<Longrightarrow> enc_i32 (dec_i32 bs) = bs"
  using le_nat_less [of bs] le_bytes_le_nat [of bs]
  by (simp add: enc_i32_def dec_i32_def unat_of_nat)

section \<open>Strings\<close>

lemma cstr_append_zero [simp]: "0 \<notin> set s \<Longrightarrow> cstr (s @ 0 # rest) = s"
  by (induction s) (auto simp: cstr_def)

lemma cstr_no_zero: "0 \<notin> set (cstr s)"
  by (auto simp: cstr_def dest: set_takeWhileD)

lemma cstr_id: "0 \<notin> set s \<Longrightarrow> cstr s = s"
  by (induction s) (auto simp: cstr_def)

lemma length_cstr_le: "length (cstr s) \<le> length s"
  by (simp add: cstr_def length_takeWhile_le)

lemma length_cstr_less: "0 \<in> set a \<Longrightarrow> length (cstr a) < length a"
  by (induction a) (auto simp: cstr_def)

lemma length_bytes_of_string [simp]: "length (bytes_of_string s) = length s"
  by (simp add: bytes_of_string_def)

lemma strcpy_fits:
  "length (cstr src) < length dst \<Longrightarrow>
   strcpy dst src = Inr (cstr src @ 0 # drop (Suc (length (cstr src))) dst)"
  by (simp add: strcpy_def mem_write_def)

lemma strcpy_overruns:
  "length dst \<le> length (cstr src) \<Longrightarrow> strcpy dst src = Inl OutOfBounds"
  by (simp add: strcpy_def mem_write_def)

lemma strcpy_reads_back:
  "strcpy dst src = Inr d \<Longrightarrow> length d = length dst \<and> cstr d = cstr src"
  by (auto simp: strcpy_def mem_write_def cstr_no_zero split: if_splits)

lemma length_show_nat: "n < 10 ^ Suc k \<Longrightarrow> length (show_nat n) \<le> Suc k"
proof (induction k arbitrary: n)
  case (Suc k)
  show ?case
  proof (cases "n < 10")
    case False
    have "n div 10 < 10 ^ Suc k" using Suc.prems by (simp add: less_mult_imp_div_less)
    with Suc.IH [of "n div 10"] False show ?thesis by (subst show_nat.simps) simp
  qed (simp add: show_nat.simps)
qed (simp add: show_nat.simps)

lemma multipart_Cons: "multipart (m # ms) = (m, ms \<noteq> []) # multipart ms"
  by (cases ms) simp_all

lemma length_multipart [simp]: "length (multipart ms) = length ms"
  by (induction ms rule: multipart.induct) simp_all

section \<open>The interface of a transition system with an invariant\<close>

locale invariant_system =
  fixes init :: "'s \<Rightarrow> bool" and step :: "'s \<Rightarrow> 's \<Rightarrow> bool" and inv :: "'s \<Rightarrow> bool"
  assumes inv_init: "init s \<Longrightarrow> inv s"
    and inv_step: "inv s \<Longrightarrow> step s t \<Longrightarrow> inv t"
begin

lemma reach_inv: "reach init step s \<Longrightarrow> inv s"
  by (induction rule: reach.induct) (auto intro: inv_init inv_step)

lemma steps_inv: "step\<^sup>*\<^sup>* s t \<Longrightarrow> inv s \<Longrightarrow> inv t"
  by (induction rule: rtranclp_induct) (auto intro: inv_step)

end

end
