(* ===== verification/RingBuffer.thy ===== *)
theory RingBuffer
  imports Prelude
begin

unbundle bit_operations_syntax

text \<open>
  \<^verbatim>\<open>solcomapi/src/CachedBuffer.h\<close>: the single-producer single-consumer ring buffer in which the
  client queues its outgoing packages. The three positions are free-running 64-bit counters; a slot
  is a counter masked with \<open>capacity - 1\<close>. A slot pointer of the source is an index here.
\<close>

record 'a CachedBuffer =
  elements :: "'a list"
  capacity :: nat
  nHead :: u64
  nCurrent :: u64
  nTail :: u64

text \<open>
  The constructor counts the bits of \<open>cap\<close> by shifting it away; a negative \<open>int\<close> never becomes
  zero, and with \<open>cap = 0\<close> the shift \<open>1 << -1\<close> is undefined. The loop leaves \<open>cap = 0\<close>, which is
  what the comparison after it reads.
\<close>

fun shift_count :: "nat \<Rightarrow> nat \<Rightarrow> nat \<times> nat" where
  "shift_count cap n = (if cap = 0 then (n, cap) else shift_count (cap div 2) (Suc n))"

declare shift_count.simps [simp del]

definition ring_capacity :: "int \<Rightarrow> nat res" where
  "ring_capacity cap =
     (if cap < 0 then Inl NonTermination
      else let (n, cap') = shift_count (nat cap) 0
           in if n = 0 then Inl BadShift
              else let c = 2 ^ (n - 1) in Inr (if c < cap' then 2 * c else c))"

definition new_CachedBuffer :: "(nat \<Rightarrow> 'a) \<Rightarrow> int \<Rightarrow> 'a CachedBuffer res" where
  "new_CachedBuffer f cap =
     rbind (ring_capacity cap) (\<lambda>c.
     Inr \<lparr>elements = map f [0..<c], capacity = c, nHead = 0, nCurrent = 0, nTail = - 1\<rparr>)"

definition isEmpty :: "'a CachedBuffer \<Rightarrow> bool" where
  "isEmpty b \<longleftrightarrow> nTail b + 1 = nHead b"

definition isFull :: "'a CachedBuffer \<Rightarrow> bool" where
  "isFull b \<longleftrightarrow> nTail b + 1 - of_nat (capacity b) = nHead b"

definition slot :: "'a CachedBuffer \<Rightarrow> u64 \<Rightarrow> nat" where
  "slot b p = unat (p AND (of_nat (capacity b) - 1))"

definition allocate :: "'a CachedBuffer \<Rightarrow> nat option" where
  "allocate b = (if isFull b then None else Some (slot b (nTail b + 1)))"

definition headForward :: "'a CachedBuffer \<Rightarrow> bool \<times> 'a CachedBuffer" where
  "headForward b =
     (if isEmpty b then (False, b)
      else let b1 = b\<lparr>nHead := nHead b + 1\<rparr>
           in (True, if nCurrent b1 < nHead b1 then b1\<lparr>nCurrent := nHead b1\<rparr> else b1))"

definition currentForward :: "'a CachedBuffer \<Rightarrow> bool \<times> 'a CachedBuffer" where
  "currentForward b =
     (if nCurrent b > nTail b then (False, b) else (True, b\<lparr>nCurrent := nCurrent b + 1\<rparr>))"

definition tailForward :: "'a CachedBuffer \<Rightarrow> bool \<times> 'a CachedBuffer" where
  "tailForward b = (if isFull b then (False, b) else (True, b\<lparr>nTail := nTail b + 1\<rparr>))"

definition front :: "'a CachedBuffer \<Rightarrow> nat option" where
  "front b = (if isEmpty b then None else Some (slot b (nHead b)))"

definition current :: "'a CachedBuffer \<Rightarrow> nat option" where
  "current b = (if isEmpty b then None else Some (slot b (nCurrent b)))"

definition back_slot :: "'a CachedBuffer \<Rightarrow> nat option" where
  "back_slot b = (if isEmpty b then None else Some (slot b (nTail b)))"

text \<open>What a client does through the pointer \<open>allocate\<close> returned.\<close>

definition store :: "nat \<Rightarrow> 'a \<Rightarrow> 'a CachedBuffer \<Rightarrow> 'a CachedBuffer" where
  "store i x b = b\<lparr>elements := (elements b)[i := x]\<rparr>"

text \<open>One producer step: take the free slot, fill it, publish it.\<close>

definition enqueue :: "'a \<Rightarrow> 'a CachedBuffer \<Rightarrow> 'a CachedBuffer option" where
  "enqueue x b = (case allocate b of None \<Rightarrow> None | Some i \<Rightarrow> Some (snd (tailForward (store i x b))))"

text \<open>The element the consumer looks at, and its release.\<close>

definition peek :: "'a CachedBuffer \<Rightarrow> 'a option" where
  "peek b = map_option (\<lambda>i. elements b ! i) (front b)"

definition dequeue :: "'a CachedBuffer \<Rightarrow> 'a CachedBuffer" where
  "dequeue b = snd (headForward b)"

text \<open>
  Any interleaving of producer and consumer steps on a queue: what was accepted, what was handed
  out, and the queue at the end.
\<close>

datatype 'a qop = Enq 'a | Deq

fun fifo_run :: "('a \<Rightarrow> 'q \<Rightarrow> 'q option) \<Rightarrow> ('q \<Rightarrow> 'a option) \<Rightarrow> ('q \<Rightarrow> 'q) \<Rightarrow>
    'a qop list \<Rightarrow> 'q \<Rightarrow> 'a list \<times> 'a list \<times> 'q" where
  "fifo_run enq pk deq [] q = ([], [], q)"
| "fifo_run enq pk deq (Enq x # ops) q =
     (case enq x q of
        None \<Rightarrow> fifo_run enq pk deq ops q
      | Some q1 \<Rightarrow> (case fifo_run enq pk deq ops q1 of (acc, out, q2) \<Rightarrow> (x # acc, out, q2)))"
| "fifo_run enq pk deq (Deq # ops) q =
     (case pk q of
        None \<Rightarrow> fifo_run enq pk deq ops q
      | Some x \<Rightarrow> (case fifo_run enq pk deq ops (deq q) of (acc, out, q2) \<Rightarrow> (acc, x # out, q2)))"

text \<open>The queue the buffer stands for, and its invariant.\<close>

definition count :: "'a CachedBuffer \<Rightarrow> nat" where
  "count b = unat (nTail b + 1 - nHead b)"

definition rb_list :: "'a CachedBuffer \<Rightarrow> 'a list" where
  "rb_list b = map (\<lambda>i. elements b ! slot b (nHead b + of_nat i)) [0..<count b]"

definition rb_wf :: "'a CachedBuffer \<Rightarrow> bool" where
  "rb_wf b \<longleftrightarrow> (\<exists>k<32. capacity b = 2 ^ k) \<and> length (elements b) = capacity b \<and> count b \<le> capacity b"

section \<open>The capacity\<close>

lemma shift_count_eq:
  "0 < cap \<Longrightarrow> \<exists>k. shift_count cap n = (n + Suc k, 0) \<and> 2 ^ k \<le> cap \<and> cap < 2 ^ Suc k"
proof (induction cap n rule: shift_count.induct)
  case (1 cap n)
  show ?case
  proof (cases "cap = 1")
    case True
    then show ?thesis
      by (intro exI [of _ 0]) (simp add: shift_count.simps [of "Suc 0"] shift_count.simps [of 0])
  next
    case False
    with 1 obtain k where k: "shift_count (cap div 2) (Suc n) = (Suc n + Suc k, 0)"
      "2 ^ k \<le> cap div 2" "cap div 2 < 2 ^ Suc k"
      by fastforce
    then have "2 ^ Suc k \<le> cap" and "cap < 2 ^ Suc (Suc k)" by (simp_all add: less_eq_div_iff_mult_less_eq)
    with k(1) 1(2) show ?thesis
      by (intro exI [of _ "Suc k"]) (simp add: shift_count.simps [of cap])
  qed
qed

lemma ring_capacity_eq:
  assumes "0 < cap"
  obtains k where "ring_capacity cap = Inr (2 ^ k)" "2 ^ k \<le> cap" "cap < 2 ^ Suc k"
proof -
  have "0 < nat cap" using assms by simp
  from shift_count_eq [OF this, of 0] obtain k where
    k: "shift_count (nat cap) 0 = (Suc k, 0)" "2 ^ k \<le> nat cap" "nat cap < 2 ^ Suc k"
    by auto
  from k(1) assms have "ring_capacity cap = Inr (2 ^ k)" by (simp add: ring_capacity_def)
  moreover have "2 ^ k \<le> cap" "cap < 2 ^ Suc k"
    using k(2,3) assms by (simp_all add: nat_less_iff le_nat_iff del: power_Suc)
  ultimately show ?thesis by (rule that)
qed

section \<open>Slots\<close>

lemma offset_mod_inj:
  fixes h i j n :: nat
  assumes "i < n" and "j < n" and "(h + i) mod n = (h + j) mod n"
  shows "i = j"
proof -
  have "\<not> x < y" if "y < n" "(h + x) mod n = (h + y) mod n" for x y
  proof
    assume "x < y"
    with that(2) have "n dvd (h + y) - (h + x)" by (subst mod_eq_dvd_iff_nat [symmetric]) simp_all
    with that(1) \<open>x < y\<close> show False by (auto dest: dvd_imp_le)
  qed
  from this [of j i] this [of i j] assms show ?thesis by simp
qed

lemma slot_eq:
  assumes "capacity b = 2 ^ k" and "k < 64"
  shows "slot b p = unat p mod capacity b"
proof -
  have "of_nat (capacity b) - 1 = (mask k :: u64)"
    using assms by (simp add: mask_eq_decr_exp)
  then have "p AND (of_nat (capacity b) - 1) = take_bit k p"
    by (simp add: take_bit_eq_mask)
  then have "slot b p = take_bit k (unat p)"
    using assms(2) by (simp only: slot_def unsigned_take_bit_eq)
  then show ?thesis by (simp add: take_bit_eq_mod assms(1))
qed

lemma slot_offset:
  assumes "rb_wf b"
  shows "slot b (nHead b + of_nat i) = (unat (nHead b) + i) mod capacity b"
proof -
  obtain k where k: "k < 32" "capacity b = 2 ^ k" using assms by (auto simp: rb_wf_def)
  have "(2 :: nat) ^ k dvd 2 ^ 64" using k(1) by (intro le_imp_power_dvd) simp
  then have "unat (nHead b + of_nat i) mod 2 ^ k = (unat (nHead b) + i) mod 2 ^ k"
    by (simp add: unat_word_ariths unat_of_nat mod_mod_cancel mod_add_right_eq)
  then show ?thesis using k by (simp add: slot_eq)
qed

lemma slot_distinct:
  assumes "rb_wf b" and "i < capacity b" and "j < capacity b"
    and "slot b (nHead b + of_nat i) = slot b (nHead b + of_nat j)"
  shows "i = j"
  using assms by (auto simp: slot_offset intro: offset_mod_inj)

lemma slot_bound: "rb_wf b \<Longrightarrow> slot b p < capacity b"
  by (auto simp: rb_wf_def slot_eq)

section \<open>The queue laws\<close>

lemma unat_Suc_u64: "unat (d :: u64) < 2 ^ 32 \<Longrightarrow> unat (d + 1) = Suc (unat d)"
  by (simp add: unat_word_ariths)

lemma capacity_less:
  assumes "rb_wf b"
  shows "capacity b < 2 ^ 32"
proof -
  obtain k where "k < 32" "capacity b = 2 ^ k" using assms by (auto simp: rb_wf_def)
  then show ?thesis using power_strict_increasing [of k 32 "2 :: nat"] by simp
qed

lemma capacity_pos: "rb_wf b \<Longrightarrow> 0 < capacity b"
  by (auto simp: rb_wf_def)

lemma isEmpty_iff: "isEmpty b \<longleftrightarrow> rb_list b = []"
  by (auto simp: isEmpty_def rb_list_def count_def unat_eq_0)

lemma isFull_iff:
  assumes "rb_wf b"
  shows "isFull b \<longleftrightarrow> length (rb_list b) = capacity b"
proof -
  have "unat (of_nat (capacity b) :: u64) = capacity b"
    using capacity_less [OF assms] by (simp add: unat_of_nat)
  then have "count b = capacity b \<longleftrightarrow> nTail b + 1 - nHead b = of_nat (capacity b)"
    by (metis count_def word_unat_eq_iff)
  then show ?thesis by (auto simp: isFull_def rb_list_def algebra_simps)
qed

lemma length_rb_list: "rb_wf b \<Longrightarrow> length (rb_list b) \<le> capacity b"
  by (simp add: rb_list_def rb_wf_def)

lemma count_tail:
  assumes "rb_wf b" and "\<not> isFull b"
  shows "count (b\<lparr>nTail := nTail b + 1\<rparr>) = Suc (count b)"
proof -
  have "count b < capacity b"
    using assms isFull_iff [OF assms(1)] by (auto simp: rb_wf_def rb_list_def)
  then have "count b < 2 ^ 32" using capacity_less [OF assms(1)] by simp
  then have "unat ((nTail b + 1 - nHead b) + 1) = Suc (count b)"
    unfolding count_def by (rule unat_Suc_u64)
  moreover have "(nTail b + 1 - nHead b) + 1 = nTail b + 1 + 1 - nHead b" by simp
  ultimately show ?thesis by (simp add: count_def)
qed

lemma enqueue_list:
  assumes "rb_wf b" and "enqueue x b = Some b'"
  shows "rb_list b' = rb_list b @ [x] \<and> rb_wf b' \<and> capacity b' = capacity b \<and>
    nHead b' = nHead b \<and> nCurrent b' = nCurrent b"
proof -
  let ?i = "slot b (nTail b + 1)"
  let ?b = "b\<lparr>elements := (elements b)[?i := x]\<rparr>"
  from assms(2) have nf: "\<not> isFull b" and b': "b' = ?b\<lparr>nTail := nTail b + 1\<rparr>"
    by (auto simp: enqueue_def allocate_def store_def tailForward_def isFull_def split: if_splits)
  have cnt: "count b' = Suc (count b)"
    using count_tail [OF assms(1) nf] by (simp add: b' count_def)
  have lt: "count b < capacity b"
    using nf isFull_iff [OF assms(1)] assms(1) by (auto simp: rb_wf_def rb_list_def)
  have t: "nTail b + 1 = nHead b + of_nat (count b)" by (simp add: count_def)
  have sl: "slot b' p = slot b p" for p by (simp add: b' slot_def)
  have keep: "elements b' ! slot b (nHead b + of_nat j) = elements b ! slot b (nHead b + of_nat j)"
    if "j < count b" for j
  proof -
    have "slot b (nHead b + of_nat j) \<noteq> ?i"
      using slot_distinct [OF assms(1), of j "count b"] that lt by (auto simp: t)
    then show ?thesis by (simp add: b')
  qed
  have new: "elements b' ! slot b (nHead b + of_nat (count b)) = x"
    using slot_bound [OF assms(1)] assms(1) by (simp add: b' t rb_wf_def)
  have "rb_list b' = rb_list b @ [x]"
    using keep new by (simp add: rb_list_def cnt sl) (simp add: b')
  moreover have "rb_wf b'" using assms(1) cnt lt by (auto simp: rb_wf_def b')
  ultimately show ?thesis by (simp add: b')
qed

lemma headForward_list:
  assumes "rb_wf b" and "rb_list b \<noteq> []" and "headForward b = (r, b')"
  shows "r \<and> rb_list b' = tl (rb_list b) \<and> rb_wf b' \<and> capacity b' = capacity b \<and>
    elements b' = elements b"
proof -
  have ne: "\<not> isEmpty b" using assms(2) by (simp add: isEmpty_iff)
  then have f: "r" "nHead b' = nHead b + 1" "nTail b' = nTail b" "elements b' = elements b"
    "capacity b' = capacity b"
    using assms(3) by (auto simp: headForward_def Let_def split: if_splits)
  from assms(2) have pos: "0 < count b" by (simp add: rb_list_def)
  have "nTail b + 1 - (nHead b + 1) = (nTail b + 1 - nHead b) - 1" by simp
  then have cnt: "count b' = count b - 1"
    using pos unat_minus_one [of "nTail b + 1 - nHead b"] by (simp only: count_def f unat_gt_0 simp_thms)
  have sl: "slot b' p = slot b p" for p by (simp add: f slot_def)
  have "rb_list b' = tl (rb_list b)"
    using pos by (auto simp: rb_list_def cnt sl f nth_tl intro!: nth_equalityI) (simp add: algebra_simps)
  then show ?thesis using f assms(1) cnt by (auto simp: rb_wf_def)
qed

lemma front_hd:
  assumes "rb_wf b" and "rb_list b \<noteq> []"
  shows "\<exists>i. front b = Some i \<and> elements b ! i = hd (rb_list b)"
proof -
  have "0 < count b" using assms(2) by (simp add: rb_list_def)
  then have "hd (rb_list b) = elements b ! slot b (nHead b)"
    by (simp add: rb_list_def hd_map upt_conv_Cons)
  then show ?thesis using assms(2) by (simp add: front_def isEmpty_iff)
qed

lemma peek_list: "rb_wf b \<Longrightarrow> peek b = (if rb_list b = [] then None else Some (hd (rb_list b)))"
  using front_hd [of b] by (auto simp: peek_def front_def isEmpty_iff)

lemma enqueue_None: "rb_wf b \<Longrightarrow> enqueue x b = None \<longleftrightarrow> length (rb_list b) = capacity b"
  by (simp add: enqueue_def allocate_def isFull_iff)

section \<open>The interface of a bounded queue\<close>

locale bounded_fifo =
  fixes invar :: "'q \<Rightarrow> bool" and abs :: "'q \<Rightarrow> 'a list" and cap :: "'q \<Rightarrow> nat"
    and enq :: "'a \<Rightarrow> 'q \<Rightarrow> 'q option" and pk :: "'q \<Rightarrow> 'a option" and deq :: "'q \<Rightarrow> 'q"
  assumes bound: "invar q \<Longrightarrow> length (abs q) \<le> cap q"
    and enq_None: "invar q \<Longrightarrow> enq x q = None \<longleftrightarrow> length (abs q) = cap q"
    and enq_Some: "invar q \<Longrightarrow> enq x q = Some q' \<Longrightarrow>
          invar q' \<and> abs q' = abs q @ [x] \<and> cap q' = cap q"
    and pk_hd: "invar q \<Longrightarrow> pk q = (if abs q = [] then None else Some (hd (abs q)))"
    and deq_tl: "invar q \<Longrightarrow> abs q \<noteq> [] \<Longrightarrow>
          invar (deq q) \<and> abs (deq q) = tl (abs q) \<and> cap (deq q) = cap q"
begin

lemma run_fifo:
  assumes "invar q" and "fifo_run enq pk deq ops q = (acc, out, q')"
  shows "abs q @ acc = out @ abs q' \<and> invar q' \<and> cap q' = cap q"
  using assms
proof (induction ops arbitrary: q acc out)
  case (Cons op ops)
  show ?case
  proof (cases op)
    case (Enq x)
    then show ?thesis
      using Cons enq_Some [OF Cons.prems(1), of x]
      by (cases "enq x q") (fastforce split: prod.splits)+
  next
    case Deq
    show ?thesis
    proof (cases "abs q = []")
      case True
      then show ?thesis
        using Deq Cons.prems Cons.IH [of q acc out] pk_hd [OF Cons.prems(1)] by simp
    next
      case False
      from Deq False Cons.prems(2) pk_hd [OF Cons.prems(1)] obtain out1 where
        o: "fifo_run enq pk deq ops (deq q) = (acc, out1, q')" "out = hd (abs q) # out1"
        by (auto split: prod.splits)
      from deq_tl [OF Cons.prems(1) False] Cons.IH [OF _ o(1)]
      have "tl (abs q) @ acc = out1 @ abs q' \<and> invar q' \<and> cap q' = cap q" by simp
      with o(2) False show ?thesis by (cases "abs q") auto
    qed
  qed
qed simp

lemma run_bounded:
  "invar q \<Longrightarrow> fifo_run enq pk deq ops q = (acc, out, q') \<Longrightarrow> length (abs q') \<le> cap q"
  using run_fifo bound by metis

end

interpretation ring: bounded_fifo rb_wf rb_list capacity enqueue peek dequeue
proof (unfold_locales, goal_cases)
  case 1 then show ?case by (rule length_rb_list)
next
  case 2 then show ?case by (rule enqueue_None)
next
  case 3 then show ?case using enqueue_list [OF 3] by simp
next
  case 4 then show ?case by (rule peek_list)
next
  case (5 q)
  then show ?case
    using headForward_list [OF 5, of "fst (headForward q)" "snd (headForward q)"]
    by (simp add: dequeue_def)
qed

lemma new_CachedBuffer_spec:
  assumes "0 < cap" and "cap < 2 ^ 31"
  obtains b where "new_CachedBuffer f cap = Inr b" "rb_wf b" "rb_list b = []"
    "int (capacity b) \<le> cap" "cap < 2 * int (capacity b)" "nCurrent b = nHead b" "nHead b = 0"
proof -
  obtain k where k: "ring_capacity cap = Inr (2 ^ k)" "2 ^ k \<le> cap" "cap < 2 ^ Suc k"
    using ring_capacity_eq [OF assms(1)] .
  then have "(2 :: int) ^ k < 2 ^ 31" using assms(2) by linarith
  then have "k < 32" using power_less_imp_less_exp [of "2 :: int" k 31] by simp
  then show ?thesis
    by (intro that [of "\<lparr>elements = map f [0..<2 ^ k], capacity = 2 ^ k, nHead = 0, nCurrent = 0, nTail = - 1\<rparr>"])
      (use k in \<open>auto simp: new_CachedBuffer_def rb_wf_def rb_list_def count_def\<close>)
qed

section \<open>Properties\<close>



end
