(* ===== verification/ByteArray.thy ===== *)
theory ByteArray
  imports Prelude
begin

text \<open>
  \<^verbatim>\<open>solcomapi/src/CByteArray.h\<close>: the sliding-window byte array under every message buffer of the
  solcomapi client and server. The object is its allocation, the capacity it reports and its two
  positions; the valid bytes are those in \<open>[nLeft, nRight)\<close>. The source does no checking, so an
  access outside the allocation is a fault of the model. The byte image of a value of type \<open>T\<close>
  stands for the value itself: its length is \<open>sizeof(T)\<close>.
\<close>

record CByteArray =
  pCharArr :: bytes
  nCapacity :: int
  nRight :: int
  nLeft :: int

text \<open>\<open>new char[n]\<close> leaves the bytes indeterminate: \<open>g\<close> gives them.\<close>

definition new_CByteArray :: "(nat \<Rightarrow> byte) \<Rightarrow> int \<Rightarrow> CByteArray" where
  "new_CByteArray g nCap =
     (let cap = (if nCap > 1424 then nCap else 1424)
      in \<lparr>pCharArr = map g [0..<nat cap], nCapacity = cap, nRight = 0, nLeft = 0\<rparr>)"

definition Init :: "CByteArray \<Rightarrow> CByteArray" where
  "Init b = b\<lparr>nRight := 0, nLeft := 0\<rparr>"

definition Capacity :: "CByteArray \<Rightarrow> int" where "Capacity b = nCapacity b"
definition LeftPos :: "CByteArray \<Rightarrow> int" where "LeftPos b = nLeft b"
definition RightPos :: "CByteArray \<Rightarrow> int" where "RightPos b = nRight b"

text \<open>The new array is never recorded in \<open>nCapacity\<close>.\<close>

definition Reallocate :: "(nat \<Rightarrow> byte) \<Rightarrow> int \<Rightarrow> CByteArray \<Rightarrow> CByteArray res" where
  "Reallocate g newCap b =
     (if newCap > nCapacity b
      then rbind (mem_read (nLeft b) (nat (nRight b - nLeft b)) (pCharArr b)) (\<lambda>d.
           rbind (mem_write (nLeft b) d (map g [0..<nat newCap])) (\<lambda>m.
           Inr (b\<lparr>pCharArr := m\<rparr>)))
      else Inr b)"

definition LeftForward :: "int \<Rightarrow> CByteArray \<Rightarrow> CByteArray" where
  "LeftForward n b = b\<lparr>nLeft := nLeft b + n\<rparr>"
definition LeftBackward :: "int \<Rightarrow> CByteArray \<Rightarrow> CByteArray" where
  "LeftBackward n b = b\<lparr>nLeft := nLeft b - n\<rparr>"
definition RightForward :: "int \<Rightarrow> CByteArray \<Rightarrow> CByteArray" where
  "RightForward n b = b\<lparr>nRight := nRight b + n\<rparr>"
definition RightBackward :: "int \<Rightarrow> CByteArray \<Rightarrow> CByteArray" where
  "RightBackward n b = b\<lparr>nRight := nRight b - n\<rparr>"

definition Append :: "bytes \<Rightarrow> CByteArray \<Rightarrow> CByteArray res" where
  "Append data b =
     rbind (mem_write (nRight b) data (pCharArr b)) (\<lambda>m.
     Inr (b\<lparr>pCharArr := m, nRight := nRight b + int (length data)\<rparr>))"

definition Append_arr :: "bytes list \<Rightarrow> CByteArray \<Rightarrow> CByteArray res" where
  "Append_arr xs b = Append (concat xs) b"

definition Prepend :: "bytes \<Rightarrow> CByteArray \<Rightarrow> CByteArray res" where
  "Prepend data b =
     (let l = nLeft b - int (length data)
      in rbind (mem_write l data (pCharArr b)) (\<lambda>m.
         Inr (b\<lparr>pCharArr := m, nLeft := l\<rparr>)))"

definition Prepend_arr :: "bytes list \<Rightarrow> CByteArray \<Rightarrow> CByteArray res" where
  "Prepend_arr xs b = Prepend (concat xs) b"

definition HeadIntercept :: "nat \<Rightarrow> CByteArray \<Rightarrow> (bytes \<times> CByteArray) res" where
  "HeadIntercept sz b =
     rbind (mem_read (nLeft b) sz (pCharArr b)) (\<lambda>d.
     Inr (d, b\<lparr>nLeft := nLeft b + int sz\<rparr>))"

definition HeadIntercept_arr :: "nat \<Rightarrow> nat \<Rightarrow> CByteArray \<Rightarrow> (bytes \<times> CByteArray) res" where
  "HeadIntercept_arr sz n b = HeadIntercept (sz * n) b"

definition TailIntercept :: "nat \<Rightarrow> CByteArray \<Rightarrow> (bytes \<times> CByteArray) res" where
  "TailIntercept sz b =
     (let r = nRight b - int sz
      in rbind (mem_read r sz (pCharArr b)) (\<lambda>d. Inr (d, b\<lparr>nRight := r\<rparr>)))"

text \<open>The array version moves the position by \<open>n\<close> elements and copies one.\<close>

definition TailIntercept_arr :: "nat \<Rightarrow> nat \<Rightarrow> CByteArray \<Rightarrow> (bytes \<times> CByteArray) res" where
  "TailIntercept_arr sz n b =
     (let r = nRight b - int (sz * n)
      in rbind (mem_read r sz (pCharArr b)) (\<lambda>d. Inr (d, b\<lparr>nRight := r\<rparr>)))"

text \<open>What the window holds, the well-formedness the callers keep, and the room behind it.\<close>

definition content :: "CByteArray \<Rightarrow> bytes" where
  "content b = take (nat (nRight b - nLeft b)) (drop (nat (nLeft b)) (pCharArr b))"

definition ba_wf :: "CByteArray \<Rightarrow> bool" where
  "ba_wf b \<longleftrightarrow> 0 \<le> nLeft b \<and> nLeft b \<le> nRight b \<and> nRight b \<le> int (length (pCharArr b)) \<and>
     1424 \<le> nCapacity b \<and> nCapacity b \<le> int (length (pCharArr b))"

definition tail_room :: "CByteArray \<Rightarrow> int" where
  "tail_room b = int (length (pCharArr b)) - nRight b"

section \<open>Lemmas\<close>

lemmas ba_pos_defs = LeftForward_def LeftBackward_def RightForward_def RightBackward_def
  Init_def LeftPos_def RightPos_def Capacity_def

lemma new_CByteArray_wf: "ba_wf (new_CByteArray g n)"
  and content_new: "content (new_CByteArray g n) = []"
  by (simp_all add: new_CByteArray_def ba_wf_def content_def Let_def)

lemma Init_wf: "ba_wf b \<Longrightarrow> ba_wf (Init b)"
  and content_Init: "content (Init b) = []"
  by (simp_all add: Init_def ba_wf_def content_def)

lemma length_content: "ba_wf b \<Longrightarrow> int (length (content b)) = nRight b - nLeft b"
  by (auto simp: content_def ba_wf_def)

lemma window_append:
  "l \<le> r \<Longrightarrow> r \<le> length m \<Longrightarrow>
   take (r + length d - l) (drop l (take r m @ d @ z)) = take (r - l) (drop l m) @ d"
  by (simp add: drop_take)

lemma Append_spec:
  assumes "ba_wf b" and "int (length d) \<le> tail_room b"
  obtains b' where "Append d b = Inr b'" "ba_wf b'" "content b' = content b @ d"
    "nLeft b' = nLeft b" "nRight b' = nRight b + int (length d)"
    "length (pCharArr b') = length (pCharArr b)" "nCapacity b' = nCapacity b"
proof -
  let ?m = "take (nat (nRight b)) (pCharArr b) @ d @ drop (nat (nRight b) + length d) (pCharArr b)"
  let ?b = "b\<lparr>pCharArr := ?m, nRight := nRight b + int (length d)\<rparr>"
  have w: "Append d b = Inr ?b"
    using assms by (simp add: Append_def mem_write_def ba_wf_def tail_room_def)
  have r: "nat (nRight b + int (length d) - nLeft b) = nat (nRight b) + length d - nat (nLeft b)"
    and l: "nat (nRight b - nLeft b) = nat (nRight b) - nat (nLeft b)"
    using assms by (auto simp: ba_wf_def)
  have "content ?b = take (nat (nRight b) + length d - nat (nLeft b)) (drop (nat (nLeft b)) ?m)"
    by (simp add: content_def r del: drop_append take_append)
  also have "\<dots> = content b @ d"
    unfolding content_def l by (rule window_append) (use assms in \<open>auto simp: ba_wf_def\<close>)
  finally have c: "content ?b = content b @ d" .
  show ?thesis
    by (rule that [OF w _ c]) (use assms in \<open>auto simp: ba_wf_def tail_room_def\<close>)
qed

lemma Prepend_spec:
  assumes "ba_wf b" and "int (length d) \<le> nLeft b"
  obtains b' where "Prepend d b = Inr b'" "ba_wf b'" "content b' = d @ content b"
    "nLeft b' = nLeft b - int (length d)" "nRight b' = nRight b"
    "length (pCharArr b') = length (pCharArr b)" "nCapacity b' = nCapacity b"
proof -
  let ?l = "nLeft b - int (length d)"
  let ?m = "take (nat ?l) (pCharArr b) @ d @ drop (nat ?l + length d) (pCharArr b)"
  let ?b = "b\<lparr>pCharArr := ?m, nLeft := ?l\<rparr>"
  have w: "Prepend d b = Inr ?b"
    using assms by (simp add: Prepend_def mem_write_def ba_wf_def Let_def)
  have r: "nat (nRight b - ?l) = length d + nat (nRight b - nLeft b)"
    and l: "nat ?l + length d = nat (nLeft b)"
    using assms by (auto simp: ba_wf_def)
  have c: "content ?b = d @ content b"
    using assms by (auto simp: content_def r l ba_wf_def min_def)
  show ?thesis
    by (rule that [OF w _ c]) (use assms in \<open>auto simp: ba_wf_def\<close>)
qed

lemma HeadIntercept_spec:
  assumes "ba_wf b" and "n \<le> length (content b)"
  obtains b' where "HeadIntercept n b = Inr (take n (content b), b')" "ba_wf b'"
    "content b' = drop n (content b)" "nLeft b' = nLeft b + int n" "nRight b' = nRight b"
    "pCharArr b' = pCharArr b" "nCapacity b' = nCapacity b"
proof -
  let ?b = "b\<lparr>nLeft := nLeft b + int n\<rparr>"
  have n: "nLeft b + int n \<le> nRight b"
    using assms length_content [OF assms(1)] by linarith
  then have w: "HeadIntercept n b = Inr (take n (content b), ?b)"
    using assms by (auto simp: HeadIntercept_def mem_read_def ba_wf_def content_def min_def)
  have c: "content ?b = drop n (content b)"
    using assms n by (auto simp: content_def ba_wf_def drop_take nat_add_distrib nat_diff_distrib add.commute)
  show ?thesis
    by (rule that [OF w _ c]) (use assms n in \<open>auto simp: ba_wf_def\<close>)
qed

lemma TailIntercept_spec:
  assumes "ba_wf b" and "n \<le> length (content b)"
  obtains b' where "TailIntercept n b = Inr (drop (length (content b) - n) (content b), b')"
    "ba_wf b'" "content b' = take (length (content b) - n) (content b)"
proof -
  let ?b = "b\<lparr>nRight := nRight b - int n\<rparr>"
  have len: "length (content b) = nat (nRight b - nLeft b)"
    using length_content [OF assms(1)] by simp
  have n: "nLeft b + int n \<le> nRight b"
    using assms length_content [OF assms(1)] by linarith
  have r: "nat (nRight b - int n) = nat (nLeft b) + (nat (nRight b - nLeft b) - n)"
    and r2: "nat (nRight b - int n - nLeft b) = nat (nRight b - nLeft b) - n"
    using assms n by (auto simp: ba_wf_def)
  have t: "n = nat (nRight b - nLeft b) - (nat (nRight b - nLeft b) - n)"
    using assms(2) len by simp
  have "drop (length (content b) - n) (content b) = take n (drop (nat (nRight b - int n)) (pCharArr b))"
    unfolding len using t by (simp add: content_def drop_take r add.commute)
  then have w: "TailIntercept n b = Inr (drop (length (content b) - n) (content b), ?b)"
    using assms n by (auto simp: TailIntercept_def mem_read_def ba_wf_def Let_def)
  have c: "content ?b = take (length (content b) - n) (content b)"
    unfolding len by (simp add: content_def r2 min_def)
  show ?thesis
    by (rule that [OF w _ c]) (use assms n in \<open>auto simp: ba_wf_def\<close>)
qed

lemma Reallocate_spec:
  assumes "ba_wf b" and "nRight b \<le> newCap"
  obtains b' where "Reallocate g newCap b = Inr b'" "ba_wf b'" "content b' = content b"
    "nLeft b' = nLeft b" "nRight b' = nRight b" "nCapacity b' = nCapacity b"
    "newCap \<le> int (length (pCharArr b'))"
proof (cases "newCap > nCapacity b")
  case True
  let ?m = "take (nat (nLeft b)) (map g [0..<nat newCap]) @ content b @
            drop (nat (nLeft b) + length (content b)) (map g [0..<nat newCap])"
  have len: "length (content b) = nat (nRight b - nLeft b)"
    using length_content [OF assms(1)] by simp
  have m: "mem_write (nLeft b) (content b) (map g [0..<nat newCap]) = Inr ?m"
    using assms True len by (simp add: mem_write_def ba_wf_def)
  have w: "Reallocate g newCap b = Inr (b\<lparr>pCharArr := ?m\<rparr>)"
    using assms True m by (simp add: Reallocate_def mem_read_Inr ba_wf_def content_def)
  have c: "content (b\<lparr>pCharArr := ?m\<rparr>) = content b"
    unfolding content_def [of "b\<lparr>pCharArr := ?m\<rparr>"]
    using assms True len by (auto simp: ba_wf_def)
  show ?thesis
    by (rule that [OF w _ c]) (use assms True len in \<open>auto simp: ba_wf_def\<close>)
next
  case False
  then have "Reallocate g newCap b = Inr b" by (simp add: Reallocate_def)
  then show ?thesis
    by (rule that) (use assms False in \<open>auto simp: ba_wf_def\<close>)
qed

section \<open>The interface of a byte window\<close>

text \<open>
  What the serialisers rely on: pushing at the back, popping at the front, and the room that is
  left. The clients work with whole sequences of fields.
\<close>

locale byte_window =
  fixes wf :: "'b \<Rightarrow> bool" and bytes_of :: "'b \<Rightarrow> bytes" and room :: "'b \<Rightarrow> int"
    and push :: "bytes \<Rightarrow> 'b \<Rightarrow> 'b res" and pop :: "nat \<Rightarrow> 'b \<Rightarrow> (bytes \<times> 'b) res"
  assumes push_ok: "wf b \<Longrightarrow> int (length d) \<le> room b \<Longrightarrow>
      \<exists>b'. push d b = Inr b' \<and> wf b' \<and> bytes_of b' = bytes_of b @ d \<and> room b' = room b - int (length d)"
    and pop_ok: "wf b \<Longrightarrow> n \<le> length (bytes_of b) \<Longrightarrow>
      \<exists>b'. pop n b = Inr (take n (bytes_of b), b') \<and> wf b' \<and> bytes_of b' = drop n (bytes_of b) \<and> room b' = room b"
begin

lemma push_all:
  assumes "wf b" and "int (length (concat ds)) \<le> room b"
  shows "\<exists>b'. rfold push ds b = Inr b' \<and> wf b' \<and> bytes_of b' = bytes_of b @ concat ds \<and>
    room b' = room b - int (length (concat ds))"
  using assms
proof (induction ds arbitrary: b)
  case (Cons d ds)
  then have "int (length d) \<le> room b" by simp
  with push_ok [OF Cons.prems(1)] obtain b1 where b1: "push d b = Inr b1" "wf b1"
    "bytes_of b1 = bytes_of b @ d" "room b1 = room b - int (length d)" by blast
  then have "int (length (concat ds)) \<le> room b1" using Cons.prems by simp
  with Cons.IH [OF b1(2)] b1 show ?case by auto
qed simp

lemma pop_front_of:
  assumes "wf b" and "bytes_of b = d @ rest"
  shows "\<exists>b'. pop (length d) b = Inr (d, b') \<and> wf b' \<and> bytes_of b' = rest \<and> room b' = room b"
  using pop_ok [OF assms(1), of "length d"] assms(2) by auto

lemma push_then_pop:
  assumes "wf b" and "bytes_of b = []" and "int (length d) \<le> room b"
  shows "\<exists>b1 b2. push d b = Inr b1 \<and> pop (length d) b1 = Inr (d, b2) \<and> bytes_of b2 = []"
proof -
  obtain b1 where b1: "push d b = Inr b1" "wf b1" "bytes_of b1 = d @ []"
    using push_ok [OF assms(1,3)] assms(2) by auto
  with pop_front_of [OF b1(2,3)] show ?thesis by blast
qed

end

interpretation win: byte_window ba_wf content tail_room Append HeadIntercept
proof
  fix b :: CByteArray and d :: bytes
  assume "ba_wf b" "int (length d) \<le> tail_room b"
  then obtain b' where "Append d b = Inr b'" "ba_wf b'" "content b' = content b @ d"
    "nRight b' = nRight b + int (length d)" "length (pCharArr b') = length (pCharArr b)"
    by (rule Append_spec)
  then show "\<exists>b'. Append d b = Inr b' \<and> ba_wf b' \<and> content b' = content b @ d \<and>
      tail_room b' = tail_room b - int (length d)"
    by (auto simp: tail_room_def)
next
  fix b :: CByteArray and n
  assume "ba_wf b" "n \<le> length (content b)"
  then obtain b' where "HeadIntercept n b = Inr (take n (content b), b')" "ba_wf b'"
    "content b' = drop n (content b)" "nRight b' = nRight b" "pCharArr b' = pCharArr b"
    by (rule HeadIntercept_spec)
  then show "\<exists>b'. HeadIntercept n b = Inr (take n (content b), b') \<and> ba_wf b' \<and>
      content b' = drop n (content b) \<and> tail_room b' = tail_room b"
    by (auto simp: tail_room_def)
qed

end
