(* ===== verification/Package.thy ===== *)
theory Package
  imports ByteArray
begin

text \<open>
  The wire format of solcomapi: \<^verbatim>\<open>CommonStruct.h\<close> (the package head), \<^verbatim>\<open>ISerializable.h\<close> and
  \<^verbatim>\<open>SillyCommand.h\<close> (the commands and their serialisers), \<^verbatim>\<open>PackageCodec.h\<close>,
  \<^verbatim>\<open>SerializableFactory.h\<close>, \<^verbatim>\<open>SerializableCache.h\<close>, and the statements the two \<open>postMsg\<close>
  functions share. A \<open>double\<close> is its 64-bit image.
\<close>

datatype EPkgReqRtnType = Type_Req | Type_Rtn
datatype ERecvStatType = Type_RecvHead | Type_RecvBody

definition reqRtn_code :: "EPkgReqRtnType \<Rightarrow> u8" where
  "reqRtn_code t = (case t of Type_Req \<Rightarrow> 0 | Type_Rtn \<Rightarrow> 1)"

text \<open>\<open>#pragma pack(1)\<close>: twelve bytes, no padding.\<close>

record PackageHeadField =
  versionID :: u8
  reqRtnType :: u8
  pkgBodyLen :: u16
  requestID :: u64

definition PackageHeadLen :: nat where "PackageHeadLen = 12"

definition enc_head :: "PackageHeadField \<Rightarrow> bytes" where
  "enc_head h = enc_u8 (versionID h) @ enc_u8 (reqRtnType h) @ enc_u16 (pkgBodyLen h) @ enc_u64 (requestID h)"

definition dec_head :: "bytes \<Rightarrow> PackageHeadField" where
  "dec_head bs = \<lparr>versionID = dec_u8 bs, reqRtnType = dec_u8 (drop 1 bs),
     pkgBodyLen = dec_u16 (drop 2 bs), requestID = dec_u64 (drop 4 bs)\<rparr>"

text \<open>\<open>ERequestType\<close> and the command objects: \<open>nType\<close> is a stored member that
  \<open>Deserialize\<close> overwrites.\<close>

definition TypeReq_None :: u8 where "TypeReq_None = 0"
definition TypeReq_Heartbeat :: u8 where "TypeReq_Heartbeat = 1"
definition TypeReq_TestCmd :: u8 where "TypeReq_TestCmd = 2"

datatype ISerializable =
    HeartbeatCommand (nType: u8)
  | TestCommand (nType: u8) (strData: bytes) (dbData: u64) (intData: i32)

definition new_HeartbeatCommand :: ISerializable where
  "new_HeartbeatCommand = HeartbeatCommand TypeReq_Heartbeat"

text \<open>
  The constructor of the test command: \<open>sprintf\<close> writes the text and its terminator over the
  first 13 of 32 uninitialised characters \<open>g\<close>; \<open>db\<close> is the random \<open>double\<close> and \<open>r\<close> the
  second draw of \<open>rand()\<close>.
\<close>

definition new_TestCommand :: "(nat \<Rightarrow> byte) \<Rightarrow> u64 \<Rightarrow> nat \<Rightarrow> ISerializable" where
  "new_TestCommand g db r =
     TestCommand TypeReq_TestCmd
       (bytes_of_string ''Test Message'' @ 0 # map g [13..<32]) db (word_of_nat (r mod 100))"

definition ISerializable_Serialize :: "u8 \<Rightarrow> CByteArray \<Rightarrow> CByteArray res" where
  "ISerializable_Serialize t b = Append (enc_u8 t) b"

definition ISerializable_Deserialize :: "CByteArray \<Rightarrow> (u8 \<times> CByteArray) res" where
  "ISerializable_Deserialize b = rbind (HeadIntercept 1 b) (\<lambda>(d, b). Inr (dec_u8 d, b))"

fun Serialize :: "ISerializable \<Rightarrow> CByteArray \<Rightarrow> CByteArray res" where
  "Serialize (HeartbeatCommand t) b = ISerializable_Serialize t b"
| "Serialize (TestCommand t s db i) b =
     rbind (ISerializable_Serialize t b) (rfold Append [s, enc_u64 db, enc_i32 i])"

fun Deserialize :: "ISerializable \<Rightarrow> CByteArray \<Rightarrow> (ISerializable \<times> CByteArray) res" where
  "Deserialize (HeartbeatCommand t) b =
     rbind (ISerializable_Deserialize b) (\<lambda>(t', b). Inr (HeartbeatCommand t', b))"
| "Deserialize (TestCommand t s db i) b =
     rbind (ISerializable_Deserialize b) (\<lambda>(t', b).
     rbind (HeadIntercept 32 b) (\<lambda>(s', b).
     rbind (HeadIntercept 8 b) (\<lambda>(d', b).
     rbind (HeadIntercept 4 b) (\<lambda>(i', b).
     Inr (TestCommand t' s' (dec_u64 d') (dec_i32 i'), b)))))"

text \<open>\<open>sizeof\<close> of the static type \<open>ISerializable\<close> (a vtable pointer and one byte, padded to
  16); no derived class overrides \<open>dataSize\<close>.\<close>

definition dataSize :: "ISerializable \<Rightarrow> int" where
  "dataSize obj = 16"

section \<open>Codec, factory and cache\<close>

definition encodeHead :: "PackageHeadField \<Rightarrow> CByteArray \<Rightarrow> CByteArray res" where
  "encodeHead h b = Append (enc_head h) b"

definition decodeHead :: "CByteArray \<Rightarrow> (PackageHeadField \<times> CByteArray) res" where
  "decodeHead b = rbind (HeadIntercept PackageHeadLen b) (\<lambda>(d, b). Inr (dec_head d, b))"

definition encodeSerializeObj :: "ISerializable \<Rightarrow> CByteArray \<Rightarrow> CByteArray res" where
  "encodeSerializeObj obj b = Serialize obj b"

definition decodeSerializeObj :: "ISerializable \<Rightarrow> CByteArray \<Rightarrow> (ISerializable \<times> CByteArray) res" where
  "decodeSerializeObj obj b = Deserialize obj b"

text \<open>The default branch returns a null pointer.\<close>

definition CreateObject :: "ISerializable \<Rightarrow> u8 \<Rightarrow> ISerializable option" where
  "CreateObject tst objType =
     (if objType = TypeReq_Heartbeat then Some new_HeartbeatCommand
      else if objType = TypeReq_TestCmd then Some tst else None)"

record SerializableCache =
  hbCmd :: ISerializable
  tstCmd :: ISerializable

definition GetCachedObj :: "u8 \<Rightarrow> SerializableCache \<Rightarrow> ISerializable option" where
  "GetCachedObj objType c =
     (if objType = TypeReq_Heartbeat then Some (hbCmd c)
      else if objType = TypeReq_TestCmd then Some (tstCmd c) else None)"

text \<open>The cached member the returned pointer aliases, after it was written through.\<close>

definition PutCachedObj :: "u8 \<Rightarrow> ISerializable \<Rightarrow> SerializableCache \<Rightarrow> SerializableCache" where
  "PutCachedObj objType obj c =
     (if objType = TypeReq_Heartbeat then c\<lparr>hbCmd := obj\<rparr>
      else if objType = TypeReq_TestCmd then c\<lparr>tstCmd := obj\<rparr> else c)"

text \<open>
  The body both \<open>postMsg\<close> functions run on the send buffer: reset it, grow it to
  \<open>dataSize() + PackageHeadLen\<close>, leave room for the head, serialise, and prepend the head, whose
  other fields \<open>memset\<close> has zeroed. \<open>requestID\<close> widens from \<open>int\<close> to \<open>uint64_t\<close>, the
  length narrows to \<open>uint16_t\<close>.
\<close>

definition build_package ::
  "(nat \<Rightarrow> byte) \<Rightarrow> ISerializable \<Rightarrow> i32 \<Rightarrow> EPkgReqRtnType \<Rightarrow> CByteArray \<Rightarrow> CByteArray res" where
  "build_package g msg reqid reqRtn b0 =
     (let b1 = Init b0 in
      rbind (if Capacity b1 < dataSize msg + int PackageHeadLen
             then Reallocate g (dataSize msg + int PackageHeadLen) b1 else Inr b1) (\<lambda>b2.
      let b3 = LeftForward (int PackageHeadLen) (RightForward (int PackageHeadLen) b2) in
      rbind (encodeSerializeObj msg b3) (\<lambda>b4.
      let h = \<lparr>versionID = 0, reqRtnType = reqRtn_code reqRtn,
               pkgBodyLen = word_of_int (RightPos b4 - int PackageHeadLen), requestID = scast reqid\<rparr>
      in Prepend (enc_head h) b4)))"

text \<open>The image of an object, and which objects have the layout of their class.\<close>

fun ser_image :: "ISerializable \<Rightarrow> bytes" where
  "ser_image (HeartbeatCommand t) = enc_u8 t"
| "ser_image (TestCommand t s db i) = enc_u8 t @ s @ enc_u64 db @ enc_i32 i"

fun obj_ok :: "ISerializable \<Rightarrow> bool" where
  "obj_ok (HeartbeatCommand t) = (t = TypeReq_Heartbeat)"
| "obj_ok (TestCommand t s db i) = (t = TypeReq_TestCmd \<and> length s = 32)"

fun same_class :: "ISerializable \<Rightarrow> ISerializable \<Rightarrow> bool" where
  "same_class (HeartbeatCommand _) (HeartbeatCommand _) = True"
| "same_class (TestCommand _ _ _ _) (TestCommand _ _ _ _) = True"
| "same_class _ _ = False"

definition package_head :: "ISerializable \<Rightarrow> i32 \<Rightarrow> EPkgReqRtnType \<Rightarrow> PackageHeadField" where
  "package_head msg reqid reqRtn =
     \<lparr>versionID = 0, reqRtnType = reqRtn_code reqRtn,
      pkgBodyLen = word_of_nat (length (ser_image msg)), requestID = scast reqid\<rparr>"

definition package_image :: "ISerializable \<Rightarrow> i32 \<Rightarrow> EPkgReqRtnType \<Rightarrow> bytes" where
  "package_image msg reqid reqRtn = enc_head (package_head msg reqid reqRtn) @ ser_image msg"

section \<open>Lemmas\<close>

interpretation head_codec: fixed_codec enc_head dec_head PackageHeadLen "\<lambda>_. True"
  by unfold_locales (simp_all add: enc_head_def dec_head_def PackageHeadLen_def)

lemma length_enc_head [simp]: "length (enc_head h) = 12"
  by (simp add: enc_head_def)

lemma length_ser_image: "obj_ok x \<Longrightarrow> 1 \<le> length (ser_image x) \<and> length (ser_image x) \<le> 45"
  by (cases x) auto

lemma ser_image_nonempty [simp]: "ser_image x \<noteq> []"
  by (cases x) (auto simp: enc_u8_def)

lemma hd_ser_image [simp]: "hd (ser_image x) = nType x"
  by (cases x) (simp_all add: enc_u8_def)

lemma Append_frame:
  "Append d b = Inr b' \<Longrightarrow> nLeft b' = nLeft b \<and> nCapacity b' = nCapacity b \<and>
     length (pCharArr b') = length (pCharArr b)"
  by (auto simp: Append_def rbind_Inr dest: mem_write_length)

lemma Serialize_rfold:
  "\<exists>ds. concat ds = ser_image x \<and> (\<forall>b. Serialize x b = rfold Append ds b)"
proof (cases x)
  case (HeartbeatCommand t)
  then show ?thesis
    by (intro exI [of _ "[enc_u8 t]"])
      (auto simp: ISerializable_Serialize_def rbind_def split: sum.splits)
next
  case (TestCommand t s db i)
  then show ?thesis
    by (intro exI [of _ "[enc_u8 t, s, enc_u64 db, enc_i32 i]"])
      (simp add: ISerializable_Serialize_def)
qed

lemma Serialize_spec:
  assumes "ba_wf b" and "int (length (ser_image x)) \<le> tail_room b"
  obtains b' where "Serialize x b = Inr b'" "ba_wf b'" "content b' = content b @ ser_image x"
    "nLeft b' = nLeft b" "nRight b' = nRight b + int (length (ser_image x))"
    "length (pCharArr b') = length (pCharArr b)" "nCapacity b' = nCapacity b"
proof -
  obtain ds where ds: "concat ds = ser_image x" "\<And>b. Serialize x b = rfold Append ds b"
    using Serialize_rfold [of x] by blast
  with win.push_all [OF assms(1), of ds] assms(2) obtain b' where
    b': "rfold Append ds b = Inr b'" "ba_wf b'" "content b' = content b @ ser_image x"
      "tail_room b' = tail_room b - int (length (ser_image x))" by auto
  have fr: "nLeft b' = nLeft b \<and> nCapacity b' = nCapacity b \<and>
      length (pCharArr b') = length (pCharArr b)"
    using b'(1) by (rule rfold_invariant) (auto dest: Append_frame)
  then have "nRight b' = nRight b + int (length (ser_image x))"
    using b'(4) by (simp add: tail_room_def)
  with b' fr ds(2) show ?thesis by (intro that [of b']) simp_all
qed

lemma Deserialize_spec:
  assumes "ba_wf b" and "content b = ser_image x @ rest" and "obj_ok x" and "same_class x x'"
  obtains b' where "Deserialize x' b = Inr (x, b')" "ba_wf b'" "content b' = rest"
proof (cases x)
  case (HeartbeatCommand t)
  with assms(2) have "content b = enc_u8 t @ rest" by simp
  with win.pop_front_of [OF assms(1) this] obtain b' where
    "HeadIntercept 1 b = Inr (enc_u8 t, b')" "ba_wf b'" "content b' = rest" by auto
  moreover from this HeartbeatCommand assms(4) have "Deserialize x' b = Inr (x, b')"
    by (cases x') (simp_all add: ISerializable_Deserialize_def)
  ultimately show ?thesis by (intro that)
next
  case (TestCommand t s db i)
  with assms(2) have "content b = enc_u8 t @ s @ enc_u64 db @ enc_i32 i @ rest" by simp
  from win.pop_front_of [OF assms(1) this] obtain b1 where b1: "HeadIntercept 1 b = Inr (enc_u8 t, b1)"
    "ba_wf b1" "content b1 = s @ enc_u64 db @ enc_i32 i @ rest" by auto
  from win.pop_front_of [OF b1(2,3)] TestCommand assms(3) obtain b2 where
    b2: "HeadIntercept 32 b1 = Inr (s, b2)" "ba_wf b2" "content b2 = enc_u64 db @ enc_i32 i @ rest" by auto
  from win.pop_front_of [OF b2(2,3)] obtain b3 where
    b3: "HeadIntercept 8 b2 = Inr (enc_u64 db, b3)" "ba_wf b3" "content b3 = enc_i32 i @ rest" by auto
  from win.pop_front_of [OF b3(2,3)] obtain b4 where
    b4: "HeadIntercept 4 b3 = Inr (enc_i32 i, b4)" "ba_wf b4" "content b4 = rest" by auto
  have "Deserialize x' b = Inr (x, b4)"
    using TestCommand assms(4) b1(1) b2(1) b3(1) b4(1)
    by (cases x') (simp_all add: ISerializable_Deserialize_def)
  with b4 show ?thesis by (intro that)
qed

lemma decodeHead_spec:
  assumes "ba_wf b" and "content b = enc_head h @ rest"
  obtains b' where "decodeHead b = Inr (h, b')" "ba_wf b'" "content b' = rest"
    "nLeft b' = nLeft b + 12" "nRight b' = nRight b" "pCharArr b' = pCharArr b" "nCapacity b' = nCapacity b"
proof -
  have "12 \<le> length (content b)" using assms(2) by simp
  with assms(1) obtain b' where
    b': "HeadIntercept 12 b = Inr (take 12 (content b), b')" "ba_wf b'" "content b' = drop 12 (content b)"
    "nLeft b' = nLeft b + int 12" "nRight b' = nRight b" "pCharArr b' = pCharArr b" "nCapacity b' = nCapacity b"
    by (rule HeadIntercept_spec)
  then show ?thesis
    by (intro that [of b']) (simp_all add: decodeHead_def PackageHeadLen_def assms(2) head_codec.dec_enc)
qed

lemma build_package_spec:
  assumes "ba_wf b" and "obj_ok msg"
  obtains b' where "build_package g msg reqid q b = Inr b'" "ba_wf b'"
    "content b' = package_image msg reqid q" "nLeft b' = 0"
proof -
  let ?b3 = "LeftForward 12 (RightForward 12 (Init b))"
  have ne: "\<not> Capacity (Init b) < dataSize msg + int PackageHeadLen"
    using assms(1) by (simp add: ba_pos_defs dataSize_def PackageHeadLen_def ba_wf_def)
  have wf3: "ba_wf ?b3" using assms(1) by (auto simp: ba_wf_def ba_pos_defs)
  have c3: "content ?b3 = []" by (simp add: content_def ba_pos_defs)
  have "int (length (ser_image msg)) \<le> tail_room ?b3"
    using length_ser_image [OF assms(2)] assms(1) by (simp add: tail_room_def ba_pos_defs ba_wf_def)
  with wf3 obtain b4 where b4: "Serialize msg ?b3 = Inr b4" "ba_wf b4"
    "content b4 = content ?b3 @ ser_image msg" "nLeft b4 = nLeft ?b3"
    "nRight b4 = nRight ?b3 + int (length (ser_image msg))"
    by (rule Serialize_spec)
  let ?h = "package_head msg reqid q"
  have l4: "int (length (enc_head ?h)) \<le> nLeft b4" using b4(4) by (simp add: ba_pos_defs)
  obtain b5 where b5: "Prepend (enc_head ?h) b4 = Inr b5" "ba_wf b5"
    "content b5 = enc_head ?h @ content b4" "nLeft b5 = nLeft b4 - int (length (enc_head ?h))"
    using Prepend_spec [OF b4(2) l4] by metis
  have "build_package g msg reqid q b = Inr b5"
    using ne b4(1,5) b5(1)
    by (simp add: build_package_def encodeSerializeObj_def PackageHeadLen_def package_head_def ba_pos_defs)
  then show ?thesis
    by (rule that) (use b5 b4 c3 in \<open>simp_all add: package_image_def ba_pos_defs\<close>)
qed

section \<open>Properties\<close>

text \<open>C15: round trip of the commands: a well-formed command written by \<open>encodeSerializeObj\<close> into an
  empty window with room for it is read back by \<open>decodeSerializeObj\<close> into the fresh object the
  factory makes for its first byte, whatever that object held, and the window is empty again.\<close>

theorem command_roundtrip:
  assumes "ba_wf b" and "content b = []" and "45 \<le> tail_room b" and "obj_ok x"
    and "CreateObject (new_TestCommand g db r) (nType x) = Some y"
  shows "\<exists>b1 b2. encodeSerializeObj x b = Inr b1 \<and> hd (content b1) = nType x \<and>
    decodeSerializeObj y b1 = Inr (x, b2) \<and> content b2 = []"
proof -
  have "int (length (ser_image x)) \<le> tail_room b" using assms(3,4) length_ser_image [of x] by simp
  with assms(1) obtain b1 where b1: "Serialize x b = Inr b1" "ba_wf b1" "content b1 = content b @ ser_image x"
    by (rule Serialize_spec)
  then have c: "content b1 = ser_image x @ []" using assms(2) by simp
  have "same_class x y"
    using assms(4,5) by (cases x)
      (auto simp: CreateObject_def new_HeartbeatCommand_def new_TestCommand_def TypeReq_Heartbeat_def
        TypeReq_TestCmd_def split: if_splits)
  with b1(2) c assms(4) obtain b2 where "Deserialize y b1 = Inr (x, b2)" "content b2 = []"
    by (rule Deserialize_spec)
  with b1(1) c show ?thesis by (auto simp: encodeSerializeObj_def decodeSerializeObj_def)
qed

theorem command_roundtrip_witness:
  "\<exists>b1 b2. encodeSerializeObj (TestCommand 2 (replicate 32 65) 7 9) (new_CByteArray (\<lambda>_. 0) 0) = Inr b1 \<and>
    hd (content b1) = 2 \<and>
    decodeSerializeObj (new_TestCommand (\<lambda>_. 0) 1 5) b1 = Inr (TestCommand 2 (replicate 32 65) 7 9, b2) \<and>
    content b2 = []"
  using command_roundtrip [of "new_CByteArray (\<lambda>_. 0) 0" "TestCommand 2 (replicate 32 65) 7 9"
      "\<lambda>_. 0" 1 5 "new_TestCommand (\<lambda>_. 0) 1 5"]
  by (simp add: new_CByteArray_wf content_new CreateObject_def TypeReq_Heartbeat_def TypeReq_TestCmd_def)
    (simp add: tail_room_def new_CByteArray_def)

end
