(* ===== verification/SolClient.thy ===== *)
theory SolClient
  imports RingBuffer Package
begin

text \<open>
  \<^verbatim>\<open>solcomapi/src/SolcomApi.{h,cpp}\<close>: the client side of solcomapi. The record holds the members
  that the code reads; every callback is a function from the state to the state and the list of
  libuv and SPI calls it makes. libuv itself is not modelled: a callback takes the arguments libuv
  passes (a status, a byte count), the clock is the argument \<open>now\<close> (seconds since the loop
  started), and bytes that libuv stored at the address \<open>alloc_cb\<close> returned are an argument of
  \<open>deliver\<close>. Members that no code path reads (\<open>serialID\<close>, \<open>nMsIdleInterval\<close>, the ack
  request) are left out.
\<close>

record SolcomApi =
  solcomSpi :: bool
  sendCache :: "CByteArray CachedBuffer"
  ackBuffer :: "CByteArray \<times> bool"
  bConnected :: bool
  bStop :: bool
  bAutoReconn :: bool
  serializeObjCache :: SerializableCache
  recvBuffer :: CByteArray
  recvStat :: ERecvStatType
  nNeedRead :: int
  lastRead :: int
  lastWrite :: int
  bReqWritereqBusy :: bool
  servAddr :: bytes
  servPort :: int
  nMsReconInterval :: int

text \<open>
  Calls into libuv and the SPI. \<open>Queued\<close> records that a package became visible in the ring
  buffer; \<open>SpiPrint\<close> is what the default \<open>OnRecvMsg\<close> prints.
\<close>

datatype uv_call =
    UvInitTimer int | UvRun | UvWrite bytes | UvClose | UvIdleStart | UvIdleStop | UvReadStart | UvTcpInit | UvConnect bytes int
  | UvReconnTimer int | SpiConnect | SpiDisconnect | SpiRecvMsg ISerializable | SpiPrint ISerializable
  | Queued bytes

type_synonym outcome = "(SolcomApi \<times> uv_call list) res"

definition ERR_SUCCESS :: int where "ERR_SUCCESS = 0"
definition ERR_NETWORK :: int where "ERR_NETWORK = -1"
definition ERR_NO_BUFFER :: int where "ERR_NO_BUFFER = -2"
definition MAX_WRITE_IDLE_INTERVAL :: int where "MAX_WRITE_IDLE_INTERVAL = 3"
definition MAX_IDLE_INTERVAL :: int where "MAX_IDLE_INTERVAL = 100"

definition new_SolcomApi :: "(nat \<Rightarrow> byte) \<Rightarrow> ISerializable \<Rightarrow> SolcomApi res" where
  "new_SolcomApi g tst =
     rbind (new_CachedBuffer (\<lambda>_. new_CByteArray g 1424) 128) (\<lambda>ring.
     Inr \<lparr>solcomSpi = False, sendCache = ring, ackBuffer = (new_CByteArray g 128, False),
          bConnected = False, bStop = False, bAutoReconn = True,
          serializeObjCache = \<lparr>hbCmd = new_HeartbeatCommand, tstCmd = tst\<rparr>,
          recvBuffer = new_CByteArray g 1424, recvStat = Type_RecvHead,
          nNeedRead = int PackageHeadLen, lastRead = 0, lastWrite = 0, bReqWritereqBusy = False,
          servAddr = replicate 32 0, servPort = 0, nMsReconInterval = 5000\<rparr>)"

definition RegistSpi :: "bool \<Rightarrow> SolcomApi \<Rightarrow> SolcomApi" where
  "RegistSpi spi s = s\<lparr>solcomSpi := spi\<rparr>"

definition RegistServer :: "bytes \<Rightarrow> int \<Rightarrow> SolcomApi \<Rightarrow> SolcomApi res" where
  "RegistServer pAddr nPort s =
     rbind (strcpy (servAddr s) pAddr) (\<lambda>a. Inr (s\<lparr>servAddr := a, servPort := nPort\<rparr>))"

text \<open>\<open>Start\<close> clears the flag and starts the thread; one round of the thread's loop sets the
  clocks and enters \<open>uv_run\<close>.\<close>

definition Start :: "SolcomApi \<Rightarrow> SolcomApi" where "Start s = s\<lparr>bStop := False\<rparr>"

definition loopFunction_round :: "SolcomApi \<Rightarrow> SolcomApi \<times> uv_call list" where
  "loopFunction_round s =
     (if \<not> bStop s then (s\<lparr>lastRead := 0, lastWrite := 0\<rparr>, [UvIdleStart, UvInitTimer 100, UvRun])
      else (s, []))"

definition Stop :: "SolcomApi \<Rightarrow> SolcomApi" where "Stop s = s\<lparr>bStop := True\<rparr>"

definition SetAutoReconnect :: "bool \<Rightarrow> SolcomApi \<Rightarrow> SolcomApi" where
  "SetAutoReconnect recon s = s\<lparr>bAutoReconn := recon\<rparr>"

definition OnRecvMsg :: "ISerializable \<Rightarrow> uv_call list" where
  "OnRecvMsg m =
     (if nType m = TypeReq_Heartbeat \<or> nType m = TypeReq_TestCmd then [SpiPrint m] else [])"

section \<open>Sending\<close>

definition postMsg ::
  "(nat \<Rightarrow> byte) \<Rightarrow> ISerializable \<Rightarrow> i32 \<Rightarrow> EPkgReqRtnType \<Rightarrow> SolcomApi \<Rightarrow> (int \<times> SolcomApi \<times> uv_call list) res" where
  "postMsg g msg reqid reqRtn s =
     (if \<not> bConnected s then Inr (ERR_NETWORK, s, [])
      else (case allocate (sendCache s) of
              None \<Rightarrow> Inr (ERR_NO_BUFFER, s, [])
            | Some i \<Rightarrow>
                rbind (build_package g msg reqid reqRtn (elements (sendCache s) ! i)) (\<lambda>b.
                Inr (ERR_SUCCESS,
                     s\<lparr>sendCache := snd (tailForward (store i b (sendCache s)))\<rparr>, [Queued (content b)]))))"

definition PostRequest :: "(nat \<Rightarrow> byte) \<Rightarrow> ISerializable \<Rightarrow> i32 \<Rightarrow> SolcomApi \<Rightarrow> (int \<times> SolcomApi \<times> uv_call list) res" where
  "PostRequest g msg reqid s = postMsg g msg reqid Type_Req s"

definition PushMessage :: "(nat \<Rightarrow> byte) \<Rightarrow> ISerializable \<Rightarrow> SolcomApi \<Rightarrow> (int \<times> SolcomApi \<times> uv_call list) res" where
  "PushMessage g msg s = postMsg g msg 0 Type_Rtn s"

definition sendHeartbeat :: "(nat \<Rightarrow> byte) \<Rightarrow> SolcomApi \<Rightarrow> outcome" where
  "sendHeartbeat g s = rbind (postMsg g new_HeartbeatCommand 0 Type_Req s) (\<lambda>(rc, s, e). Inr (s, e))"

definition sendAck :: "PackageHeadField \<Rightarrow> SolcomApi \<Rightarrow> SolcomApi res" where
  "sendAck h s =
     rbind (encodeHead h (Init (fst (ackBuffer s)))) (\<lambda>b. Inr (s\<lparr>ackBuffer := (b, True)\<rparr>))"

section \<open>The connection\<close>

definition closeConnection :: "SolcomApi \<Rightarrow> SolcomApi \<times> uv_call list" where
  "closeConnection s =
     (s\<lparr>bConnected := False\<rparr>,
      (if bConnected s then [UvClose] else []) @ (if solcomSpi s then [SpiDisconnect] else []))"

definition connectServer :: "SolcomApi \<Rightarrow> uv_call list" where
  "connectServer s = (if take 1 (servAddr s) = [0] then [] else [UvConnect (cstr (servAddr s)) (servPort s)])"

text \<open>The reconnect timer is armed in four places with the same guard.\<close>

definition arm_reconnect :: "SolcomApi \<Rightarrow> uv_call list" where
  "arm_reconnect s = (if bAutoReconn s \<and> \<not> bStop s then [UvReconnTimer (nMsReconInterval s)] else [])"

definition connect_cb :: "int \<Rightarrow> SolcomApi \<Rightarrow> SolcomApi \<times> uv_call list" where
  "connect_cb status s =
     (if status < 0
      then (s, (if solcomSpi s then [SpiDisconnect] else []) @ arm_reconnect s)
      else (s\<lparr>bConnected := True, recvBuffer := Init (recvBuffer s), nNeedRead := int PackageHeadLen\<rparr>,
            [UvReadStart, UvIdleStart] @ (if solcomSpi s then [SpiConnect] else [])))"

definition reconn_timer_cb :: "SolcomApi \<Rightarrow> SolcomApi \<times> uv_call list" where
  "reconn_timer_cb s = (if \<not> bConnected s then (s, UvTcpInit # connectServer s) else (s, []))"

definition init_timer_cb :: "SolcomApi \<Rightarrow> SolcomApi \<times> uv_call list" where
  "init_timer_cb s = (s, connectServer s)"

section \<open>Receiving\<close>

definition alloc_cb :: "SolcomApi \<Rightarrow> int \<times> int" where
  "alloc_cb s = (RightPos (recvBuffer s), nNeedRead s)"

text \<open>\<open>reqHandle\<close> looks the object up by the first byte and dereferences what it gets.\<close>

definition reqHandle :: "SolcomApi \<Rightarrow> outcome" where
  "reqHandle s =
     (if solcomSpi s
      then rbind (mem_read (LeftPos (recvBuffer s)) 1 (pCharArr (recvBuffer s))) (\<lambda>p.
           let objType = dec_u8 p in
           case GetCachedObj objType (serializeObjCache s) of
             None \<Rightarrow> Inl NullDeref
           | Some obj \<Rightarrow>
               rbind (decodeSerializeObj obj (recvBuffer s)) (\<lambda>(obj', b).
               Inr (s\<lparr>recvBuffer := b, serializeObjCache := PutCachedObj objType obj' (serializeObjCache s)\<rparr>,
                    SpiRecvMsg obj' # OnRecvMsg obj')))
      else Inr (s, []))"

definition read_cb :: "(nat \<Rightarrow> byte) \<Rightarrow> int \<Rightarrow> int \<Rightarrow> SolcomApi \<Rightarrow> outcome" where
  "read_cb g nread now s =
     (if nread > 0 then
        (let s1 = s\<lparr>recvBuffer := RightForward nread (recvBuffer s)\<rparr> in
         rbind
          (if nread = nNeedRead s1 then
             rbind (decodeHead (recvBuffer s1)) (\<lambda>(pkghead, b).
             let s2 = s1\<lparr>recvBuffer := b\<rparr> in
             if recvStat s2 = Type_RecvHead then
               (let need = uint (pkgBodyLen pkghead); b2 = LeftBackward (int PackageHeadLen) b in
                rbind (if Capacity b2 < need + int PackageHeadLen
                       then Reallocate g (need + int PackageHeadLen) b2 else Inr b2) (\<lambda>b3.
                Inr (s2\<lparr>nNeedRead := need, recvStat := Type_RecvBody, recvBuffer := b3\<rparr>, [])))
             else
               rbind (reqHandle s2) (\<lambda>(s3, e).
               Inr (s3\<lparr>recvBuffer := Init (recvBuffer s3), recvStat := Type_RecvHead,
                       nNeedRead := int PackageHeadLen\<rparr>, e)))
           else Inr (s1\<lparr>nNeedRead := nNeedRead s1 - nread\<rparr>, []))
          (\<lambda>(s4, e). Inr (s4\<lparr>lastRead := now\<rparr>, e)))
      else if nread = 0 then Inr (s\<lparr>lastRead := now\<rparr>, [])
      else (let (s1, e) = closeConnection s in Inr (s1, e @ arm_reconnect s1)))"

text \<open>
  One successful read of libuv: \<open>alloc_cb\<close> gives the address and the length, libuv stores the
  bytes there (at most that many), and \<open>read_cb\<close> gets their number.
\<close>

definition deliver :: "(nat \<Rightarrow> byte) \<Rightarrow> bytes \<Rightarrow> int \<Rightarrow> SolcomApi \<Rightarrow> outcome" where
  "deliver g d now s =
     rbind (mem_write (fst (alloc_cb s)) d (pCharArr (recvBuffer s))) (\<lambda>m.
     read_cb g (int (length d)) now (s\<lparr>recvBuffer := (recvBuffer s)\<lparr>pCharArr := m\<rparr>\<rparr>))"

text \<open>
  The stream of a connection: each read takes some of the bytes that have arrived, at least one and
  at most what \<open>alloc_cb\<close> asked for. The list of sizes is any segmentation.
\<close>

fun uv_stream :: "(nat \<Rightarrow> byte) \<Rightarrow> nat list \<Rightarrow> bytes \<Rightarrow> int \<Rightarrow> SolcomApi \<Rightarrow> (bytes \<times> SolcomApi \<times> uv_call list) res" where
  "uv_stream g [] bs now s = Inr (bs, s, [])"
| "uv_stream g (k # ks) bs now s =
     (let d = take (min (Suc k) (nat (snd (alloc_cb s)))) bs in
      rbind (deliver g d now s) (\<lambda>(s1, e1).
      rbind (uv_stream g ks (drop (length d) bs) now s1) (\<lambda>(bs2, s2, e2).
      Inr (bs2, s2, e1 @ e2))))"

section \<open>Writing and the idle callback\<close>

definition req_write_cb :: "int \<Rightarrow> int \<Rightarrow> SolcomApi \<Rightarrow> SolcomApi \<times> uv_call list" where
  "req_write_cb status now s =
     (if status < 0
      then (let (s1, e) = closeConnection s in (s1, e @ arm_reconnect s1))
      else (s\<lparr>sendCache := snd (headForward (sendCache s)), bReqWritereqBusy := False, lastWrite := now\<rparr>, []))"

text \<open>The three parts of \<open>idle_cb\<close>: the write, the keep-alive and reconnect checks, the stop.\<close>

definition idle_write :: "SolcomApi \<Rightarrow> SolcomApi \<times> uv_call list" where
  "idle_write s =
     (if \<not> isEmpty (sendCache s) \<and> \<not> bReqWritereqBusy s
      then (case current (sendCache s) of
              None \<Rightarrow> (s, [])
            | Some i \<Rightarrow>
                (let b = elements (sendCache s) ! i
                 in (s\<lparr>bReqWritereqBusy := True\<rparr>, [UvWrite (take (nat (RightPos b)) (pCharArr b))])))
      else (s, []))"

definition idle_keepalive :: "(nat \<Rightarrow> byte) \<Rightarrow> int \<Rightarrow> SolcomApi \<Rightarrow> outcome" where
  "idle_keepalive g tnow s =
     (if \<not> bStop s then
        rbind (if tnow - lastWrite s > MAX_WRITE_IDLE_INTERVAL
               then rbind (sendHeartbeat g s) (\<lambda>(s1, e1). Inr (s1\<lparr>lastWrite := tnow\<rparr>, e1))
               else Inr (s, [])) (\<lambda>(s1, e1).
        if tnow - lastWrite s1 > MAX_IDLE_INTERVAL
        then (let (s2, e2) = closeConnection s1
              in Inr (s2, e1 @ e2 @ (if bAutoReconn s2 \<and> \<not> bStop s2 then connectServer s2 else [])))
        else Inr (s1, e1))
      else Inr (s, []))"

definition idle_cb :: "(nat \<Rightarrow> byte) \<Rightarrow> int \<Rightarrow> SolcomApi \<Rightarrow> outcome" where
  "idle_cb g tnow s =
     (let bIdleStop = \<not> (bConnected s \<and> \<not> isEmpty (sendCache s)) in
      rbind (if bConnected s
             then (let (s1, e1) = idle_write s in
                   rbind (idle_keepalive g tnow s1) (\<lambda>(s2, e2). Inr (s2, e1 @ e2)))
             else Inr (s, [])) (\<lambda>(s3, e3).
      if bStop s3 \<and> bIdleStop
      then (let (s4, e4) = closeConnection s3 in Inr (s4, e3 @ UvIdleStop # e4))
      else Inr (s3, e3)))"

text \<open>The events of the loop thread and of the user threads.\<close>

datatype api_event =
    EvPost ISerializable i32 EPkgReqRtnType | EvIdle | EvWritten int | EvRead bytes | EvReadError int
  | EvConnect int | EvReconnTimer | EvInitTimer | EvStop | EvRegistSpi bool | EvRegistServer bytes int
  | EvAutoReconnect bool

fun api_handle :: "(nat \<Rightarrow> byte) \<Rightarrow> int \<Rightarrow> api_event \<Rightarrow> SolcomApi \<Rightarrow> outcome" where
  "api_handle g now (EvPost m r q) s = rbind (postMsg g m r q s) (\<lambda>(rc, s1, e). Inr (s1, e))"
| "api_handle g now EvIdle s = idle_cb g now s"
| "api_handle g now (EvWritten st) s = Inr (req_write_cb st now s)"
| "api_handle g now (EvRead d) s = deliver g d now s"
| "api_handle g now (EvReadError n) s = read_cb g n now s"
| "api_handle g now (EvConnect st) s = Inr (connect_cb st s)"
| "api_handle g now EvReconnTimer s = Inr (reconn_timer_cb s)"
| "api_handle g now EvInitTimer s = Inr (init_timer_cb s)"
| "api_handle g now EvStop s = Inr (Stop s, [])"
| "api_handle g now (EvRegistSpi spi) s = Inr (RegistSpi spi s, [])"
| "api_handle g now (EvRegistServer a p) s = rbind (RegistServer a p s) (\<lambda>s1. Inr (s1, []))"
| "api_handle g now (EvAutoReconnect r) s = Inr (SetAutoReconnect r s, [])"

fun api_run :: "(nat \<Rightarrow> byte) \<Rightarrow> (int \<times> api_event) list \<Rightarrow> SolcomApi \<Rightarrow> outcome" where
  "api_run g [] s = Inr (s, [])"
| "api_run g ((now, ev) # evs) s =
     rbind (api_handle g now ev s) (\<lambda>(s1, e1).
     rbind (api_run g evs s1) (\<lambda>(s2, e2). Inr (s2, e1 @ e2)))"

text \<open>
  What libuv and the callers respect: at most the requested bytes are stored, a read error is
  negative, a write completion belongs to a write that is under way (and fewer than \<open>2\<^sup>6\<^sup>4\<close>
  packages have been sent), commands have the layout of their class, an address fits its array.
\<close>

fun ev_ok :: "SolcomApi \<Rightarrow> api_event \<Rightarrow> bool" where
  "ev_ok s (EvPost m _ _) = obj_ok m"
| "ev_ok s (EvRead d) = (int (length d) \<le> nNeedRead s)"
| "ev_ok s (EvReadError n) = (n < 0)"
| "ev_ok s (EvWritten st) = (bReqWritereqBusy s \<and> nHead (sendCache s) \<noteq> - 1)"
| "ev_ok s (EvRegistServer a p) = (length (cstr a) < 32)"
| "ev_ok s _ = True"

inductive api_step :: "(nat \<Rightarrow> byte) \<Rightarrow> SolcomApi \<Rightarrow> SolcomApi \<Rightarrow> bool" for g where
  api_step: "ev_ok s ev \<Longrightarrow> api_handle g now ev s = Inr (t, e) \<Longrightarrow> api_step g s t"

inductive_cases api_stepE: "api_step g s t"

fun run_ok :: "(nat \<Rightarrow> byte) \<Rightarrow> (int \<times> api_event) list \<Rightarrow> SolcomApi \<Rightarrow> bool" where
  "run_ok g [] s = True"
| "run_ok g ((now, ev) # evs) s =
     (ev_ok s ev \<and> (case api_handle g now ev s of Inl _ \<Rightarrow> True | Inr (s1, _) \<Rightarrow> run_ok g evs s1))"

section \<open>Memory safety of the receive path\<close>

definition recv_inv :: "SolcomApi \<Rightarrow> bool" where
  "recv_inv s \<longleftrightarrow>
     (let b = recvBuffer s in
      ba_wf b \<and> nLeft b = 0 \<and> 0 \<le> nNeedRead s \<and>
      nRight b + nNeedRead s \<le> int (length (pCharArr b)) \<and> 12 \<le> nRight b + nNeedRead s \<and>
      (recvStat s = Type_RecvHead \<longrightarrow> nRight b + nNeedRead s = 12))"

lemma HeadIntercept_mem:
  assumes "0 \<le> nLeft b" and "nLeft b + int n \<le> int (length (pCharArr b))"
  shows "\<exists>d. HeadIntercept n b = Inr (d, b\<lparr>nLeft := nLeft b + int n\<rparr>)"
  using assms by (simp add: HeadIntercept_def mem_read_def)

lemma Deserialize_mem:
  assumes "0 \<le> nLeft b" and "nLeft b + 45 \<le> int (length (pCharArr b))"
  shows "\<exists>x' k. Deserialize x b = Inr (x', b\<lparr>nLeft := k\<rparr>)"
  using assms
  by (cases x) (auto simp: ISerializable_Deserialize_def HeadIntercept_def mem_read_def)

lemma reqHandle_safe:
  assumes "0 \<le> nLeft (recvBuffer s)" and "nLeft (recvBuffer s) + 45 \<le> int (length (pCharArr (recvBuffer s)))"
  shows "(\<exists>k c e. reqHandle s = Inr (s\<lparr>recvBuffer := (recvBuffer s)\<lparr>nLeft := k\<rparr>, serializeObjCache := c\<rparr>, e))
    \<or> reqHandle s = Inl NullDeref"
proof (cases "solcomSpi s")
  case True
  obtain p where p: "mem_read (nLeft (recvBuffer s)) 1 (pCharArr (recvBuffer s)) = Inr p"
    using assms by (simp add: mem_read_def)
  show ?thesis
  proof (cases "GetCachedObj (dec_u8 p) (serializeObjCache s)")
    case None
    then show ?thesis using True p by (simp add: reqHandle_def LeftPos_def)
  next
    case (Some obj)
    then show ?thesis
      using True p Deserialize_mem [OF assms, of obj]
      by (fastforce simp: reqHandle_def LeftPos_def decodeSerializeObj_def)
  qed
next
  case False
  then show ?thesis
    by (intro disjI1 exI [of _ "nLeft (recvBuffer s)"] exI [of _ "serializeObjCache s"] exI [of _ "[]"])
      (simp add: reqHandle_def)
qed

text \<open>The receive buffer after libuv stored \<open>d\<close>, and what a delivery does in each branch.\<close>

definition landed :: "bytes \<Rightarrow> CByteArray \<Rightarrow> CByteArray" where
  "landed d b = b\<lparr>pCharArr := take (nat (nRight b)) (pCharArr b) @ d @ drop (nat (nRight b) + length d) (pCharArr b),
     nRight := nRight b + int (length d)\<rparr>"

lemma deliver_empty: "recv_inv s \<Longrightarrow> deliver g [] now s = Inr (s\<lparr>lastRead := now\<rparr>, [])"
  by (simp add: deliver_def alloc_cb_def RightPos_def mem_write_def read_cb_def recv_inv_def Let_def ba_wf_def)

lemma deliver_unfold:
  assumes "recv_inv s" and "d \<noteq> []" and "int (length d) \<le> nNeedRead s"
  shows "deliver g d now s = read_cb g (int (length d)) now
    (s\<lparr>recvBuffer := (recvBuffer s)\<lparr>pCharArr := pCharArr (landed d (recvBuffer s))\<rparr>\<rparr>)"
  using assms by (simp add: deliver_def alloc_cb_def RightPos_def mem_write_def recv_inv_def Let_def
      ba_wf_def landed_def)

lemma RightForward_landed:
  "RightForward (int (length d)) (b\<lparr>pCharArr := pCharArr (landed d b)\<rparr>) = landed d b"
  by (simp add: RightForward_def landed_def)

lemma deliver_partial:
  assumes "recv_inv s" and "d \<noteq> []" and "int (length d) < nNeedRead s"
  shows "deliver g d now s =
    Inr (s\<lparr>recvBuffer := landed d (recvBuffer s), nNeedRead := nNeedRead s - int (length d), lastRead := now\<rparr>, [])"
  using assms by (simp add: deliver_unfold read_cb_def RightForward_landed)

lemma deliver_head:
  assumes "recv_inv s" and "d \<noteq> []" and "int (length d) = nNeedRead s" and "recvStat s = Type_RecvHead"
    and "decodeHead (landed d (recvBuffer s)) = Inr (h, b)"
  shows "deliver g d now s =
    rbind (if nCapacity b < uint (pkgBodyLen h) + 12
           then Reallocate g (uint (pkgBodyLen h) + 12) (b\<lparr>nLeft := nLeft b - 12\<rparr>)
           else Inr (b\<lparr>nLeft := nLeft b - 12\<rparr>)) (\<lambda>b3.
    Inr (s\<lparr>recvBuffer := b3, nNeedRead := uint (pkgBodyLen h), recvStat := Type_RecvBody, lastRead := now\<rparr>, []))"
  using assms(1,2,4,5)
  by (simp add: deliver_unfold read_cb_def RightForward_landed LeftBackward_def Capacity_def
      PackageHeadLen_def Let_def assms(3) [symmetric] rbind_def split: sum.splits)

lemma deliver_body:
  assumes "recv_inv s" and "d \<noteq> []" and "int (length d) = nNeedRead s" and "recvStat s = Type_RecvBody"
    and "decodeHead (landed d (recvBuffer s)) = Inr (h, b)"
  shows "deliver g d now s =
    rbind (reqHandle (s\<lparr>recvBuffer := b\<rparr>)) (\<lambda>(s3, e).
    Inr (s3\<lparr>recvBuffer := Init (recvBuffer s3), recvStat := Type_RecvHead, nNeedRead := 12, lastRead := now\<rparr>, e))"
  using assms(1,2,4,5)
  by (simp add: deliver_unfold read_cb_def RightForward_landed PackageHeadLen_def Let_def
      assms(3) [symmetric] rbind_def split: sum.splits prod.splits)

lemma landed_wf:
  assumes "recv_inv s" and "int (length d) \<le> nNeedRead s"
  shows "ba_wf (landed d (recvBuffer s))"
    and "content (landed d (recvBuffer s)) = content (recvBuffer s) @ d"
    and "length (pCharArr (landed d (recvBuffer s))) = length (pCharArr (recvBuffer s))"
proof -
  have wf: "ba_wf (recvBuffer s)" and room: "int (length d) \<le> tail_room (recvBuffer s)"
    using assms by (auto simp: recv_inv_def Let_def tail_room_def)
  then have "Append d (recvBuffer s) = Inr (landed d (recvBuffer s))"
    by (simp add: Append_def mem_write_def ba_wf_def tail_room_def landed_def)
  with Append_spec [OF wf room] show "ba_wf (landed d (recvBuffer s))"
    "content (landed d (recvBuffer s)) = content (recvBuffer s) @ d"
    "length (pCharArr (landed d (recvBuffer s))) = length (pCharArr (recvBuffer s))"
    by (metis sum.inject(2))+
qed

lemma landed_head:
  assumes "recv_inv s" and "int (length d) = nNeedRead s"
  obtains h b where "decodeHead (landed d (recvBuffer s)) = Inr (h, b)" "ba_wf b" "nLeft b = 12"
    "nRight b = nRight (recvBuffer s) + nNeedRead s" "nCapacity b = nCapacity (recvBuffer s)"
    "length (pCharArr b) = length (pCharArr (recvBuffer s))"
proof -
  note w = landed_wf [OF assms(1), of d] assms(2)
  have n: "12 \<le> length (content (landed d (recvBuffer s)))"
    using assms length_content [OF w(1)] by (simp add: recv_inv_def Let_def landed_def)
  from HeadIntercept_spec [OF w(1) n] obtain b where
    "HeadIntercept 12 (landed d (recvBuffer s)) = Inr (take 12 (content (landed d (recvBuffer s))), b)"
    "ba_wf b" "nLeft b = nLeft (landed d (recvBuffer s)) + int 12"
    "nRight b = nRight (landed d (recvBuffer s))" "pCharArr b = pCharArr (landed d (recvBuffer s))"
    "nCapacity b = nCapacity (landed d (recvBuffer s))" using assms(2) by auto
  then show ?thesis
    using assms w(3) by (intro that [of _ b])
      (auto simp: decodeHead_def PackageHeadLen_def landed_def recv_inv_def Let_def)
qed

lemma deliver_safe:
  assumes "recv_inv s" and "int (length d) \<le> nNeedRead s"
  shows "(\<exists>s' e. deliver g d now s = Inr (s', e) \<and> recv_inv s') \<or> deliver g d now s = Inl NullDeref"
proof (cases "d = [] \<or> int (length d) < nNeedRead s")
  case True
  moreover have "recv_inv (s\<lparr>lastRead := now\<rparr>)" using assms by (simp add: recv_inv_def Let_def)
  moreover have "recv_inv (s\<lparr>recvBuffer := landed d (recvBuffer s), nNeedRead := nNeedRead s - int (length d), lastRead := now\<rparr>)"
    using assms landed_wf [OF assms] by (auto simp: recv_inv_def Let_def) (auto simp: landed_def)
  ultimately show ?thesis
    using assms by (cases "d = []") (auto simp: deliver_empty deliver_partial)
next
  case False
  with assms have len: "int (length d) = nNeedRead s" by simp
  from landed_head [OF assms(1) len] obtain h b where
    b: "decodeHead (landed d (recvBuffer s)) = Inr (h, b)" "ba_wf b" "nLeft b = 12"
      "nRight b = nRight (recvBuffer s) + nNeedRead s" "nCapacity b = nCapacity (recvBuffer s)"
      "length (pCharArr b) = length (pCharArr (recvBuffer s))" .
  show ?thesis
  proof (cases "recvStat s")
    case Type_RecvHead
    let ?b = "b\<lparr>nLeft := nLeft b - 12\<rparr>"
    have wf: "ba_wf ?b" and r: "nRight ?b = 12"
      using b Type_RecvHead assms(1) by (auto simp: ba_wf_def recv_inv_def Let_def)
    have ge: "nRight ?b \<le> uint (pkgBodyLen h) + 12" by (simp add: r)
    obtain b3 where b3: "Reallocate g (uint (pkgBodyLen h) + 12) ?b = Inr b3" "ba_wf b3" "nLeft b3 = nLeft ?b"
        "nRight b3 = nRight ?b" "uint (pkgBodyLen h) + 12 \<le> int (length (pCharArr b3))"
      using Reallocate_spec [OF wf ge] by metis
    then show ?thesis
      using deliver_head [OF assms(1) _ len Type_RecvHead b(1)] False wf r b(3)
      by (auto simp: recv_inv_def Let_def ba_wf_def)
  next
    case Type_RecvBody
    have "nLeft b + 45 \<le> int (length (pCharArr b))" using b by (simp add: ba_wf_def)
    with reqHandle_safe [of "s\<lparr>recvBuffer := b\<rparr>"] b(3) show ?thesis
      using deliver_body [OF assms(1) _ len Type_RecvBody b(1)] False b
      by (auto simp: recv_inv_def Let_def ba_wf_def Init_def)
  qed
qed

section \<open>Reassembly of the package stream\<close>

text \<open>The state after the prefix \<open>pre\<close> of a package \<open>P\<close> has arrived.\<close>

definition mid :: "SolcomApi \<Rightarrow> bytes \<Rightarrow> bytes \<Rightarrow> bool" where
  "mid s P pre \<longleftrightarrow>
     recv_inv s \<and> content (recvBuffer s) = pre \<and>
     (if length pre < 12 then recvStat s = Type_RecvHead
      else recvStat s = Type_RecvBody \<and> nNeedRead s = int (length P - length pre))"

definition cache_ok :: "SolcomApi \<Rightarrow> bool" where
  "cache_ok s \<longleftrightarrow> same_class (hbCmd (serializeObjCache s)) (HeartbeatCommand 0) \<and>
     same_class (tstCmd (serializeObjCache s)) (TestCommand 0 [] 0 0)"

definition spi_calls :: "ISerializable \<Rightarrow> uv_call list" where
  "spi_calls x = [SpiRecvMsg x, SpiPrint x]"

lemma mem_read_window:
  assumes "ba_wf b" and "content b = ser_image x @ rest"
  shows "mem_read (nLeft b) 1 (pCharArr b) = Inr [nType x]"
proof -
  have c: "take 1 (content b) = [nType x]"
    using assms(2) by (cases x) (simp_all add: enc_u8_def)
  have "1 \<le> length (content b)" using c by (cases "content b") auto
  then obtain b' where "HeadIntercept 1 b = Inr (take 1 (content b), b')"
    using HeadIntercept_spec [OF assms(1)] by metis
  then show ?thesis using c by (auto simp: HeadIntercept_def rbind_Inr)
qed

lemma GetCachedObj_class:
  assumes "cache_ok s" and "obj_ok x"
  obtains y where "GetCachedObj (nType x) (serializeObjCache s) = Some y" "same_class x y"
proof (cases x)
  case (HeartbeatCommand t)
  then show ?thesis using assms that [of "hbCmd (serializeObjCache s)"]
    by (cases "hbCmd (serializeObjCache s)") (auto simp: cache_ok_def GetCachedObj_def TypeReq_Heartbeat_def)
next
  case (TestCommand t u db i)
  then show ?thesis using assms that [of "tstCmd (serializeObjCache s)"]
    by (cases "tstCmd (serializeObjCache s)")
      (auto simp: cache_ok_def GetCachedObj_def TypeReq_Heartbeat_def TypeReq_TestCmd_def)
qed

lemma reqHandle_package:
  assumes "ba_wf (recvBuffer s)" and "content (recvBuffer s) = ser_image x" and "obj_ok x"
    and "solcomSpi s" and "cache_ok s"
  obtains b c where "reqHandle s = Inr (s\<lparr>recvBuffer := b, serializeObjCache := c\<rparr>, spi_calls x)" "ba_wf b"
    "cache_ok (s\<lparr>recvBuffer := b, serializeObjCache := c\<rparr>)"
proof -
  have c: "content (recvBuffer s) = ser_image x @ []" using assms(2) by simp
  obtain y where y: "GetCachedObj (nType x) (serializeObjCache s) = Some y" "same_class x y"
    using GetCachedObj_class [OF assms(5,3)] .
  obtain b where b: "Deserialize y (recvBuffer s) = Inr (x, b)" "ba_wf b"
    using Deserialize_spec [OF assms(1) c assms(3) y(2)] by metis
  let ?c = "PutCachedObj (nType x) x (serializeObjCache s)"
  have "dec_u8 [nType x] = nType x" by (simp add: dec_u8_def)
  moreover have "OnRecvMsg x = [SpiPrint x]" using assms(3) by (cases x) (auto simp: OnRecvMsg_def)
  ultimately have "reqHandle s = Inr (s\<lparr>recvBuffer := b, serializeObjCache := ?c\<rparr>, spi_calls x)"
    using assms(4) y(1) b(1) mem_read_window [OF assms(1) c]
    by (simp add: reqHandle_def LeftPos_def decodeSerializeObj_def spi_calls_def)
  moreover have "cache_ok (s\<lparr>recvBuffer := b, serializeObjCache := ?c\<rparr>)"
    using assms(3,5) by (cases x)
      (auto simp: cache_ok_def PutCachedObj_def TypeReq_Heartbeat_def TypeReq_TestCmd_def)
  ultimately show ?thesis using b(2) by (intro that)
qed

lemma deliver_mid_more:
  assumes "mid s P pre" and "P = package_image x r q" and "obj_ok x" and "d \<noteq> []" and "suf \<noteq> []"
    and "P = pre @ d @ suf" and "int (length d) \<le> nNeedRead s"
  obtains s' where "deliver g d now s = Inr (s', [])" "mid s' P (pre @ d)"
    "solcomSpi s' = solcomSpi s" "serializeObjCache s' = serializeObjCache s"
proof -
  let ?b = "recvBuffer s"
  have inv: "recv_inv s" and c: "content ?b = pre" using assms(1) by (auto simp: mid_def)
  note lw = landed_wf [OF inv assms(7)]
  have lenc: "int (length pre) = nRight ?b"
    using length_content [of ?b] inv c by (auto simp: recv_inv_def Let_def)
  show ?thesis
  proof (cases "int (length d) < nNeedRead s")
    case True
    let ?s = "s\<lparr>recvBuffer := landed d ?b, nNeedRead := nNeedRead s - int (length d), lastRead := now\<rparr>"
    have "recv_inv ?s" using inv lw True by (auto simp: recv_inv_def Let_def) (auto simp: landed_def)
    moreover have "length (pre @ d) < 12 \<longleftrightarrow> length pre < 12"
      using assms(1) lenc True inv by (auto simp: mid_def recv_inv_def Let_def)
    ultimately have "mid ?s P (pre @ d)"
      using assms(1,6) lw(2) c by (auto simp: mid_def)
    with deliver_partial [OF inv assms(4) True] show ?thesis by (intro that [of ?s]) simp_all
  next
    case False
    then have len: "int (length d) = nNeedRead s" using assms(7) by simp
    have head: "length pre < 12"
      using assms(1,5,6) len by (auto simp: mid_def split: if_splits)
    then have st: "recvStat s = Type_RecvHead" using assms(1) by (simp add: mid_def)
    then have l12: "length (pre @ d) = 12" using inv len lenc by (auto simp: recv_inv_def Let_def)
    let ?h = "package_head x r q"
    have pd: "pre @ d = enc_head ?h @ []" and suf: "suf = ser_image x"
      using assms(2,6) l12 by (auto simp: package_image_def append_eq_append_conv simp flip: append_assoc)
    from decodeHead_spec [OF lw(1), of ?h "[]"] lw(2) pd c obtain b where
      b: "decodeHead (landed d ?b) = Inr (?h, b)" "ba_wf b" "nLeft b = nLeft (landed d ?b) + 12"
        "nRight b = nRight (landed d ?b)" "pCharArr b = pCharArr (landed d ?b)"
        "nCapacity b = nCapacity (landed d ?b)" by auto
    have L: "uint (pkgBodyLen ?h) = int (length (ser_image x))"
      using length_ser_image [OF assms(3)] by (simp add: package_head_def uint_nat unat_of_nat)
    let ?b3 = "b\<lparr>nLeft := nLeft b - 12\<rparr>"
    have pos: "nLeft (landed d ?b) = 0" "nRight (landed d ?b) = 12"
      using inv l12 lenc by (auto simp: landed_def recv_inv_def Let_def)
    have b3: "?b3 = landed d ?b" using b by simp
    let ?s = "s\<lparr>recvBuffer := ?b3, nNeedRead := int (length (ser_image x)), recvStat := Type_RecvBody, lastRead := now\<rparr>"
    have "deliver g d now s = Inr (?s, [])"
      using deliver_head [OF inv assms(4) len st b(1)] b lw(1) L length_ser_image [OF assms(3)]
      by (simp add: ba_wf_def)
    moreover have "recv_inv ?s"
      unfolding b3 using lw(1) pos length_ser_image [OF assms(3)] by (auto simp: recv_inv_def Let_def ba_wf_def)
    then have "mid ?s P (pre @ d)"
      unfolding b3 using lw(2) c l12 assms(6) suf by (auto simp: mid_def)
    ultimately show ?thesis by (intro that [of ?s]) simp_all
  qed
qed

lemma deliver_mid_last:
  assumes "mid s P pre" and "P = package_image x r q" and "obj_ok x" and "d \<noteq> []"
    and "P = pre @ d" and "int (length d) \<le> nNeedRead s" and "solcomSpi s" and "cache_ok s"
  obtains s' where "deliver g d now s = Inr (s', spi_calls x)" "mid s' Q []" "solcomSpi s'" "cache_ok s'"
proof -
  let ?b = "recvBuffer s"
  let ?h = "package_head x r q"
  have inv: "recv_inv s" and c: "content ?b = pre" using assms(1) by (auto simp: mid_def)
  note lw = landed_wf [OF inv assms(6)]
  have lenc: "int (length pre) = nRight ?b"
    using length_content [of ?b] inv c by (auto simp: recv_inv_def Let_def)
  have "12 < length P" using assms(2) by (simp add: package_image_def)
  then have st: "recvStat s = Type_RecvBody" and len: "int (length d) = nNeedRead s"
    using assms(1,5,6) lenc inv by (auto simp: mid_def recv_inv_def Let_def split: if_splits)
  have cP: "content (landed d ?b) = enc_head ?h @ ser_image x"
    using lw(2) c assms(2,5) by (simp add: package_image_def)
  obtain b where b: "decodeHead (landed d ?b) = Inr (?h, b)" "ba_wf b" "content b = ser_image x"
    using decodeHead_spec [OF lw(1) cP] by metis
  have pre: "ba_wf (recvBuffer (s\<lparr>recvBuffer := b\<rparr>))"
    "content (recvBuffer (s\<lparr>recvBuffer := b\<rparr>)) = ser_image x"
    "solcomSpi (s\<lparr>recvBuffer := b\<rparr>)" "cache_ok (s\<lparr>recvBuffer := b\<rparr>)"
    using b assms(7,8) by (simp_all add: cache_ok_def)
  obtain b4 c4 where
    r: "reqHandle (s\<lparr>recvBuffer := b\<rparr>) =
          Inr (s\<lparr>recvBuffer := b\<rparr>\<lparr>recvBuffer := b4, serializeObjCache := c4\<rparr>, spi_calls x)"
      "ba_wf b4" "cache_ok (s\<lparr>recvBuffer := b\<rparr>\<lparr>recvBuffer := b4, serializeObjCache := c4\<rparr>)"
    using reqHandle_package [OF pre(1,2) assms(3) pre(3,4)] by metis
  let ?s = "s\<lparr>recvBuffer := Init b4, recvStat := Type_RecvHead, nNeedRead := 12,
    serializeObjCache := c4, lastRead := now\<rparr>"
  have "deliver g d now s = Inr (?s, spi_calls x)"
    using deliver_body [OF inv assms(4) len st b(1)] r(1) by simp
  moreover have "recv_inv ?s"
    using Init_wf [OF r(2)] r(2) by (auto simp: recv_inv_def Let_def ba_wf_def Init_def)
  then have "mid ?s Q []" by (simp add: mid_def content_Init)
  ultimately show ?thesis
    using r(3) assms(7) by (intro that [of ?s]) (simp_all add: cache_ok_def)
qed

lemma mid_need:
  assumes "mid s P pre" and "12 \<le> length P" and "length pre < length P"
  shows "0 < nNeedRead s"
proof -
  have inv: "recv_inv s" and c: "content (recvBuffer s) = pre" using assms(1) by (auto simp: mid_def)
  have "int (length pre) = nRight (recvBuffer s)"
    using length_content [of "recvBuffer s"] inv c by (auto simp: recv_inv_def Let_def)
  then show ?thesis using assms inv by (auto simp: mid_def recv_inv_def Let_def split: if_splits)
qed

lemma mid_need_le:
  assumes "mid s P pre" and "12 \<le> length P" and "length pre \<le> length P"
  shows "nNeedRead s \<le> int (length P - length pre)"
proof -
  have inv: "recv_inv s" and c: "content (recvBuffer s) = pre" using assms(1) by (auto simp: mid_def)
  have "int (length pre) = nRight (recvBuffer s)"
    using length_content [of "recvBuffer s"] inv c by (auto simp: recv_inv_def Let_def)
  then show ?thesis using assms inv by (auto simp: mid_def recv_inv_def Let_def split: if_splits)
qed

lemma uv_stream_idle:
  assumes "mid t [] []" and "solcomSpi t" and "cache_ok t"
  shows "\<exists>s'. uv_stream g js [] now t = Inr ([], s', []) \<and> mid s' [] [] \<and> solcomSpi s' \<and> cache_ok s'"
  using assms
proof (induction js arbitrary: t)
  case (Cons j js)
  have "deliver g [] now t = Inr (t\<lparr>lastRead := now\<rparr>, [])"
    using Cons.prems(1) by (intro deliver_empty) (simp add: mid_def)
  moreover have "mid (t\<lparr>lastRead := now\<rparr>) [] []" "cache_ok (t\<lparr>lastRead := now\<rparr>)"
    using Cons.prems by (simp_all add: mid_def recv_inv_def cache_ok_def Let_def)
  ultimately show ?case using Cons.IH [of "t\<lparr>lastRead := now\<rparr>"] Cons.prems(2) by auto
qed simp

lemma uv_stream_packages:
  assumes "mid s (package_image x r q) pre" and "package_image x r q = pre @ suf" and "suf \<noteq> []"
    and "obj_ok x" and "\<forall>(y, _, _)\<in>set msgs. obj_ok y" and "solcomSpi s" and "cache_ok s"
    and "length (suf @ concat (map (\<lambda>(y, r, q). package_image y r q) msgs)) \<le> length ks"
  shows "\<exists>s'. uv_stream g ks (suf @ concat (map (\<lambda>(y, r, q). package_image y r q) msgs)) now s =
      Inr ([], s', spi_calls x @ concat (map (\<lambda>(y, r, q). spi_calls y) msgs)) \<and>
      mid s' [] [] \<and> solcomSpi s' \<and> cache_ok s'"
  using assms
proof (induction ks arbitrary: s x r q pre suf msgs)
  case Nil
  then show ?case by simp
next
  case (Cons k ks)
  let ?P = "package_image x r q"
  let ?rest = "concat (map (\<lambda>(y, r, q). package_image y r q) msgs)"
  have P12: "12 \<le> length ?P" by (simp add: package_image_def)
  have need: "0 < nNeedRead s" and needle: "nNeedRead s \<le> int (length suf)"
    using mid_need [OF Cons.prems(1) P12] mid_need_le [OF Cons.prems(1) P12] Cons.prems(2,3) by auto
  define n where "n = min (Suc k) (nat (nNeedRead s))"
  define d where "d = take n suf"
  have n: "0 < n" "n \<le> length suf" "int n \<le> nNeedRead s" using need needle by (auto simp: n_def)
  then have d: "d \<noteq> []" "length d = n" "int (length d) \<le> nNeedRead s" using Cons.prems(3) by (auto simp: d_def)
  have bs: "take n (suf @ ?rest) = d" "drop n (suf @ ?rest) = drop n suf @ ?rest"
    using n by (simp_all add: d_def)
  have split: "?P = pre @ d @ drop n suf" using Cons.prems(2) by (simp add: d_def)
  have step: "uv_stream g (k # ks) (suf @ ?rest) now s =
    rbind (deliver g d now s) (\<lambda>(s1, e1).
      rbind (uv_stream g ks (drop n suf @ ?rest) now s1) (\<lambda>(bs2, s2, e2). Inr (bs2, s2, e1 @ e2)))"
    using bs d(2) n_def by (simp add: alloc_cb_def Let_def)
  have fuel: "length (drop n suf @ ?rest) \<le> length ks" using Cons.prems(8) n by simp
  show ?case
  proof (cases "drop n suf = []")
    case False
    obtain s1 where s1: "deliver g d now s = Inr (s1, [])" "mid s1 ?P (pre @ d)"
      "solcomSpi s1 = solcomSpi s" "serializeObjCache s1 = serializeObjCache s"
      using deliver_mid_more [OF Cons.prems(1) refl Cons.prems(4) d(1) False split d(3)] .
    have "?P = (pre @ d) @ drop n suf" using split by simp
    from Cons.IH [OF s1(2) this False Cons.prems(4,5) _ _ fuel] s1 Cons.prems(6,7)
    show ?thesis by (auto simp: step cache_ok_def simp del: uv_stream.simps)
  next
    case True
    have Pd: "?P = pre @ d" using split True by simp
    show ?thesis
    proof (cases msgs)
      case Nil
      obtain s1 where s1: "deliver g d now s = Inr (s1, spi_calls x)" "mid s1 [] []" "solcomSpi s1" "cache_ok s1"
        using deliver_mid_last [OF Cons.prems(1) refl Cons.prems(4) d(1) Pd d(3) Cons.prems(6,7)] .
      from uv_stream_idle [OF s1(2,3,4), of g ks now] s1(1) True Nil show ?thesis
        unfolding step by auto
    next
      case more: (Cons m ms)
      obtain y r' q' where m: "m = (y, r', q')" by (cases m)
      obtain s1 where s1: "deliver g d now s = Inr (s1, spi_calls x)" "mid s1 (package_image y r' q') []"
        "solcomSpi s1" "cache_ok s1"
        using deliver_mid_last [OF Cons.prems(1) refl Cons.prems(4) d(1) Pd d(3) Cons.prems(6,7)] .
      have "package_image y r' q' \<noteq> []" by (simp add: package_image_def)
      with Cons.IH [OF s1(2), of "package_image y r' q'" ms] s1 Cons.prems(5) more m fuel True
      show ?thesis unfolding step by auto
    qed
  qed
qed

text \<open>Between two packages, whatever comes next.\<close>

lemma uv_stream_messages:
  assumes "mid s [] []" and "solcomSpi s" and "cache_ok s" and "\<forall>(y, _, _)\<in>set msgs. obj_ok y"
    and "length (concat (map (\<lambda>(y, r, q). package_image y r q) msgs)) \<le> length ks"
  shows "\<exists>s'. uv_stream g ks (concat (map (\<lambda>(y, r, q). package_image y r q) msgs)) now s =
      Inr ([], s', concat (map (\<lambda>(y, r, q). spi_calls y) msgs)) \<and> mid s' [] [] \<and> solcomSpi s' \<and> cache_ok s'"
proof (cases msgs)
  case Nil
  then show ?thesis using uv_stream_idle [OF assms(1-3), of g ks now] by simp
next
  case (Cons m ms)
  obtain y r q where m: "m = (y, r, q)" by (cases m)
  have "mid s (package_image y r q) []" using assms(1) by (simp add: mid_def)
  moreover have "package_image y r q \<noteq> []" by (simp add: package_image_def)
  ultimately show ?thesis
    using uv_stream_packages [of s y r q "[]" "package_image y r q" ms ks g now] assms(2-5) Cons m by simp
qed

section \<open>The send path\<close>

text \<open>
  Every package in the ring starts at offset 0 of its buffer, so what \<open>idle_cb\<close> hands to
  \<open>uv_write\<close> is the window; the ring is read at \<open>nCurrent\<close>, which follows \<open>nHead\<close>.
\<close>

definition send_inv :: "SolcomApi \<Rightarrow> bool" where
  "send_inv s \<longleftrightarrow>
     rb_wf (sendCache s) \<and> (\<forall>b\<in>set (elements (sendCache s)). ba_wf b) \<and>
     (\<forall>b\<in>set (rb_list (sendCache s)). nLeft b = 0) \<and>
     nCurrent (sendCache s) = nHead (sendCache s) \<and>
     (bReqWritereqBusy s \<longrightarrow> rb_list (sendCache s) \<noteq> [])"

definition queued :: "SolcomApi \<Rightarrow> bytes list" where
  "queued s = map content (rb_list (sendCache s))"

text \<open>The queue without the package whose write is under way.\<close>

definition unwritten :: "SolcomApi \<Rightarrow> bytes list" where
  "unwritten s = (if bReqWritereqBusy s then tl (queued s) else queued s)"

fun writes :: "uv_call list \<Rightarrow> bytes list" where
  "writes [] = []"
| "writes (UvWrite d # es) = d # writes es"
| "writes (_ # es) = writes es"

fun queuings :: "uv_call list \<Rightarrow> bytes list" where
  "queuings [] = []"
| "queuings (Queued d # es) = d # queuings es"
| "queuings (_ # es) = queuings es"

lemma writes_append [simp]: "writes (xs @ ys) = writes xs @ writes ys"
  by (induction xs rule: writes.induct) auto

lemma queuings_append [simp]: "queuings (xs @ ys) = queuings xs @ queuings ys"
  by (induction xs rule: queuings.induct) auto

lemma send_frame [simp]:
  "send_inv (s\<lparr>lastWrite := t\<rparr>) = send_inv s" "send_inv (s\<lparr>bConnected := c\<rparr>) = send_inv s"
  "queued (s\<lparr>lastWrite := t\<rparr>) = queued s" "queued (s\<lparr>bConnected := c\<rparr>) = queued s"
  "unwritten (s\<lparr>lastWrite := t\<rparr>) = unwritten s" "unwritten (s\<lparr>bConnected := c\<rparr>) = unwritten s"
  by (simp_all add: send_inv_def queued_def unwritten_def)

lemma window_take:
  "ba_wf b \<Longrightarrow> nLeft b = 0 \<Longrightarrow> take (nat (nRight b)) (pCharArr b) = content b"
  by (simp add: content_def)

lemma postMsg_spec:
  assumes "send_inv s" and "obj_ok m"
  obtains rc s' e where "postMsg g m r q s = Inr (rc, s', e)" "send_inv s'" "recvBuffer s' = recvBuffer s"
    "unwritten s' = unwritten s @ queuings e" "writes e = []" "s' = s\<lparr>sendCache := sendCache s'\<rparr>"
    "nHead (sendCache s') = nHead (sendCache s)"
    "rc = ERR_SUCCESS \<longleftrightarrow> bConnected s \<and> length (queued s) < capacity (sendCache s)"
    "rc = ERR_SUCCESS \<Longrightarrow> e = [Queued (package_image m r q)]" "rc \<noteq> ERR_SUCCESS \<Longrightarrow> s' = s \<and> e = []"
    "rc = (if \<not> bConnected s then ERR_NETWORK
           else if length (queued s) < capacity (sendCache s) then ERR_SUCCESS else ERR_NO_BUFFER)"
    "queued s' = queued s @ queuings e"
proof (cases "bConnected s \<and> length (queued s) < capacity (sendCache s)")
  case False
  let ?rc = "if bConnected s then ERR_NO_BUFFER else ERR_NETWORK"
  have wf: "rb_wf (sendCache s)" using assms(1) by (simp add: send_inv_def)
  then have "bConnected s \<Longrightarrow> allocate (sendCache s) = None"
    using False length_rb_list [OF wf] isFull_iff [OF wf] by (auto simp: allocate_def queued_def)
  then have "postMsg g m r q s = Inr (?rc, s, [])" by (auto simp: postMsg_def)
  then show ?thesis
    by (rule that) (use assms False in \<open>auto simp: ERR_SUCCESS_def ERR_NETWORK_def ERR_NO_BUFFER_def split: if_splits\<close>)
next
  case True
  let ?q = "sendCache s"
  have wf: "rb_wf ?q" using assms(1) by (simp add: send_inv_def)
  then obtain i where i: "allocate ?q = Some i" and ilt: "i < length (elements ?q)"
    using True isFull_iff [OF wf] slot_bound [OF wf] by (auto simp: allocate_def queued_def rb_wf_def)
  then have "ba_wf (elements ?q ! i)" using assms(1) by (auto simp: send_inv_def)
  with assms(2) obtain b where b: "build_package g m r q (elements ?q ! i) = Inr b" "ba_wf b"
    "content b = package_image m r q" "nLeft b = 0"
    using build_package_spec by metis
  let ?q' = "snd (tailForward (store i b ?q))"
  have eq: "enqueue b ?q = Some ?q'" using i by (simp add: enqueue_def)
  note q' = enqueue_list [OF wf eq]
  have el: "elements ?q' = (elements ?q)[i := b]" by (simp add: store_def tailForward_def)
  let ?s = "s\<lparr>sendCache := ?q'\<rparr>"
  have p: "postMsg g m r q s = Inr (ERR_SUCCESS, ?s, [Queued (package_image m r q)])"
    using True i b by (simp add: postMsg_def)
  have "send_inv ?s"
    using assms(1) q' el b(2,4) set_update_subset_insert [of "elements ?q" i b] by (auto simp: send_inv_def)
  moreover have "unwritten ?s = unwritten s @ [package_image m r q]"
    using q' b(3) assms(1) by (auto simp: unwritten_def queued_def send_inv_def tl_append split: list.splits)
  ultimately show ?thesis
    by (intro that [OF p]) (use q' True b(3) in \<open>simp_all add: queued_def\<close>)
qed

lemma current_hd:
  assumes "send_inv s" and "rb_list (sendCache s) \<noteq> []"
  obtains i where "current (sendCache s) = Some i" "elements (sendCache s) ! i = hd (rb_list (sendCache s))"
  using assms front_hd [of "sendCache s"] that
  by (auto simp: send_inv_def current_def front_def isEmpty_iff)

lemma idle_write_spec:
  assumes "send_inv s" and "idle_write s = (s', e)"
  shows "send_inv s' \<and> unwritten s = writes e @ unwritten s' \<and> queuings e = [] \<and>
    s' = s\<lparr>bReqWritereqBusy := bReqWritereqBusy s'\<rparr>"
proof (cases "rb_list (sendCache s) \<noteq> [] \<and> \<not> bReqWritereqBusy s")
  case True
  obtain i where i: "current (sendCache s) = Some i" "elements (sendCache s) ! i = hd (rb_list (sendCache s))"
    using current_hd assms(1) True by metis
  let ?b = "hd (rb_list (sendCache s))"
  have mem: "?b \<in> set (rb_list (sendCache s))" using True by simp
  have "rb_wf (sendCache s)" using assms(1) by (simp add: send_inv_def)
  from slot_bound [OF this] this have "i < length (elements (sendCache s))"
    using i(1) by (auto simp: current_def rb_wf_def split: if_splits)
  then have "?b \<in> set (elements (sendCache s))" using nth_mem i(2) by fastforce
  then have "ba_wf ?b" "nLeft ?b = 0" using assms(1) mem by (auto simp: send_inv_def)
  then have w: "take (nat (nRight ?b)) (pCharArr ?b) = content ?b" by (rule window_take)
  have "s' = s\<lparr>bReqWritereqBusy := True\<rparr>" "e = [UvWrite (content ?b)]"
    using assms(2) True i w by (auto simp: idle_write_def isEmpty_iff RightPos_def Let_def)
  then show ?thesis
    using assms(1) True by (cases "rb_list (sendCache s)") (auto simp: send_inv_def unwritten_def queued_def)
next
  case False
  then have "s' = s" "e = []" using assms(2) by (auto simp: idle_write_def isEmpty_iff)
  then show ?thesis using assms(1) by simp
qed

lemma idle_write_live:
  assumes "send_inv s" and "idle_write s = (s', e)" and "\<not> bReqWritereqBusy s" and "queued s \<noteq> []"
  shows "bReqWritereqBusy s' \<and> writes e = [hd (queued s)]"
proof -
  have ne: "rb_list (sendCache s) \<noteq> []" using assms(4) by (simp add: queued_def)
  obtain i where i: "current (sendCache s) = Some i" "elements (sendCache s) ! i = hd (rb_list (sendCache s))"
    using current_hd assms(1) ne by metis
  let ?b = "hd (rb_list (sendCache s))"
  have e: "s' = s\<lparr>bReqWritereqBusy := True\<rparr>" "e = [UvWrite (take (nat (RightPos ?b)) (pCharArr ?b))]"
    using assms(2,3) ne i by (auto simp: idle_write_def isEmpty_iff Let_def)
  have "unwritten s = writes e @ unwritten s'" using idle_write_spec [OF assms(1,2)] by blast
  with assms(3,4) e show ?thesis by (cases "queued s") (simp_all add: unwritten_def)
qed

lemma new_Heartbeat_ok [simp]: "obj_ok new_HeartbeatCommand"
  by (simp add: new_HeartbeatCommand_def)

text \<open>The reconnect branch of \<open>idle_keepalive\<close> is never taken: it subtracts \<open>lastWrite\<close>,
  which the branch before it has just refreshed.\<close>

lemma idle_keepalive_spec:
  assumes "send_inv s"
  obtains s' e where "idle_keepalive g t s = Inr (s', e)" "send_inv s'"
    "unwritten s' = unwritten s @ queuings e" "writes e = []"
    "s' = s\<lparr>sendCache := sendCache s', lastWrite := lastWrite s'\<rparr>" "UvClose \<notin> set e"
    "nHead (sendCache s') = nHead (sendCache s)"
proof (cases "\<not> bStop s \<and> t - lastWrite s > MAX_WRITE_IDLE_INTERVAL")
  case True
  obtain rc s1 e where p: "postMsg g new_HeartbeatCommand 0 Type_Req s = Inr (rc, s1, e)" "send_inv s1"
    "unwritten s1 = unwritten s @ queuings e" "writes e = []" "s1 = s\<lparr>sendCache := sendCache s1\<rparr>"
    "rc = ERR_SUCCESS \<Longrightarrow> e = [Queued (package_image new_HeartbeatCommand 0 Type_Req)]"
    "rc \<noteq> ERR_SUCCESS \<Longrightarrow> s1 = s \<and> e = []" "nHead (sendCache s1) = nHead (sendCache s)"
    using postMsg_spec [OF assms new_Heartbeat_ok, of g 0 Type_Req] by metis
  have noclose: "UvClose \<notin> set e" using p(6,7) by (cases "rc = ERR_SUCCESS") auto
  let ?s = "s1\<lparr>lastWrite := t\<rparr>"
  have "idle_keepalive g t s = Inr (?s, e)"
    using True p(1) by (simp add: idle_keepalive_def sendHeartbeat_def MAX_IDLE_INTERVAL_def)
  then show ?thesis
    by (rule that) (use p(2-4,8) noclose in simp_all, subst p(5), simp)
next
  case False
  then have "idle_keepalive g t s = Inr (s, [])"
    by (auto simp: idle_keepalive_def MAX_IDLE_INTERVAL_def MAX_WRITE_IDLE_INTERVAL_def)
  then show ?thesis by (rule that) (use assms in simp_all)
qed

lemma closeConnection_simps:
  "closeConnection s = (s', e) \<Longrightarrow> s' = s\<lparr>bConnected := False\<rparr> \<and> writes e = [] \<and> queuings e = []"
  by (auto simp: closeConnection_def)

lemma idle_cb_spec:
  assumes "send_inv s"
  obtains s' e where "idle_cb g t s = Inr (s', e)" "send_inv s'"
    "unwritten s @ queuings e = writes e @ unwritten s'"
    "recvBuffer s' = recvBuffer s" "nNeedRead s' = nNeedRead s" "recvStat s' = recvStat s"
    "servAddr s' = servAddr s" "nHead (sendCache s') = nHead (sendCache s)" "bReqWritereqBusy s \<Longrightarrow> writes e = [] \<and> bReqWritereqBusy s'"
    "\<not> bStop s \<Longrightarrow> UvClose \<notin> set e \<and> bConnected s' = bConnected s"
    "bConnected s \<Longrightarrow> \<not> bReqWritereqBusy s \<Longrightarrow> queued s \<noteq> [] \<Longrightarrow> bReqWritereqBusy s' \<and> writes e = [hd (queued s)]"
proof -
  let ?k = "bStop s \<and> \<not> (bConnected s \<and> \<not> isEmpty (sendCache s))"
  obtain s1 e1 where w: "idle_write s = (s1, e1)" by fastforce
  have ws: "send_inv s1" "unwritten s = writes e1 @ unwritten s1" "queuings e1 = []"
    and ws_frame: "s1 = s\<lparr>bReqWritereqBusy := bReqWritereqBusy s1\<rparr>"
    using idle_write_spec [OF assms w] by blast+
  have wb: "bReqWritereqBusy s \<Longrightarrow> s1 = s \<and> e1 = []" and wc: "UvClose \<notin> set e1"
    using w by (auto simp: idle_write_def Let_def split: if_splits option.splits)
  obtain s2 e2 where k: "idle_keepalive g t s1 = Inr (s2, e2)" "send_inv s2"
    "unwritten s2 = unwritten s1 @ queuings e2" "writes e2 = []"
    "s2 = s1\<lparr>sendCache := sendCache s2, lastWrite := lastWrite s2\<rparr>" "UvClose \<notin> set e2"
    "nHead (sendCache s2) = nHead (sendCache s1)"
    using idle_keepalive_spec [OF ws(1), of g t] by metis
  have f1: "sendCache s1 = sendCache s" "bConnected s1 = bConnected s" "bStop s1 = bStop s"
    "recvBuffer s1 = recvBuffer s" "nNeedRead s1 = nNeedRead s" "recvStat s1 = recvStat s" "servAddr s1 = servAddr s"
    by (subst ws_frame, simp)+
  have f2: "bConnected s2 = bConnected s1" "bStop s2 = bStop s1" "recvBuffer s2 = recvBuffer s1"
    "nNeedRead s2 = nNeedRead s1" "recvStat s2 = recvStat s1" "servAddr s2 = servAddr s1" "bReqWritereqBusy s2 = bReqWritereqBusy s1"
    by (subst k(5), simp)+
  have U: "unwritten s @ queuings e2 = writes e1 @ unwritten s2" by (simp add: ws(2) k(3))
  have B: "bReqWritereqBusy s \<Longrightarrow> writes e1 = [] \<and> bReqWritereqBusy s2" using wb f2(7) by auto
  have L: "\<not> bReqWritereqBusy s \<Longrightarrow> queued s \<noteq> [] \<Longrightarrow> bReqWritereqBusy s2 \<and> writes e1 = [hd (queued s)]"
    using idle_write_live [OF assms w] f2(7) by simp
  note facts = U B L k(2,4,6,7) ws(3) wc f1 f2
  show ?thesis
  proof (cases "bConnected s")
    case True
    show ?thesis
    proof (cases ?k)
      case K: True
      let ?s = "s2\<lparr>bConnected := False\<rparr>"
      obtain e4 where c: "closeConnection s2 = (?s, e4)" "writes e4 = []" "queuings e4 = []"
        by (simp add: closeConnection_def)
      have "idle_cb g t s = Inr (?s, (e1 @ e2) @ UvIdleStop # e4)"
        using True K w k(1) c f1 f2 by (simp add: idle_cb_def)
      then show ?thesis
        by (rule that) (use K c facts in simp_all)
    next
      case K: False
      have "idle_cb g t s = Inr (s2, e1 @ e2)"
        using True K w k(1) f1 f2 by (auto simp: idle_cb_def)
      then show ?thesis
        by (rule that) (use facts in simp_all)
    qed
  next
    case False
    show ?thesis
    proof (cases ?k)
      case K: True
      let ?s = "s\<lparr>bConnected := False\<rparr>"
      obtain e4 where c: "closeConnection s = (?s, e4)" "writes e4 = []" "queuings e4 = []"
        by (simp add: closeConnection_def)
      have "idle_cb g t s = Inr (?s, UvIdleStop # e4)"
        using False K c by (simp add: idle_cb_def)
      then show ?thesis
        by (rule that) (use K c assms False in simp_all)
    next
      case K: False
      have "idle_cb g t s = Inr (s, [])" using False K by (auto simp: idle_cb_def)
      then show ?thesis by (rule that) (use assms False in auto)
    qed
  qed
qed

lemma req_write_cb_spec:
  assumes "send_inv s" and "bReqWritereqBusy s" and "nHead (sendCache s) \<noteq> - 1"
    and "req_write_cb st now s = (s', e)"
  shows "send_inv s' \<and> unwritten s' = unwritten s \<and> writes e = [] \<and> queuings e = []"
proof (cases "st < 0")
  case True
  then show ?thesis using assms by (auto simp: req_write_cb_def closeConnection_def arm_reconnect_def)
next
  case False
  let ?q = "sendCache s"
  have wf: "rb_wf ?q" and ne: "rb_list ?q \<noteq> []" and cur: "nCurrent ?q = nHead ?q"
    using assms(1,2) by (auto simp: send_inv_def)
  obtain r q' where h: "headForward ?q = (r, q')" by fastforce
  note hf = headForward_list [OF wf ne h]
  have "nHead ?q < nHead ?q + 1" by (rule less_succ_word [OF assms(3)])
  then have "nCurrent q' = nHead q'"
    using h cur ne by (auto simp: headForward_def isEmpty_iff Let_def split: if_splits)
  moreover have "set (rb_list q') \<subseteq> set (rb_list ?q)" using hf ne by (cases "rb_list ?q") auto
  moreover have "s' = s\<lparr>sendCache := q', bReqWritereqBusy := False, lastWrite := now\<rparr>" "e = []"
    using assms(4) False h by (auto simp: req_write_cb_def)
  ultimately show ?thesis
    using assms(1,2) hf by (auto simp: send_inv_def unwritten_def queued_def map_tl)
qed

definition same_send :: "SolcomApi \<Rightarrow> SolcomApi \<Rightarrow> bool" where
  "same_send s t \<longleftrightarrow> sendCache t = sendCache s \<and> bReqWritereqBusy t = bReqWritereqBusy s \<and> servAddr t = servAddr s"

lemma same_send_refl: "same_send s s" by (simp add: same_send_def)

lemma same_send_inv: "same_send s t \<Longrightarrow> send_inv t = send_inv s \<and> unwritten t = unwritten s"
  by (simp add: same_send_def send_inv_def unwritten_def queued_def)

lemma reqHandle_frame:
  "reqHandle s = Inr (t, e) \<Longrightarrow> same_send s t \<and> writes e = [] \<and> queuings e = []"
  by (auto simp: reqHandle_def OnRecvMsg_def same_send_def rbind_Inr Let_def split: if_splits option.splits prod.splits)

lemma read_cb_frame:
  "read_cb g n now s = Inr (t, e) \<Longrightarrow> same_send s t \<and> writes e = [] \<and> queuings e = []"
  by (auto simp: read_cb_def rbind_Inr Let_def closeConnection_def arm_reconnect_def same_send_def
      dest!: reqHandle_frame split: if_splits prod.splits)

lemma deliver_frame:
  "deliver g d now s = Inr (t, e) \<Longrightarrow> same_send s t \<and> writes e = [] \<and> queuings e = []"
  by (auto simp: deliver_def rbind_Inr same_send_def dest!: read_cb_frame)


section \<open>The client in every reachable state\<close>

definition client_inv :: "SolcomApi \<Rightarrow> bool" where
  "client_inv s \<longleftrightarrow> recv_inv s \<and> send_inv s \<and> length (servAddr s) = 32"

definition same_recv :: "SolcomApi \<Rightarrow> SolcomApi \<Rightarrow> bool" where
  "same_recv s t \<longleftrightarrow> recvBuffer t = recvBuffer s \<and> nNeedRead t = nNeedRead s \<and> recvStat t = recvStat s"

lemma same_recv_inv: "same_recv s t \<Longrightarrow> recv_inv t = recv_inv s"
  by (simp add: same_recv_def recv_inv_def)

text \<open>What one event does: the invariant is kept and the packages in the ring behind the one being
  written are conserved, or the fault is the null dereference of \<open>reqHandle\<close>.\<close>

definition good :: "SolcomApi \<Rightarrow> outcome \<Rightarrow> bool" where
  "good s r \<longleftrightarrow> (case r of
       Inl f \<Rightarrow> f = NullDeref
     | Inr (t, e) \<Rightarrow> client_inv t \<and> unwritten s @ queuings e = writes e @ unwritten t)"

lemma good_frame:
  assumes "client_inv s" and "same_recv s t" and "same_send s t" and "writes e = []" and "queuings e = []"
  shows "good s (Inr (t, e))"
proof -
  have "client_inv t" "unwritten t = unwritten s"
    using assms(1) same_recv_inv [OF assms(2)] same_send_inv [OF assms(3)] assms(3)
    unfolding client_inv_def same_send_def by simp_all
  then show ?thesis by (simp add: good_def assms(4,5))
qed

lemma connect_cb_recv:
  assumes "recv_inv s"
  shows "recv_inv (fst (connect_cb st s))"
  using assms by (auto simp: connect_cb_def recv_inv_def Let_def ba_wf_def Init_def PackageHeadLen_def)


lemma api_handle_good:
  assumes "client_inv s" and "ev_ok s ev"
  shows "good s (api_handle g now ev s)"
proof -
  have r: "recv_inv s" and snd: "send_inv s" and a: "length (servAddr s) = 32"
    using assms(1) by (simp_all add: client_inv_def)
  have frame: "good s (Inr (t, e))" if "same_recv s t" "same_send s t" "writes e = []" "queuings e = []" for t e
    using good_frame [OF assms(1)] that .
  show ?thesis
  proof (cases ev)
    case (EvPost m i q)
    obtain rc s' e where p: "postMsg g m i q s = Inr (rc, s', e)" "send_inv s'"
      "unwritten s' = unwritten s @ queuings e" "writes e = []" "s' = s\<lparr>sendCache := sendCache s'\<rparr>"
      using postMsg_spec [OF snd, of m g i q] assms(2) EvPost by (metis ev_ok.simps(1))
    have "same_recv s s'" "servAddr s' = servAddr s" by (subst p(5), simp add: same_recv_def)+
    then have "client_inv s'" using r a p(2) same_recv_inv [of s s'] by (simp add: client_inv_def)
    then show ?thesis using EvPost p(1,3,4) by (simp add: good_def)
  next
    case EvIdle
    obtain s' e where p: "idle_cb g now s = Inr (s', e)" "send_inv s'"
      "unwritten s @ queuings e = writes e @ unwritten s'" "recvBuffer s' = recvBuffer s"
      "nNeedRead s' = nNeedRead s" "recvStat s' = recvStat s" "servAddr s' = servAddr s"
      using idle_cb_spec [OF snd, of g now] by metis
    then have "client_inv s'" using r a same_recv_inv [of s s'] by (simp add: client_inv_def same_recv_def)
    then show ?thesis using EvIdle p(1,3) by (simp add: good_def)
  next
    case (EvWritten st)
    obtain s' e where p: "req_write_cb st now s = (s', e)" by fastforce
    have "same_recv s s'" "servAddr s' = servAddr s"
      using p by (auto simp: req_write_cb_def closeConnection_def same_recv_def Let_def split: if_splits)
    then show ?thesis
      using EvWritten p req_write_cb_spec [OF snd _ _ p] assms(2) r a same_recv_inv [of s s']
      by (simp add: good_def client_inv_def)
  next
    case (EvRead d)
    show ?thesis
    proof (cases "deliver g d now s")
      case (Inl f)
      then show ?thesis using deliver_safe [OF r, of d g now] assms(2) EvRead by (simp add: good_def)
    next
      case (Inr x)
      obtain s' e where x: "x = (s', e)" by fastforce
      then have "recv_inv s'" using deliver_safe [OF r, of d g now] assms(2) EvRead Inr by simp
      moreover have f: "same_send s s'" "writes e = []" "queuings e = []"
        using deliver_frame [of g d now s s' e] Inr x by simp_all
      ultimately show ?thesis
        using EvRead Inr x same_send_inv [OF f(1)] f snd a by (simp add: good_def client_inv_def same_send_def)
    qed
  next
    case (EvConnect st)
    obtain s' e where p: "connect_cb st s = (s', e)" by fastforce
    have f: "same_send s s'" "writes e = []" "queuings e = []"
      using p by (auto simp: connect_cb_def arm_reconnect_def same_send_def split: if_splits)
    have "recv_inv s'" using connect_cb_recv [OF r, of st] p by simp
    then show ?thesis
      using EvConnect p same_send_inv [OF f(1)] f snd a by (simp add: good_def client_inv_def same_send_def)
  next
    case (EvRegistServer b p)
    then have l: "length (cstr b) < length (servAddr s)" using assms(2) a by simp
    let ?s = "s\<lparr>servAddr := cstr b @ 0 # drop (Suc (length (cstr b))) (servAddr s), servPort := p\<rparr>"
    have "RegistServer b p s = Inr ?s" using l by (simp add: RegistServer_def strcpy_fits)
    moreover have "client_inv ?s"
      using l r snd a by (simp add: client_inv_def recv_inv_def send_inv_def)
    ultimately show ?thesis using EvRegistServer by (simp add: good_def unwritten_def queued_def)
  next
    case (EvReadError n)
    then show ?thesis
      using assms(2) by (auto intro!: frame
          simp: read_cb_def closeConnection_def arm_reconnect_def same_recv_def same_send_def)
  qed (auto intro!: frame simp: same_recv_def same_send_def Stop_def RegistSpi_def SetAutoReconnect_def
      init_timer_cb_def reconn_timer_cb_def connectServer_def)
qed


lemma api_handle_inv:
  assumes "client_inv s" and "ev_ok s ev" and "api_handle g now ev s = Inr (t, e)"
  shows "client_inv t" and "unwritten s @ queuings e = writes e @ unwritten t"
  using api_handle_good [OF assms(1,2), of g now] assms(3) by (simp_all add: good_def)

definition api_init :: "(nat \<Rightarrow> byte) \<Rightarrow> u64 \<Rightarrow> nat \<Rightarrow> SolcomApi \<Rightarrow> bool" where
  "api_init g db r s \<longleftrightarrow> new_SolcomApi g (new_TestCommand g db r) = Inr s"

lemma new_SolcomApi_spec:
  obtains s where "new_SolcomApi g tst = Inr s" "client_inv s" "queued s = []" "\<not> bReqWritereqBusy s"
    "recvStat s = Type_RecvHead" "content (recvBuffer s) = []" "nRight (recvBuffer s) = 0"
    "serializeObjCache s = \<lparr>hbCmd = new_HeartbeatCommand, tstCmd = tst\<rparr>"
proof -
  obtain b where b: "new_CachedBuffer (\<lambda>_. new_CByteArray g 1424) 128 = Inr b" "rb_wf b" "rb_list b = []"
    using new_CachedBuffer_spec [of 128 "\<lambda>_. new_CByteArray g 1424"] by auto
  have el: "nCurrent b = 0" "nHead b = 0" "\<forall>a\<in>set (elements b). a = new_CByteArray g 1424"
    using b(1) by (auto simp: new_CachedBuffer_def rbind_Inr)
  obtain s where s: "new_SolcomApi g tst = Inr s" by (simp add: new_SolcomApi_def b(1))
  then have f: "sendCache s = b" "recvBuffer s = new_CByteArray g 1424" "recvStat s = Type_RecvHead"
    "nNeedRead s = 12" "\<not> bReqWritereqBusy s" "length (servAddr s) = 32"
    "serializeObjCache s = \<lparr>hbCmd = new_HeartbeatCommand, tstCmd = tst\<rparr>"
    by (auto simp: new_SolcomApi_def b(1) PackageHeadLen_def)
  have "recv_inv s"
    using new_CByteArray_wf [of g 1424] by (simp add: recv_inv_def f) (simp add: new_CByteArray_def)
  moreover have "send_inv s"
    using b(2,3) el new_CByteArray_wf [of g 1424] by (auto simp: send_inv_def f)
  ultimately show ?thesis
    using s f b(3) by (intro that [of s])
      (simp_all add: client_inv_def queued_def content_new, simp add: new_CByteArray_def)
qed

interpretation api_sys: invariant_system "api_init g db r" "api_step g" client_inv
proof (unfold_locales, goal_cases)
  case (1 s)
  then show ?case using new_SolcomApi_spec [of g "new_TestCommand g db r"] by (metis api_init_def sum.inject(2))
next
  case (2 s t)
  from 2(2) show ?case by (rule api_stepE) (use api_handle_inv [OF 2(1)] in blast)
qed

lemma api_run_good:
  assumes "client_inv s" and "run_ok g evs s" and "api_run g evs s = Inr (t, e)"
  shows "client_inv t \<and> unwritten s @ queuings e = writes e @ unwritten t"
  using assms
proof (induction evs arbitrary: s e)
  case (Cons p evs)
  obtain now ev where p: "p = (now, ev)" by fastforce
  obtain s1 e1 e2 where h: "api_handle g now ev s = Inr (s1, e1)" "api_run g evs s1 = Inr (t, e2)" "e = e1 @ e2"
    using Cons.prems(3) p by (auto simp: rbind_Inr)
  have "client_inv s1" and l: "unwritten s @ queuings e1 = writes e1 @ unwritten s1"
    using api_handle_inv [OF Cons.prems(1) _ h(1)] Cons.prems(2) p by simp_all
  with Cons.IH [OF _ _ h(2)] Cons.prems(2) p h(1)
  have "client_inv t \<and> unwritten s1 @ queuings e2 = writes e2 @ unwritten t" by simp
  with l h(3) show ?case by (metis append.assoc queuings_append writes_append)
qed simp


lemma busy_run:
  assumes "client_inv s" and "run_ok g evs s" and "api_run g evs s = Inr (t, e)"
    and "bReqWritereqBusy s" and "\<forall>(_, ev)\<in>set evs. \<forall>st. ev \<noteq> EvWritten st"
  shows "writes e = []"
  using assms
proof (induction evs arbitrary: s e)
  case (Cons p evs)
  obtain now ev where p: "p = (now, ev)" by fastforce
  obtain s1 e1 e2 where h: "api_handle g now ev s = Inr (s1, e1)" "api_run g evs s1 = Inr (t, e2)" "e = e1 @ e2"
    using Cons.prems(3) p by (auto simp: rbind_Inr)
  have inv: "send_inv s" using Cons.prems(1) by (simp add: client_inv_def)
  have ev: "\<And>st. ev \<noteq> EvWritten st" and ok: "ev_ok s ev" using Cons.prems(2,5) p by auto
  have "writes e1 = [] \<and> bReqWritereqBusy s1"
  proof (cases ev)
    case (EvPost m i q)
    then obtain rc where pm: "postMsg g m i q s = Inr (rc, s1, e1)" using h(1) by (auto simp: rbind_Inr)
    then show ?thesis
      using Cons.prems(4) by (auto simp: postMsg_def rbind_Inr split: if_splits option.splits)
  next
    case EvIdle
    then show ?thesis using idle_cb_spec [OF inv, of g now] h(1) Cons.prems(4) by (metis Pair_inject api_handle.simps(2) sum.inject(2))
  next
    case (EvRead d)
    then show ?thesis using deliver_frame [of g d now s s1 e1] h(1) Cons.prems(4) by (simp add: same_send_def)
  next
    case (EvReadError n)
    then show ?thesis using read_cb_frame [of g n now s s1 e1] h(1) Cons.prems(4) by (simp add: same_send_def)
  qed (use h(1) Cons.prems(4) ev in \<open>auto simp: connect_cb_def reconn_timer_cb_def init_timer_cb_def connectServer_def
      arm_reconnect_def Stop_def RegistSpi_def SetAutoReconnect_def RegistServer_def rbind_Inr split: if_splits\<close>)
  moreover have "client_inv s1" by (rule api_handle_inv [OF Cons.prems(1) ok h(1)])
  ultimately show ?case using Cons.IH [OF _ _ h(2)] Cons.prems(2,5) p h by simp
qed simp


text \<open>A concrete reachable state for the witnesses below: connected, one heartbeat queued, and then
  its write under way.\<close>

lemma reach_run:
  assumes "reach (api_init g db r) (api_step g) s" and "run_ok g evs s" and "api_run g evs s = Inr (t, e)"
  shows "reach (api_init g db r) (api_step g) t"
  using assms
proof (induction evs arbitrary: s e)
  case (Cons p evs)
  obtain now ev where p: "p = (now, ev)" by fastforce
  obtain s1 e1 e2 where h: "api_handle g now ev s = Inr (s1, e1)" "api_run g evs s1 = Inr (t, e2)"
    using Cons.prems(3) p by (auto simp: rbind_Inr)
  have "reach (api_init g db r) (api_step g) s1"
    using Cons.prems(1,2) p h(1) by (auto intro: reach_step api_step)
  then show ?case using Cons.IH [OF _ _ h(2)] Cons.prems(2) p h(1) by simp
qed simp

lemma queued_client:
  obtains s0 s1 where "api_init g db r s0" "reach (api_init g db r) (api_step g) s1"
    "api_run g [(0, EvConnect 0), (0, EvPost new_HeartbeatCommand 0 Type_Req)] s0 =
       Inr (s1, [UvReadStart, UvIdleStart, Queued (package_image new_HeartbeatCommand 0 Type_Req)])"
    "bConnected s1" "\<not> bReqWritereqBusy s1" "queued s1 = [package_image new_HeartbeatCommand 0 Type_Req]" "\<not> bStop s1"
    "nHead (sendCache s1) = 0"
proof -
  obtain s0 where s0: "new_SolcomApi g (new_TestCommand g db r) = Inr s0" "client_inv s0" "queued s0 = []"
    "\<not> bReqWritereqBusy s0" using new_SolcomApi_spec [of g "new_TestCommand g db r"] by metis
  have f: "\<not> bStop s0" "nHead (sendCache s0) = 0" "\<not> solcomSpi s0"
    using s0(1) by (auto simp: new_SolcomApi_def new_CachedBuffer_def rbind_Inr)
  let ?c = "fst (connect_cb 0 s0)"
  have c: "send_inv ?c" "bConnected ?c" "queued ?c = []" "\<not> bReqWritereqBusy ?c" "\<not> bStop ?c" "nHead (sendCache ?c) = 0"
    "snd (connect_cb 0 s0) = [UvReadStart, UvIdleStart]"
    using s0 f by (simp_all add: connect_cb_def send_inv_def client_inv_def queued_def)
  have "0 < capacity (sendCache ?c)" using c(1) capacity_pos by (auto simp: send_inv_def)
  then obtain s1 e where s1: "postMsg g new_HeartbeatCommand 0 Type_Req ?c = Inr (ERR_SUCCESS, s1, e)"
    "s1 = ?c\<lparr>sendCache := sendCache s1\<rparr>" "nHead (sendCache s1) = nHead (sendCache ?c)"
    "e = [Queued (package_image new_HeartbeatCommand 0 Type_Req)]" "queued s1 = queued ?c @ queuings e"
    using postMsg_spec [OF c(1) new_Heartbeat_ok, of g 0 Type_Req] c(2,3)
    by (metis length_0_conv)
  have "bConnected s1" "\<not> bReqWritereqBusy s1" "\<not> bStop s1" by (subst s1(2), use c in simp)+
  moreover have h: "api_run g [(0, EvConnect 0), (0, EvPost new_HeartbeatCommand 0 Type_Req)] s0 =
       Inr (s1, [UvReadStart, UvIdleStart, Queued (package_image new_HeartbeatCommand 0 Type_Req)])"
    using s1(1,4) c(7) by (cases "connect_cb 0 s0") simp
  moreover have i: "api_init g db r s0" using s0(1) by (simp add: api_init_def)
  moreover have "reach (api_init g db r) (api_step g) s1"
    by (rule reach_run [OF reach_init [where init = "api_init g db r", OF i] _ h])
      (cases "connect_cb 0 s0", simp split: sum.splits)
  ultimately show ?thesis using s1 c by (intro that) simp_all
qed

lemma api_run_append:
  "api_run g (xs @ ys) s =
     rbind (api_run g xs s) (\<lambda>(s1, e1). rbind (api_run g ys s1) (\<lambda>(s2, e2). Inr (s2, e1 @ e2)))"
proof (induction xs arbitrary: s)
  case Nil
  then show ?case by (cases "api_run g ys s") auto
next
  case (Cons p xs)
  obtain now ev where p: "p = (now, ev)" by fastforce
  show ?case
  proof (cases "api_handle g now ev s")
    case (Inr x)
    obtain s1 e1 where x: "x = (s1, e1)" by fastforce
    show ?thesis
    proof (cases "api_run g xs s1")
      case (Inr y)
      then show ?thesis
        using Cons.IH [of s1] p \<open>api_handle g now ev s = Inr x\<close> x
        by (cases y, cases "api_run g ys (fst y)") auto
    qed (simp add: Cons.IH p Inr x)
  qed (simp add: p)
qed

lemma writing_client:
  obtains s0 s2 e where "api_init g db r s0" "reach (api_init g db r) (api_step g) s2"
    "api_run g [(0, EvConnect 0), (0, EvPost new_HeartbeatCommand 0 Type_Req), (0, EvIdle)] s0 = Inr (s2, e)"
    "run_ok g [(0, EvConnect 0), (0, EvPost new_HeartbeatCommand 0 Type_Req), (0, EvIdle)] s0"
    "writes e = [package_image new_HeartbeatCommand 0 Type_Req]" "bReqWritereqBusy s2" "nHead (sendCache s2) = 0"
proof -
  let ?P = "package_image new_HeartbeatCommand 0 Type_Req"
  obtain s0 s1 where s1: "api_init g db r s0" "reach (api_init g db r) (api_step g) s1"
    "api_run g [(0, EvConnect 0), (0, EvPost new_HeartbeatCommand 0 Type_Req)] s0 =
       Inr (s1, [UvReadStart, UvIdleStart, Queued ?P])"
    "bConnected s1" "\<not> bReqWritereqBusy s1" "queued s1 = [?P]" "nHead (sendCache s1) = 0"
    using queued_client [of g db r] by metis
  have inv: "send_inv s1" using api_sys.reach_inv [OF s1(2)] by (simp add: client_inv_def)
  obtain s2 e where s2: "idle_cb g 0 s1 = Inr (s2, e)" "nHead (sendCache s2) = 0" "bReqWritereqBusy s2"
    "writes e = [?P]"
    using idle_cb_spec [OF inv, of g 0] s1(4-7) by (metis list.distinct(1) list.sel(1))
  have "api_handle g 0 EvIdle s1 = Inr (s2, e)" using s2(1) by simp
  then have "api_step g s1 s2" by (rule api_step [rotated]) simp
  with s1(2) have "reach (api_init g db r) (api_step g) s2" by (rule reach_step)
  moreover have "api_run g [(0, EvConnect 0), (0, EvPost new_HeartbeatCommand 0 Type_Req), (0, EvIdle)] s0 =
      Inr (s2, [UvReadStart, UvIdleStart, Queued ?P] @ e)"
    using s1(3) s2(1) api_run_append [of g "[(0, EvConnect 0), (0, EvPost new_HeartbeatCommand 0 Type_Req)]" "[(0, EvIdle)]" s0]
    by (simp del: api_run.simps(2) add: api_run.simps(2) [of _ _ EvIdle])
  moreover have "run_ok g [(0, EvConnect 0), (0, EvPost new_HeartbeatCommand 0 Type_Req), (0, EvIdle)] s0"
    by (cases "connect_cb 0 s0") (simp split: sum.splits)
  ultimately show ?thesis by (rule that [OF s1(1)]) (use s2 in simp_all)
qed

section \<open>Properties\<close>

text \<open>C1: reassembly of the package stream: on a fresh connection of a client with an SPI, whatever
  way libuv cuts the byte stream of a sequence of packages into reads (each at least one byte and at
  most what \<open>alloc_cb\<close> asked for), the SPI gets exactly the commands of the packages, in order,
  nothing is left over and no access leaves the receive buffer.\<close>

theorem client_reassembles_stream:
  assumes "new_SolcomApi g (new_TestCommand g db r) = Inr s0"
    and "\<forall>(y, _, _)\<in>set msgs. obj_ok y"
    and "length (concat (map (\<lambda>(y, r, q). package_image y r q) msgs)) \<le> length ks"
  shows "\<exists>s'. uv_stream g ks (concat (map (\<lambda>(y, r, q). package_image y r q) msgs)) now
      (fst (connect_cb 0 (RegistSpi True s0))) =
    Inr ([], s', concat (map (\<lambda>(y, r, q). [SpiRecvMsg y, SpiPrint y]) msgs))"
proof -
  let ?s = "fst (connect_cb 0 (RegistSpi True s0))"
  obtain s where s: "new_SolcomApi g (new_TestCommand g db r) = Inr s" "client_inv s" "recvStat s = Type_RecvHead"
    "serializeObjCache s = \<lparr>hbCmd = new_HeartbeatCommand, tstCmd = new_TestCommand g db r\<rparr>"
    using new_SolcomApi_spec [of g "new_TestCommand g db r"] by metis
  have e: "s0 = s" using s(1) assms(1) by simp
  have ri: "recv_inv ?s"
    by (rule connect_cb_recv) (use s(2) in \<open>simp add: e client_inv_def RegistSpi_def recv_inv_def\<close>)
  have mid: "mid ?s [] []"
    using ri s(3) by (simp add: mid_def e connect_cb_def RegistSpi_def content_Init)
  have sc: "solcomSpi ?s" "cache_ok ?s"
    using s(4) by (simp_all add: e connect_cb_def RegistSpi_def cache_ok_def new_HeartbeatCommand_def new_TestCommand_def)
  show ?thesis using uv_stream_messages [OF mid sc assms(2,3), of g now] by (auto simp: spi_calls_def)
qed

theorem client_reassembles_stream_witness:
  "\<exists>s0 s'. new_SolcomApi (\<lambda>_. 0) (new_TestCommand (\<lambda>_. 0) 0 0) = Inr s0 \<and>
    uv_stream (\<lambda>_. 0) (replicate 70 4)
      (concat (map (\<lambda>(y, r, q). package_image y r q)
        [(HeartbeatCommand 1, 0, Type_Req), (TestCommand 2 (replicate 32 65) 7 9, 5, Type_Rtn)])) 0
      (fst (connect_cb 0 (RegistSpi True s0))) =
    Inr ([], s', [SpiRecvMsg (HeartbeatCommand 1), SpiPrint (HeartbeatCommand 1),
      SpiRecvMsg (TestCommand 2 (replicate 32 65) 7 9), SpiPrint (TestCommand 2 (replicate 32 65) 7 9)])"
proof -
  let ?ms = "[(HeartbeatCommand 1, 0, Type_Req), (TestCommand 2 (replicate 32 65) 7 9, 5, Type_Rtn)]"
  obtain s0 where s0: "new_SolcomApi (\<lambda>_. 0) (new_TestCommand (\<lambda>_. 0) 0 0) = Inr s0"
    using new_SolcomApi_spec by metis
  have ok: "\<forall>(y, _, _)\<in>set ?ms. obj_ok y" by (simp add: TypeReq_Heartbeat_def TypeReq_TestCmd_def)
  have len: "length (concat (map (\<lambda>(y, r, q). package_image y r q) ?ms)) \<le> length (replicate 70 (4 :: nat))"
    by (simp add: package_image_def)
  show ?thesis using s0 client_reassembles_stream [OF s0 ok len, of 0] by simp
qed





text \<open>C28: \<open>PostRequest\<close> on every branch: not connected gives \<open>ERR_NETWORK\<close>, a full ring gives
  \<open>ERR_NO_BUFFER\<close>, both without any change of state; otherwise the result is \<open>ERR_SUCCESS\<close> and the
  package appended to the queue is the 12-byte head with the body length and the request id,
  followed by the image of the command.\<close>

theorem PostRequest_behaviour:
  assumes "reach (api_init g db r) (api_step g) s" and "obj_ok m"
  shows "\<exists>rc s' e. PostRequest g m i s = Inr (rc, s', e) \<and>
    (if \<not> bConnected s then rc = ERR_NETWORK \<and> s' = s
     else if length (queued s) = capacity (sendCache s) then rc = ERR_NO_BUFFER \<and> s' = s
     else rc = ERR_SUCCESS \<and> queued s' = queued s @ [package_image m i Type_Req])"
proof -
  have inv: "send_inv s" using api_sys.reach_inv [OF assms(1)] by (simp add: client_inv_def)
  then have wf: "rb_wf (sendCache s)" by (simp add: send_inv_def)
  then have full: "length (queued s) < capacity (sendCache s) \<longleftrightarrow> length (queued s) \<noteq> capacity (sendCache s)"
    using length_rb_list [OF wf] by (auto simp: queued_def)
  obtain rc s' e where p: "postMsg g m i Type_Req s = Inr (rc, s', e)" "queued s' = queued s @ queuings e"
    "rc = (if \<not> bConnected s then ERR_NETWORK
           else if length (queued s) < capacity (sendCache s) then ERR_SUCCESS else ERR_NO_BUFFER)"
    "rc = ERR_SUCCESS \<Longrightarrow> e = [Queued (package_image m i Type_Req)]" "rc \<noteq> ERR_SUCCESS \<Longrightarrow> s' = s \<and> e = []"
    using postMsg_spec [OF inv assms(2), of g i Type_Req] by metis
  show ?thesis
    unfolding PostRequest_def p(1)
    using p(2-5) by (intro exI [of _ rc] exI [of _ s'] exI [of _ e])
      (auto simp: full ERR_SUCCESS_def ERR_NETWORK_def ERR_NO_BUFFER_def)
qed

theorem PostRequest_behaviour_witness:
  "\<exists>s rc s' e. bConnected s \<and> length (queued s) = 1 \<and>
    PostRequest (\<lambda>_. 0) (TestCommand 2 (replicate 32 65) 7 9) 5 s = Inr (rc, s', e) \<and>
    (if length (queued s) = capacity (sendCache s) then rc = ERR_NO_BUFFER \<and> s' = s
     else rc = ERR_SUCCESS \<and> queued s' = queued s @ [package_image (TestCommand 2 (replicate 32 65) 7 9) 5 Type_Req])"
proof -
  obtain s where s: "reach (api_init (\<lambda>_. 0) 0 0) (api_step (\<lambda>_. 0)) s" "bConnected s"
    "queued s = [package_image new_HeartbeatCommand 0 Type_Req]"
    using queued_client [of "\<lambda>_. 0" 0 0] by metis
  have ok: "obj_ok (TestCommand 2 (replicate 32 65) 7 9)" by (simp add: TypeReq_TestCmd_def)
  show ?thesis using s PostRequest_behaviour [OF s(1) ok, of 5] by (intro exI [of _ s]) simp
qed

text \<open>While the client is not stopping, the idle callback never closes the connection and never
  reconnects, however long ago the last byte was read: the interval it compares with
  \<open>MAX_IDLE_INTERVAL\<close> is computed from \<open>lastWrite\<close>, which the heartbeat branch before it keeps
  fresh.\<close>

theorem idle_cb_never_times_out:
  assumes "reach (api_init g db r) (api_step g) s" and "\<not> bStop s"
  shows "\<exists>s' e. idle_cb g now s = Inr (s', e) \<and> UvClose \<notin> set e \<and> bConnected s' = bConnected s"
  using api_sys.reach_inv [OF assms(1)] assms(2) idle_cb_spec [of s g now] unfolding client_inv_def by metis

theorem idle_cb_never_times_out_witness:
  "\<exists>s s' e. bConnected s \<and> \<not> bStop s \<and> idle_cb (\<lambda>_. 0) 1000000 s = Inr (s', e) \<and> UvClose \<notin> set e \<and> bConnected s'"
proof -
  obtain s where s: "reach (api_init (\<lambda>_. 0) 0 0) (api_step (\<lambda>_. 0)) s" "bConnected s" "\<not> bStop s"
    using queued_client [of "\<lambda>_. 0" 0 0] by metis
  show ?thesis using s(2,3) idle_cb_never_times_out [OF s(1,3), of 1000000] by metis
qed

text \<open>C29: a failed write silences the client for good: \<open>req_write_cb\<close> with a negative status leaves
  \<open>bReqWritereqBusy\<close> set, and from then on no run (reconnects and new requests included) hands
  another package to \<open>uv_write\<close>.\<close>

theorem write_error_stops_sending:
  assumes "reach (api_init g db r) (api_step g) s" and "bReqWritereqBusy s" and "nHead (sendCache s) \<noteq> - 1"
    and "st < 0" and "run_ok g evs (fst (req_write_cb st now s))"
    and "\<forall>(_, ev)\<in>set evs. \<forall>st. ev \<noteq> EvWritten st"
    and "api_run g evs (fst (req_write_cb st now s)) = Inr (t, e)"
  shows "writes e = []"
proof -
  let ?s = "fst (req_write_cb st now s)"
  have "api_handle g now (EvWritten st) s = Inr (?s, snd (req_write_cb st now s))" by simp
  then have "client_inv ?s" using api_handle_inv(1) [OF api_sys.reach_inv [OF assms(1)]] assms(2,3) by (metis ev_ok.simps(4))
  moreover have "bReqWritereqBusy ?s" using assms(2,4) by (simp add: req_write_cb_def closeConnection_def)
  ultimately show ?thesis using busy_run assms(5-7) by metis
qed

theorem write_error_stops_sending_witness:
  "\<exists>s t e. bReqWritereqBusy s \<and>
    api_run (\<lambda>_. 0) [(5, EvConnect 0), (6, EvIdle)] (fst (req_write_cb (- 32) 4 s)) = Inr (t, e) \<and> writes e = []"
proof -
  obtain s where s: "reach (api_init (\<lambda>_. 0) 0 0) (api_step (\<lambda>_. 0)) s" "bReqWritereqBusy s" "nHead (sendCache s) = 0"
    using writing_client [of "\<lambda>_. 0" 0 0] by metis
  then have "client_inv s" using api_sys.reach_inv by blast
  let ?s = "fst (connect_cb 0 (fst (req_write_cb (- 32) 4 s)))"
  have "send_inv ?s"
    using \<open>client_inv s\<close> by (simp add: req_write_cb_def closeConnection_def connect_cb_def client_inv_def send_inv_def)
  then obtain t e where "idle_cb (\<lambda>_. 0) 6 ?s = Inr (t, e)" using idle_cb_spec by metis
  then have run: "api_run (\<lambda>_. 0) [(5, EvConnect 0), (6, EvIdle)] (fst (req_write_cb (- 32) 4 s)) =
      Inr (t, snd (connect_cb 0 (fst (req_write_cb (- 32) 4 s))) @ e)"
    by (cases "connect_cb 0 (fst (req_write_cb (- 32) 4 s))") simp
  have ok: "run_ok (\<lambda>_. 0) [(5, EvConnect 0), (6, EvIdle)] (fst (req_write_cb (- 32) 4 s))"
    by (simp split: sum.splits prod.splits)
  have h: "nHead (sendCache s) \<noteq> - 1" using s(3) by simp
  from write_error_stops_sending [OF s(1,2) h _ ok _ run] s(2) run show ?thesis by fastforce
qed

text \<open>C30: a connection that broke inside a package poisons the next one: \<open>connect_cb\<close> resets the
  buffer and the expected length but not \<open>recvStat\<close>, so the 12-byte head that opens the new stream is
  handled as if it were a body (the type byte is read behind it) and its body length is never used:
  the client then waits for a head in the middle of the package.\<close>

theorem reconnect_inside_package_desynchronises:
  assumes "reach (api_init g db r) (api_step g) s" and "recvStat s = Type_RecvBody" and "length d = 12"
    and "deliver g d now (fst (connect_cb 0 s)) = Inr (t, e)"
  shows "recvStat t = Type_RecvHead \<and> nNeedRead t = 12"
proof -
  let ?s = "fst (connect_cb 0 s)"
  have inv: "recv_inv ?s" using api_sys.reach_inv [OF assms(1)] by (simp add: client_inv_def connect_cb_recv)
  have st: "recvStat ?s = Type_RecvBody" and need: "int (length d) = nNeedRead ?s"
    using assms(2,3) by (simp_all add: connect_cb_def PackageHeadLen_def)
  obtain h b where "decodeHead (landed d (recvBuffer ?s)) = Inr (h, b)" using landed_head [OF inv need] by metis
  moreover have "d \<noteq> []" using assms(3) by auto
  ultimately have "deliver g d now ?s = rbind (reqHandle (?s\<lparr>recvBuffer := b\<rparr>)) (\<lambda>(s3, e).
    Inr (s3\<lparr>recvBuffer := Init (recvBuffer s3), recvStat := Type_RecvHead, nNeedRead := 12, lastRead := now\<rparr>, e))"
    using deliver_body [OF inv _ need st] by blast
  then have "rbind (reqHandle (?s\<lparr>recvBuffer := b\<rparr>)) (\<lambda>(s3, e).
    Inr (s3\<lparr>recvBuffer := Init (recvBuffer s3), recvStat := Type_RecvHead, nNeedRead := 12, lastRead := now\<rparr>, e))
      = Inr (t, e)"
    using assms(4) by simp
  then show ?thesis by (auto simp: rbind_Inr)
qed


theorem reconnect_inside_package_desynchronises_witness:
  "\<exists>s t e. recvStat s = Type_RecvBody \<and>
    deliver (\<lambda>_. 0) (enc_head (package_head new_HeartbeatCommand 0 Type_Req)) 9 (fst (connect_cb 0 s)) = Inr (t, e) \<and>
    recvStat t = Type_RecvHead \<and> nNeedRead t = 12"
proof -
  define g :: "nat \<Rightarrow> byte" where "g = (\<lambda>_. 0)"
  define d where "d = enc_head (package_head new_HeartbeatCommand 0 Type_Req)"
  define P where "P = package_image new_HeartbeatCommand 0 Type_Req"
  have ld: "length d = 12" by (simp add: d_def)
  obtain s0 where s0: "new_SolcomApi g (new_TestCommand g 0 0) = Inr s0" "client_inv s0"
    "recvStat s0 = Type_RecvHead" "content (recvBuffer s0) = []" "nRight (recvBuffer s0) = 0"
    using new_SolcomApi_spec [of g "new_TestCommand g 0 0"] by metis
  then have m: "mid s0 P []" and need: "int (length d) \<le> nNeedRead s0"
    by (auto simp: mid_def client_inv_def recv_inv_def Let_def ld)
  have spi: "\<not> solcomSpi s0" using s0(1) by (auto simp: new_SolcomApi_def rbind_Inr)
  have P: "P = [] @ d @ ser_image new_HeartbeatCommand" by (simp add: package_image_def P_def d_def)
  have dn: "d \<noteq> []" using ld by auto
  obtain s1 where s1: "deliver g d 0 s0 = Inr (s1, [])" "mid s1 P ([] @ d)" "solcomSpi s1 = solcomSpi s0"
    using deliver_mid_more [OF m P_def new_Heartbeat_ok dn ser_image_nonempty P need] by metis
  have st: "recvStat s1 = Type_RecvBody" using s1(2) by (simp add: mid_def ld)
  have "api_handle g 0 (EvRead d) s0 = Inr (s1, [])" using s1(1) by simp
  then have "api_step g s0 s1" by (rule api_step [rotated]) (use need in simp)
  moreover have "reach (api_init g 0 0) (api_step g) s0" by (rule reach_init) (simp add: api_init_def s0(1))
  ultimately have r: "reach (api_init g 0 0) (api_step g) s1" using reach_step by metis
  let ?s = "fst (connect_cb 0 s1)"
  have inv: "recv_inv ?s" using s1(2) by (simp add: mid_def connect_cb_recv)
  have need2: "int (length d) = nNeedRead ?s" and st2: "recvStat ?s = Type_RecvBody" and spi2: "\<not> solcomSpi ?s"
    using st spi s1(3) by (simp_all add: connect_cb_def PackageHeadLen_def ld)
  obtain h b where b: "decodeHead (landed d (recvBuffer ?s)) = Inr (h, b)"
    using landed_head [OF inv need2] by blast
  have "reqHandle (?s\<lparr>recvBuffer := b\<rparr>) = Inr (?s\<lparr>recvBuffer := b\<rparr>, [])"
    using spi2 by (simp add: reqHandle_def)
  then have "\<exists>t e. deliver g d 9 ?s = Inr (t, e)"
    by (simp only: deliver_body [OF inv dn need2 st2 b] rbind_simps prod.case) blast
  then show ?thesis
    unfolding g_def [symmetric] d_def [symmetric]
    using st reconnect_inside_package_desynchronises [OF r st ld, of 9] by blast
qed

text \<open>Progress of the sender: a round of the idle callback of a connected client with a queued
  package and no write under way hands exactly the oldest queued package to \<open>uv_write\<close>.\<close>

theorem idle_cb_writes_oldest:
  assumes "reach (api_init g db r) (api_step g) s" and "bConnected s" and "\<not> bReqWritereqBusy s" and "queued s \<noteq> []"
  shows "\<exists>s' e. idle_cb g now s = Inr (s', e) \<and> writes e = [hd (queued s)] \<and> bReqWritereqBusy s'"
  using api_sys.reach_inv [OF assms(1)] assms(2-4) idle_cb_spec [of s g now] unfolding client_inv_def by metis

theorem idle_cb_writes_oldest_witness:
  "\<exists>s s' e. queued s = [package_image new_HeartbeatCommand 0 Type_Req] \<and> idle_cb (\<lambda>_. 0) 1 s = Inr (s', e) \<and>
    writes e = [package_image new_HeartbeatCommand 0 Type_Req] \<and> bReqWritereqBusy s'"
proof -
  obtain s where s: "reach (api_init (\<lambda>_. 0) 0 0) (api_step (\<lambda>_. 0)) s" "bConnected s" "\<not> bReqWritereqBusy s"
    "queued s = [package_image new_HeartbeatCommand 0 Type_Req]"
    using queued_client [of "\<lambda>_. 0" 0 0] by metis
  then have ne: "queued s \<noteq> []" by simp
  show ?thesis using s(4) idle_cb_writes_oldest [OF s(1-3) ne, of 1] by auto
qed

end
