(* ===== verification/SolServer.thy ===== *)
theory SolServer
  imports SolClient
begin

text \<open>
  \<^verbatim>\<open>solcomapi/src/SolConnServer.{h,cpp}\<close> and \<^verbatim>\<open>SolConnClient.{h,cpp}\<close>: the server side of
  solcomapi. A \<open>SolConnClient *\<close> is an index into a heap of connection objects; \<open>delete\<close> removes
  the object, and using it afterwards is the fault \<open>UseAfterFree\<close>. As on the client side libuv is a
  list of logged calls, the arguments of the callbacks come from libuv and \<open>now\<close> is the clock.
\<close>

section \<open>Connection objects\<close>

record SolConnClient =
  c_data :: bool
  reqBuffer :: "CByteArray \<times> bool"
  c_ackBuffer :: "CByteArray \<times> bool"
  c_recvBuffer :: CByteArray
  c_recvStat :: ERecvStatType
  c_nNeedRead :: int
  c_lastRead :: int
  c_lastWrite :: int
  c_bConnected :: bool
  objKey :: string

definition new_SolConnClient :: "(nat \<Rightarrow> byte) \<Rightarrow> SolConnClient" where
  "new_SolConnClient g =
     \<lparr>c_data = False, reqBuffer = (new_CByteArray g 1424, False), c_ackBuffer = (new_CByteArray g 1424, False),
      c_recvBuffer = new_CByteArray g 1424, c_recvStat = Type_RecvHead, c_nNeedRead = int PackageHeadLen,
      c_lastRead = 0, c_lastWrite = 0, c_bConnected = False, objKey = ''''\<rparr>"

definition getObjectKey :: "SolConnClient \<Rightarrow> string" where
  "getObjectKey c = objKey c"

record CommandTask =
  t_reqRtnType :: u8
  t_requestID :: i32
  t_client :: nat
  t_cmd :: ISerializable

record SolConnServer =
  heap :: "nat \<Rightarrow> SolConnClient option"
  nextId :: nat
  mapConnClient :: "(string \<times> nat) list"
  s_bStop :: bool
  listWevent :: "nat list"
  listWeventBck :: "nat list"
  works :: "CommandTask list"

datatype srv_call =
    SrvClose nat | SrvWrite nat bytes | SrvReadStart nat | SrvListen | SrvCloseListen | SrvTimerStart int int
  | SrvTimerStop | SrvIdleStart | SrvIdleStop | SrvRun | SrvLoopStop | SrvPrint ISerializable | SrvLog string

type_synonym srv_outcome = "(SolConnServer \<times> srv_call list) res"

definition new_SolConnServer :: SolConnServer where
  "new_SolConnServer =
     \<lparr>heap = (\<lambda>_. None), nextId = 0, mapConnClient = [], s_bStop = False,
      listWevent = [], listWeventBck = [], works = []\<rparr>"

definition srv_Start :: "SolConnServer \<Rightarrow> SolConnServer" where "srv_Start s = s\<lparr>s_bStop := False\<rparr>"
definition srv_Stop :: "SolConnServer \<Rightarrow> SolConnServer" where "srv_Stop s = s\<lparr>s_bStop := True\<rparr>"

text \<open>One round of the loop thread up to \<open>uv_run\<close>.\<close>

definition srv_loop_round :: "SolConnServer \<Rightarrow> srv_call list" where
  "srv_loop_round s =
     (if \<not> s_bStop s then [SrvIdleStart, SrvTimerStart 100 10000, SrvListen, SrvRun] else [])"

text \<open>Access through a \<open>SolConnClient *\<close>.\<close>

definition deref :: "nat \<Rightarrow> SolConnServer \<Rightarrow> SolConnClient res" where
  "deref i s = (case heap s i of None \<Rightarrow> Inl UseAfterFree | Some c \<Rightarrow> Inr c)"

definition put :: "nat \<Rightarrow> SolConnClient \<Rightarrow> SolConnServer \<Rightarrow> SolConnServer" where
  "put i c s = s\<lparr>heap := (heap s)(i := Some c)\<rparr>"

section \<open>Write registration\<close>

definition WPOLL_ADD :: int where "WPOLL_ADD = 0"
definition WPOLL_DEL :: int where "WPOLL_DEL = 1"

text \<open>The loop of \<open>WPOLL_DEL\<close> increments the iterator it has just erased.\<close>

fun wevent_del :: "nat \<Rightarrow> nat list \<Rightarrow> nat list res" where
  "wevent_del i [] = Inr []"
| "wevent_del i (x # xs) =
     (if x = i then Inl BadIterator else rbind (wevent_del i xs) (\<lambda>ys. Inr (x # ys)))"

definition WeventCtl :: "nat \<Rightarrow> int \<Rightarrow> SolConnServer \<Rightarrow> SolConnServer res" where
  "WeventCtl i operate s =
     (if operate = WPOLL_ADD then Inr (s\<lparr>listWevent := listWevent s @ [i]\<rparr>)
      else if operate = WPOLL_DEL
      then rbind (wevent_del i (listWevent s)) (\<lambda>l. Inr (s\<lparr>listWevent := l\<rparr>))
      else Inr s)"

section \<open>Answers\<close>

text \<open>
  The wait loop of \<open>SolConnClient::postMsg\<close>: \<open>obs k\<close> is the flag \<open>reqBuffer.second\<close> at its
  \<open>k\<close>-th test (the loop thread clears it in \<open>req_write_cb\<close>). The counter compared with the
  timeout is never incremented.
\<close>

partial_function (option) wait_req :: "(nat \<Rightarrow> bool) \<Rightarrow> int \<Rightarrow> nat \<Rightarrow> nat option" where
  "wait_req obs timeout k =
     (let ncouts = 0 in if obs k \<and> ncouts < timeout then wait_req obs timeout (Suc k) else Some k)"

text \<open>\<open>postMsg\<close> of a connection: the wait, then the package into the single request buffer and the
  registration with the server. \<open>i\<close> is \<open>this\<close>.\<close>

definition conn_postMsg ::
  "(nat \<Rightarrow> byte) \<Rightarrow> (nat \<Rightarrow> bool) \<Rightarrow> nat \<Rightarrow> ISerializable \<Rightarrow> int \<Rightarrow> i32 \<Rightarrow> EPkgReqRtnType \<Rightarrow>
   SolConnServer \<Rightarrow> (int \<times> SolConnServer) res" where
  "conn_postMsg g obs i msg timeout reqid reqRtn s =
     rbind (deref i s) (\<lambda>c.
     if c_bConnected c \<and> c_data c \<and> \<not> s_bStop s then
       (case wait_req obs timeout 0 of
          None \<Rightarrow> Inl NonTermination
        | Some k \<Rightarrow>
            if obs k then Inr (-1, s)
            else rbind (build_package g msg reqid reqRtn (fst (reqBuffer c))) (\<lambda>b.
                 rbind (WeventCtl i WPOLL_ADD (put i (c\<lparr>reqBuffer := (b, True)\<rparr>) s)) (\<lambda>s1.
                 Inr (0, s1))))
     else Inr (-2, s))"

text \<open>\<open>tst\<close> is the test command the constructor makes.\<close>

definition CmdHandle ::
  "(nat \<Rightarrow> byte) \<Rightarrow> (nat \<Rightarrow> bool) \<Rightarrow> ISerializable \<Rightarrow> nat \<Rightarrow> ISerializable \<Rightarrow> SolConnServer \<Rightarrow> srv_outcome" where
  "CmdHandle g obs tst i cmd s =
     (if nType cmd = TypeReq_Heartbeat
      then rbind (conn_postMsg g obs i new_HeartbeatCommand 1 0 Type_Req s) (\<lambda>(rc, s1). Inr (s1, [SrvPrint cmd]))
      else if nType cmd = TypeReq_TestCmd
      then rbind (conn_postMsg g obs i tst 1 0 Type_Req s) (\<lambda>(rc, s1). Inr (s1, [SrvPrint cmd]))
      else Inr (s, []))"

text \<open>\<open>work_cb\<close> on a pool thread and \<open>after_work_cb\<close>, which frees the task, for the oldest task.\<close>

definition work_cb :: "(nat \<Rightarrow> byte) \<Rightarrow> (nat \<Rightarrow> bool) \<Rightarrow> ISerializable \<Rightarrow> SolConnServer \<Rightarrow> srv_outcome" where
  "work_cb g obs tst s =
     (case works s of
        [] \<Rightarrow> Inr (s, [])
      | t # ts \<Rightarrow> CmdHandle g obs tst (t_client t) (t_cmd t) (s\<lparr>works := ts\<rparr>))"

section \<open>Connections\<close>

definition closeClient :: "nat \<Rightarrow> SolConnServer \<Rightarrow> srv_outcome" where
  "closeClient i s =
     rbind (deref i s) (\<lambda>c.
     Inr (put i (c\<lparr>c_bConnected := False\<rparr>) s, if c_bConnected c then [SrvClose i] else []))"

text \<open>A connection: the object is made whatever the status, and \<open>insert\<close> keeps an entry that is
  already there. \<open>acc\<close> is the result of \<open>uv_accept\<close>, \<open>key\<close> the peer's address and port.\<close>

definition srv_connect_cb ::
  "(nat \<Rightarrow> byte) \<Rightarrow> int \<Rightarrow> int \<Rightarrow> string \<Rightarrow> int \<Rightarrow> SolConnServer \<Rightarrow> SolConnServer \<times> srv_call list" where
  "srv_connect_cb g status acc key now s =
     (let i = nextId s;
          s1 = s\<lparr>nextId := Suc i\<rparr>;
          log = (if status < 0 then [SrvLog ''Error on Listening''] else []) in
      if acc = 0 then
        (put i ((new_SolConnClient g)\<lparr>objKey := key, c_data := True, c_lastRead := now, c_lastWrite := now,
                                      c_bConnected := True\<rparr>)
           (s1\<lparr>mapConnClient := (if map_of (mapConnClient s) key = None
                                  then (key, i) # mapConnClient s else mapConnClient s)\<rparr>),
         log @ [SrvReadStart i])
      else (put i (new_SolConnClient g) s1, log @ [SrvClose i]))"

definition srv_alloc_cb :: "SolConnClient \<Rightarrow> int \<times> int" where
  "srv_alloc_cb c = (RightPos (c_recvBuffer c), c_nNeedRead c)"

definition UV_ECANCELED :: int where "UV_ECANCELED = - 125"

text \<open>The part of \<open>read_cb\<close> that works on the connection: the new connection object and the tasks
  it queues.\<close>

definition conn_read ::
  "(nat \<Rightarrow> byte) \<Rightarrow> ISerializable \<Rightarrow> nat \<Rightarrow> int \<Rightarrow> SolConnClient \<Rightarrow> (SolConnClient \<times> CommandTask list) res" where
  "conn_read g tst i nread c =
     (let c1 = c\<lparr>c_recvBuffer := RightForward nread (c_recvBuffer c)\<rparr> in
      if nread = c_nNeedRead c1 then
        (if c_recvStat c1 = Type_RecvHead then
           rbind (decodeHead (c_recvBuffer c1)) (\<lambda>(pkghead, b).
           let need = uint (pkgBodyLen pkghead); b2 = LeftBackward (int PackageHeadLen) b in
           rbind (if Capacity b2 < need + int PackageHeadLen
                  then Reallocate g (need + int PackageHeadLen) b2 else Inr b2) (\<lambda>b3.
           Inr (c1\<lparr>c_nNeedRead := need, c_recvStat := Type_RecvBody, c_recvBuffer := b3\<rparr>, [])))
         else
           rbind (decodeHead (c_recvBuffer c1)) (\<lambda>(pkghead, b).
           rbind (mem_read (LeftPos b) 1 (pCharArr b)) (\<lambda>p.
           case CreateObject tst (dec_u8 p) of
             None \<Rightarrow> Inl NullDeref
           | Some obj \<Rightarrow>
               rbind (decodeSerializeObj obj b) (\<lambda>(cmd, b4).
               Inr (c1\<lparr>c_recvBuffer := Init b4, c_recvStat := Type_RecvHead, c_nNeedRead := int PackageHeadLen\<rparr>,
                    [\<lparr>t_reqRtnType = reqRtnType pkghead, t_requestID = ucast (requestID pkghead),
                      t_client = i, t_cmd = cmd\<rparr>])))))
      else Inr (c1\<lparr>c_nNeedRead := c_nNeedRead c1 - nread\<rparr>, []))"

definition srv_read_cb ::
  "(nat \<Rightarrow> byte) \<Rightarrow> ISerializable \<Rightarrow> nat \<Rightarrow> int \<Rightarrow> int \<Rightarrow> SolConnServer \<Rightarrow> srv_outcome" where
  "srv_read_cb g tst i nread now s =
     rbind (deref i s) (\<lambda>c.
     if nread > 0 then
       rbind (conn_read g tst i nread c) (\<lambda>(c1, ts).
       Inr (put i (c1\<lparr>c_lastRead := now\<rparr>) (s\<lparr>works := works s @ ts\<rparr>), []))
     else if nread = 0 then Inr (put i (c\<lparr>c_lastRead := now\<rparr>) s, [])
     else if nread \<noteq> UV_ECANCELED then closeClient i s
     else Inr (s, []))"

text \<open>One successful read on a connection: \<open>alloc_cb\<close>, the store by libuv, \<open>read_cb\<close>.\<close>

definition srv_deliver ::
  "(nat \<Rightarrow> byte) \<Rightarrow> ISerializable \<Rightarrow> nat \<Rightarrow> bytes \<Rightarrow> int \<Rightarrow> SolConnServer \<Rightarrow> srv_outcome" where
  "srv_deliver g tst i d now s =
     rbind (deref i s) (\<lambda>c.
     rbind (mem_write (fst (srv_alloc_cb c)) d (pCharArr (c_recvBuffer c))) (\<lambda>m.
     srv_read_cb g tst i (int (length d)) now
       (put i (c\<lparr>c_recvBuffer := (c_recvBuffer c)\<lparr>pCharArr := m\<rparr>\<rparr>) s)))"

definition srv_req_write_cb :: "nat \<Rightarrow> int \<Rightarrow> int \<Rightarrow> SolConnServer \<Rightarrow> srv_outcome" where
  "srv_req_write_cb i status now s =
     rbind (deref i s) (\<lambda>c.
     let c1 = c\<lparr>reqBuffer := (Init (fst (reqBuffer c)), False)\<rparr> in
     if status < 0
     then (if status \<noteq> UV_ECANCELED then closeClient i (put i c1 s) else Inr (put i c1 s, []))
     else Inr (put i (c1\<lparr>c_lastWrite := now\<rparr>) s, []))"

section \<open>Timer and idle callback\<close>

text \<open>Idle times are \<open>uint64_t\<close>: a clock that went back gives a huge idle time.\<close>

definition idle_time :: "int \<Rightarrow> int \<Rightarrow> u64" where
  "idle_time now t = word_of_int now - word_of_int t"

definition timed_out :: "int \<Rightarrow> SolConnClient \<Rightarrow> bool" where
  "timed_out now c \<longleftrightarrow> idle_time now (c_lastRead c) > 100 \<and> idle_time now (c_lastWrite c) > 100"

fun hbt_loop :: "int \<Rightarrow> (string \<times> nat) list \<Rightarrow> SolConnServer \<Rightarrow> ((string \<times> nat) list \<times> SolConnServer \<times> srv_call list) res" where
  "hbt_loop now [] s = Inr ([], s, [])"
| "hbt_loop now ((k, i) # es) s =
     rbind (deref i s) (\<lambda>c.
     if timed_out now c then
       rbind (closeClient i s) (\<lambda>(s1, e1).
       rbind (hbt_loop now es (s1\<lparr>heap := (heap s1)(i := None)\<rparr>)) (\<lambda>(es2, s2, e2).
       Inr (es2, s2, e1 @ SrvLog (getObjectKey c) # e2)))
     else
       rbind (hbt_loop now es s) (\<lambda>(es2, s2, e2). Inr ((k, i) # es2, s2, e2)))"

definition hbt_timer_cb :: "int \<Rightarrow> SolConnServer \<Rightarrow> srv_outcome" where
  "hbt_timer_cb now s =
     rbind (hbt_loop now (mapConnClient s) s) (\<lambda>(es, s1, e). Inr (s1\<lparr>mapConnClient := es\<rparr>, e))"

text \<open>\<open>writeHandle\<close>: swap the two lists and write the request buffer of each registered connection.\<close>

fun write_loop :: "nat list \<Rightarrow> SolConnServer \<Rightarrow> srv_call list res" where
  "write_loop [] s = Inr []"
| "write_loop (i # is) s =
     rbind (deref i s) (\<lambda>c.
     rbind (write_loop is s) (\<lambda>e.
     let b = fst (reqBuffer c) in
     Inr ((if c_bConnected c then [SrvWrite i (take (nat (RightPos b)) (pCharArr b))] else []) @ e)))"

definition writeHandle :: "SolConnServer \<Rightarrow> srv_outcome" where
  "writeHandle s =
     (let s1 = s\<lparr>listWevent := listWeventBck s, listWeventBck := listWevent s\<rparr> in
      rbind (write_loop (listWeventBck s1) s1) (\<lambda>e. Inr (s1\<lparr>listWeventBck := []\<rparr>, e)))"

fun close_all :: "(string \<times> nat) list \<Rightarrow> SolConnServer \<Rightarrow> srv_outcome" where
  "close_all [] s = Inr (s, [])"
| "close_all ((k, i) # es) s =
     rbind (closeClient i s) (\<lambda>(s1, e1). rbind (close_all es s1) (\<lambda>(s2, e2). Inr (s2, e1 @ e2)))"

definition srv_idle_cb :: "SolConnServer \<Rightarrow> srv_outcome" where
  "srv_idle_cb s =
     rbind (writeHandle s) (\<lambda>(s1, e1).
     if s_bStop s1 then
       rbind (close_all (mapConnClient s1) (s1\<lparr>listWevent := [], listWeventBck := []\<rparr>)) (\<lambda>(s2, e2).
       Inr (s2, e1 @ e2 @ [SrvCloseListen, SrvTimerStop, SrvIdleStop, SrvLoopStop]))
     else Inr (s1, e1))"

text \<open>The stream of one connection, as for the client.\<close>

fun srv_stream ::
  "(nat \<Rightarrow> byte) \<Rightarrow> ISerializable \<Rightarrow> nat \<Rightarrow> nat list \<Rightarrow> bytes \<Rightarrow> int \<Rightarrow> SolConnServer \<Rightarrow>
   (bytes \<times> SolConnServer \<times> srv_call list) res" where
  "srv_stream g tst i [] bs now s = Inr (bs, s, [])"
| "srv_stream g tst i (k # ks) bs now s =
     rbind (deref i s) (\<lambda>c.
     let d = take (min (Suc k) (nat (snd (srv_alloc_cb c)))) bs in
     rbind (srv_deliver g tst i d now s) (\<lambda>(s1, e1).
     rbind (srv_stream g tst i ks (drop (length d) bs) now s1) (\<lambda>(bs2, s2, e2).
     Inr (bs2, s2, e1 @ e2))))"

section \<open>The receive path refines that of the client\<close>

text \<open>The client state with the receive members of a connection, and the relation the two receive
  paths keep.\<close>

definition as_api :: "SolConnClient \<Rightarrow> SolcomApi" where
  "as_api c =
     \<lparr>solcomSpi = True,
      sendCache = \<lparr>elements = [], capacity = 0, nHead = 0, nCurrent = 0, nTail = - 1\<rparr>,
      ackBuffer = c_ackBuffer c, bConnected = c_bConnected c, bStop = False, bAutoReconn = False,
      serializeObjCache = \<lparr>hbCmd = new_HeartbeatCommand, tstCmd = TestCommand 0 [] 0 0\<rparr>,
      recvBuffer = c_recvBuffer c, recvStat = c_recvStat c, nNeedRead = c_nNeedRead c,
      lastRead = c_lastRead c, lastWrite = c_lastWrite c, bReqWritereqBusy = False,
      servAddr = [], servPort = 0, nMsReconInterval = 0\<rparr>"

definition rel :: "SolcomApi \<Rightarrow> SolConnClient \<Rightarrow> bool" where
  "rel a c \<longleftrightarrow> recvBuffer a = c_recvBuffer c \<and> nNeedRead a = c_nNeedRead c \<and> recvStat a = c_recvStat c \<and>
     solcomSpi a \<and> cache_ok a"

lemma rel_as_api: "rel (as_api c) c"
  by (simp add: rel_def as_api_def cache_ok_def new_HeartbeatCommand_def)

fun received :: "uv_call list \<Rightarrow> ISerializable list" where
  "received [] = []"
| "received (SpiRecvMsg m # es) = m # received es"
| "received (_ # es) = received es"

lemma received_append [simp]: "received (xs @ ys) = received xs @ received ys"
  by (induction xs rule: received.induct) auto

lemma received_OnRecvMsg [simp]: "received (OnRecvMsg m) = []"
  by (simp add: OnRecvMsg_def)

lemma Deserialize_class: "same_class x y \<Longrightarrow> Deserialize x b = Deserialize y b"
  by (cases x; cases y) auto

lemma Deserialize_same_class: "Deserialize x b = Inr (y, b') \<Longrightarrow> same_class x y"
  by (cases x) (auto simp: rbind_Inr)

text \<open>What both sides do with a complete body: the fault, or the command and the buffer after it.\<close>

definition decode_body :: "ISerializable \<Rightarrow> CByteArray \<Rightarrow> (ISerializable \<times> CByteArray) res" where
  "decode_body tst b =
     rbind (mem_read (LeftPos b) 1 (pCharArr b)) (\<lambda>p.
     case CreateObject tst (dec_u8 p) of None \<Rightarrow> Inl NullDeref | Some obj \<Rightarrow> Deserialize obj b)"

definition keeps_recv :: "SolcomApi \<Rightarrow> SolcomApi \<Rightarrow> CByteArray \<Rightarrow> bool" where
  "keeps_recv a a' b \<longleftrightarrow> recvBuffer a' = b \<and> nNeedRead a' = nNeedRead a \<and> recvStat a' = recvStat a \<and> solcomSpi a' \<and> cache_ok a'"

lemma reqHandle_decode:
  assumes "solcomSpi a" and "cache_ok a" and "same_class tst (TestCommand 0 [] 0 0)"
  shows "case decode_body tst (recvBuffer a) of
      Inl f \<Rightarrow> reqHandle a = Inl f
    | Inr (m, b) \<Rightarrow> \<exists>a' e. reqHandle a = Inr (a', e) \<and> received e = [m] \<and> keeps_recv a a' b"
proof (cases "mem_read (LeftPos (recvBuffer a)) 1 (pCharArr (recvBuffer a))")
  case (Inl f)
  then show ?thesis using assms(1) by (simp add: decode_body_def reqHandle_def)
next
  case (Inr p)
  let ?t = "dec_u8 p"
  show ?thesis
  proof (cases "CreateObject tst ?t")
    case None
    then have "GetCachedObj ?t (serializeObjCache a) = None"
      by (auto simp: CreateObject_def GetCachedObj_def split: if_splits)
    with Inr None assms(1) show ?thesis by (simp add: decode_body_def reqHandle_def)
  next
    case (Some obj)
    obtain y where y: "GetCachedObj ?t (serializeObjCache a) = Some y" "same_class y obj"
      and put: "\<And>m b. same_class y m \<Longrightarrow> cache_ok (a\<lparr>recvBuffer := b, serializeObjCache := PutCachedObj ?t m (serializeObjCache a)\<rparr>)"
    proof (cases "?t = TypeReq_Heartbeat")
      case True
      then show ?thesis
        using Some assms(2) by (intro that [of "hbCmd (serializeObjCache a)"])
          (cases "hbCmd (serializeObjCache a)",
           auto simp: CreateObject_def GetCachedObj_def PutCachedObj_def cache_ok_def new_HeartbeatCommand_def elim: same_class.elims)+
    next
      case False
      then have "?t = TypeReq_TestCmd" "obj = tst" using Some by (auto simp: CreateObject_def split: if_splits)
      then show ?thesis
        using False assms(2,3) by (intro that [of "tstCmd (serializeObjCache a)"])
          (cases "tstCmd (serializeObjCache a)"; cases tst,
           auto simp: GetCachedObj_def PutCachedObj_def cache_ok_def elim: same_class.elims)+
    qed
    show ?thesis
    proof (cases "Deserialize obj (recvBuffer a)")
      case f: (Inl f)
      then show ?thesis
        using Inr Some y assms(1) Deserialize_class [OF y(2)]
        by (simp add: decode_body_def reqHandle_def decodeSerializeObj_def)
    next
      case r: (Inr r)
      obtain m b where mb: "r = (m, b)" by fastforce
      have d: "Deserialize y (recvBuffer a) = Inr (m, b)" using r mb Deserialize_class [OF y(2)] by simp
      have "same_class y m" using Deserialize_same_class [OF d] .
      then show ?thesis
        using Inr Some y(1) assms(1) r mb d put
        by (simp add: decode_body_def reqHandle_def decodeSerializeObj_def keeps_recv_def)
    qed
  qed
qed

definition same_conn :: "SolConnClient \<Rightarrow> SolConnClient \<Rightarrow> bool" where
  "same_conn c c' \<longleftrightarrow> c_data c' = c_data c \<and> reqBuffer c' = reqBuffer c \<and> c_bConnected c' = c_bConnected c \<and> objKey c' = objKey c"

definition sim_res :: "SolConnClient \<Rightarrow> outcome \<Rightarrow> (SolConnClient \<times> CommandTask list) res \<Rightarrow> bool" where
  "sim_res c r q \<longleftrightarrow> (case (r, q) of
       (Inl f, Inl f') \<Rightarrow> f = f'
     | (Inr (a', e), Inr (c', ts)) \<Rightarrow> rel a' c' \<and> map t_cmd ts = received e \<and> same_conn c c'
     | _ \<Rightarrow> False)"

lemma conn_sim:
  assumes "rel a c" and "0 < n" and tst: "same_class tst (TestCommand 0 [] 0 0)"
  shows "sim_res c (read_cb g n now a) (conn_read g tst i n c)"
proof -
  have f: "recvBuffer a = c_recvBuffer c" "nNeedRead a = c_nNeedRead c" "recvStat a = c_recvStat c" "solcomSpi a" "cache_ok a"
    using assms(1) by (auto simp: rel_def)
  let ?b = "RightForward n (c_recvBuffer c)"
  show ?thesis
  proof (cases "n = c_nNeedRead c")
    case False
    then show ?thesis
      using assms(2) f by (simp add: sim_res_def read_cb_def conn_read_def rel_def same_conn_def cache_ok_def)
  next
    case True
    show ?thesis
    proof (cases "decodeHead ?b")
      case (Inl x)
      then show ?thesis using True assms(2) f by (simp add: sim_res_def read_cb_def conn_read_def Let_def)
    next
      case (Inr x)
      obtain h b where hb: "x = (h, b)" by fastforce
      show ?thesis
      proof (cases "c_recvStat c")
        case Type_RecvHead
        let ?r = "if Capacity (LeftBackward (int PackageHeadLen) b) < uint (pkgBodyLen h) + int PackageHeadLen
          then Reallocate g (uint (pkgBodyLen h) + int PackageHeadLen) (LeftBackward (int PackageHeadLen) b)
          else Inr (LeftBackward (int PackageHeadLen) b)"
        show ?thesis
          using True assms(2) f Inr hb Type_RecvHead
          by (cases ?r) (simp_all add: sim_res_def read_cb_def conn_read_def rel_def same_conn_def cache_ok_def Let_def split: if_splits)
      next
        case Type_RecvBody
        let ?a = "a\<lparr>recvBuffer := b\<rparr>"
        have pre: "solcomSpi ?a" "cache_ok ?a" using f by (simp_all add: cache_ok_def)
        have rd: "read_cb g n now a = rbind (reqHandle ?a) (\<lambda>(s3, e).
            Inr (s3\<lparr>recvBuffer := Init (recvBuffer s3), recvStat := Type_RecvHead,
              nNeedRead := int PackageHeadLen, lastRead := now\<rparr>, e))"
          using True assms(2) f Inr hb Type_RecvBody
          by (cases "reqHandle ?a") (auto simp: read_cb_def Let_def)
        have cr: "conn_read g tst i n c = rbind (decode_body tst b) (\<lambda>(cmd, b4).
            Inr (c\<lparr>c_recvBuffer := Init b4, c_recvStat := Type_RecvHead, c_nNeedRead := int PackageHeadLen\<rparr>,
              [\<lparr>t_reqRtnType = reqRtnType h, t_requestID = ucast (requestID h), t_client = i, t_cmd = cmd\<rparr>]))"
          using True assms(2) f Inr hb Type_RecvBody
          by (auto simp: conn_read_def decode_body_def decodeSerializeObj_def Let_def rbind_def split: sum.splits option.splits)
        note rq = reqHandle_decode [OF pre tst]
        show ?thesis
        proof (cases "decode_body tst b")
          case (Inl e)
          then show ?thesis using rq by (simp add: rd cr sim_res_def)
        next
          case r: (Inr r)
          obtain m b4 where r2: "r = (m, b4)" by fastforce
          then obtain a' e where a': "reqHandle ?a = Inr (a', e)" "received e = [m]" "keeps_recv ?a a' b4"
            using rq r by auto
          then show ?thesis
            using r r2 by (simp add: rd cr sim_res_def rel_def same_conn_def keeps_recv_def cache_ok_def)
        qed
      qed
    qed
  qed
qed

text \<open>The whole delivery, as seen by the server.\<close>

lemma srv_deliver_sim:
  assumes "heap s i = Some c" and "rel a c" and tst: "same_class tst (TestCommand 0 [] 0 0)"
    and "deliver g d now a = Inr (a', e)"
  obtains c' ts where "srv_deliver g tst i d now s = Inr (put i c' (s\<lparr>works := works s @ ts\<rparr>), [])"
    "rel a' c'" "map t_cmd ts = received e" "same_conn c c'"
proof -
  have f: "recvBuffer a = c_recvBuffer c" using assms(2) by (simp add: rel_def)
  obtain m where m: "mem_write (RightPos (c_recvBuffer c)) d (pCharArr (c_recvBuffer c)) = Inr m"
    "read_cb g (int (length d)) now (a\<lparr>recvBuffer := (c_recvBuffer c)\<lparr>pCharArr := m\<rparr>\<rparr>) = Inr (a', e)"
    using assms(4) f by (auto simp: deliver_def alloc_cb_def rbind_Inr)
  let ?a = "a\<lparr>recvBuffer := (c_recvBuffer c)\<lparr>pCharArr := m\<rparr>\<rparr>"
  let ?c = "c\<lparr>c_recvBuffer := (c_recvBuffer c)\<lparr>pCharArr := m\<rparr>\<rparr>"
  have r: "rel ?a ?c" using assms(2) by (simp add: rel_def cache_ok_def)
  have un: "srv_deliver g tst i d now s = srv_read_cb g tst i (int (length d)) now (put i ?c s)"
    using assms(1) m by (simp add: srv_deliver_def deref_def srv_alloc_cb_def)
  show ?thesis
  proof (cases "d = []")
    case True
    then have "a' = ?a\<lparr>lastRead := now\<rparr>" "e = []" using m(2) by (auto simp: read_cb_def)
    then show ?thesis
      using un True r by (intro that [of "?c\<lparr>c_lastRead := now\<rparr>" "[]"])
        (simp_all add: srv_read_cb_def deref_def put_def rel_def cache_ok_def same_conn_def)
  next
    case False
    then have n: "0 < int (length d)" by simp
    from conn_sim [OF r n tst, of g now i] m(2) obtain c1 ts where
      c1: "conn_read g tst i (int (length d)) ?c = Inr (c1, ts)" "rel a' c1" "map t_cmd ts = received e" "same_conn ?c c1"
      by (auto simp: sim_res_def split: sum.splits)
    then show ?thesis
      using un n by (intro that [of "c1\<lparr>c_lastRead := now\<rparr>" ts])
        (simp_all add: srv_read_cb_def deref_def put_def rel_def same_conn_def)
  qed
qed

lemma srv_deliver_fault:
  assumes "heap s i = Some c" and "rel a c" and tst: "same_class tst (TestCommand 0 [] 0 0)"
    and "deliver g d now a = Inl f"
  shows "srv_deliver g tst i d now s = Inl f"
proof (cases "mem_write (RightPos (c_recvBuffer c)) d (pCharArr (c_recvBuffer c))")
  case (Inl x)
  then show ?thesis using assms by (simp add: deliver_def srv_deliver_def deref_def alloc_cb_def srv_alloc_cb_def rel_def)
next
  case (Inr m)
  let ?a = "a\<lparr>recvBuffer := (c_recvBuffer c)\<lparr>pCharArr := m\<rparr>\<rparr>"
  let ?c = "c\<lparr>c_recvBuffer := (c_recvBuffer c)\<lparr>pCharArr := m\<rparr>\<rparr>"
  have r: "rel ?a ?c" using assms(2) by (simp add: rel_def cache_ok_def)
  have rd: "read_cb g (int (length d)) now ?a = Inl f"
    using assms(2,4) Inr by (simp add: deliver_def alloc_cb_def rel_def)
  then have "d \<noteq> []" by (auto simp: read_cb_def)
  then have n: "0 < int (length d)" by simp
  from conn_sim [OF r n tst, of g now i] rd have "conn_read g tst i (int (length d)) ?c = Inl f"
    by (auto simp: sim_res_def split: sum.splits)
  with n Inr assms(1) show ?thesis
    by (simp add: srv_deliver_def deref_def srv_alloc_cb_def srv_read_cb_def put_def)
qed

lemma srv_stream_sim:
  assumes "heap s i = Some c" and "rel a c" and "same_class tst (TestCommand 0 [] 0 0)"
    and "uv_stream g ks bs now a = Inr (rest, a', e)"
  shows "\<exists>s' c'. srv_stream g tst i ks bs now s = Inr (rest, s', []) \<and> heap s' i = Some c' \<and> rel a' c' \<and>
    map t_cmd (works s') = map t_cmd (works s) @ received e"
  using assms
proof (induction ks arbitrary: s c a bs e)
  case (Cons k ks)
  define d where "d = take (min (Suc k) (nat (snd (srv_alloc_cb c)))) bs"
  have al: "snd (alloc_cb a) = snd (srv_alloc_cb c)" using Cons.prems(2) by (simp add: alloc_cb_def srv_alloc_cb_def rel_def)
  obtain a1 e1 e2 where a1: "deliver g d now a = Inr (a1, e1)" "uv_stream g ks (drop (length d) bs) now a1 = Inr (rest, a', e2)"
    "e = e1 @ e2"
    using Cons.prems(4) unfolding uv_stream.simps Let_def al d_def [symmetric] by (auto simp: rbind_Inr)
  obtain c1 ts where c1: "srv_deliver g tst i d now s = Inr (put i c1 (s\<lparr>works := works s @ ts\<rparr>), [])"
    "rel a1 c1" "map t_cmd ts = received e1"
    using srv_deliver_sim [OF Cons.prems(1-3) a1(1)] by metis
  have h: "heap (put i c1 (s\<lparr>works := works s @ ts\<rparr>)) i = Some c1" by (simp add: put_def)
  obtain s' c' where s': "srv_stream g tst i ks (drop (length d) bs) now (put i c1 (s\<lparr>works := works s @ ts\<rparr>)) = Inr (rest, s', [])"
    "heap s' i = Some c'" "rel a' c'"
    "map t_cmd (works s') = map t_cmd (works (put i c1 (s\<lparr>works := works s @ ts\<rparr>))) @ received e2"
    using Cons.IH [OF h c1(2) Cons.prems(3) a1(2)] by blast
  have "srv_stream g tst i (k # ks) bs now s = Inr (rest, s', [])"
    unfolding srv_stream.simps deref_def Cons.prems(1) Let_def option.case rbind_simps d_def [symmetric]
    by (simp add: c1(1) s'(1))
  with s' c1(3) a1(3) show ?case by (auto simp: put_def)
qed auto

lemma mid_rel: "rel a c \<Longrightarrow> mid a [] [] \<longleftrightarrow> mid (as_api c) [] []"
  by (simp add: mid_def rel_def as_api_def recv_inv_def)

lemma received_spi_calls: "received (concat (map (\<lambda>(y, r, q). spi_calls y) ms)) = map fst ms"
  for ms :: "(ISerializable \<times> i32 \<times> EPkgReqRtnType) list"
  by (induction ms) (auto simp: spi_calls_def)

text \<open>A connection between two packages queues the commands of the packages that come next.\<close>

lemma srv_stream_messages:
  assumes "heap s i = Some c" and "mid (as_api c) [] []" and "same_class tst (TestCommand 0 [] 0 0)"
    and "\<forall>(y, _, _)\<in>set msgs. obj_ok y" and "length (concat (map (\<lambda>(y, r, q). package_image y r q) msgs)) \<le> length ks"
  shows "\<exists>s' c'. srv_stream g tst i ks (concat (map (\<lambda>(y, r, q). package_image y r q) msgs)) now s = Inr ([], s', []) \<and>
    heap s' i = Some c' \<and> mid (as_api c') [] [] \<and> map t_cmd (works s') = map t_cmd (works s) @ map fst msgs"
proof -
  have "solcomSpi (as_api c)" "cache_ok (as_api c)" using rel_as_api [of c] by (simp_all add: rel_def)
  from uv_stream_messages [OF assms(2) this assms(4,5), of g now] obtain a' where
    a': "uv_stream g ks (concat (map (\<lambda>(y, r, q). package_image y r q) msgs)) now (as_api c) =
      Inr ([], a', concat (map (\<lambda>(y, r, q). spi_calls y) msgs))" "mid a' [] []" by blast
  show ?thesis
    using srv_stream_sim [OF assms(1) rel_as_api assms(3) a'(1)] mid_rel [of a'] a'(2) by (auto simp: received_spi_calls)
qed

section \<open>The server in every reachable state\<close>

datatype srv_event =
    SvConnect int int string | SvRead nat bytes | SvReadErr nat int | SvWork ISerializable | SvWritten nat int
  | SvTimer | SvIdle | SvStop

text \<open>A pool thread runs a task when the flag of the connection is clear or already set: it sees the
  flag as it is at that moment.\<close>

definition flag_now :: "SolConnServer \<Rightarrow> nat \<Rightarrow> bool" where
  "flag_now s = (\<lambda>_. case works s of [] \<Rightarrow> False
     | t # _ \<Rightarrow> (case heap s (t_client t) of None \<Rightarrow> False | Some c \<Rightarrow> snd (reqBuffer c)))"

fun srv_handle :: "(nat \<Rightarrow> byte) \<Rightarrow> ISerializable \<Rightarrow> int \<Rightarrow> srv_event \<Rightarrow> SolConnServer \<Rightarrow> srv_outcome" where
  "srv_handle g tst now (SvConnect st acc key) s = Inr (srv_connect_cb g st acc key now s)"
| "srv_handle g tst now (SvRead i d) s = srv_deliver g tst i d now s"
| "srv_handle g tst now (SvReadErr i n) s = srv_read_cb g tst i n now s"
| "srv_handle g tst now (SvWork tst2) s = work_cb g (flag_now s) tst2 s"
| "srv_handle g tst now (SvWritten i st) s = srv_req_write_cb i st now s"
| "srv_handle g tst now SvTimer s = hbt_timer_cb now s"
| "srv_handle g tst now SvIdle s = srv_idle_cb s"
| "srv_handle g tst now SvStop s = Inr (srv_Stop s, [])"

text \<open>libuv stores at most what was asked for, errors are negative, constructed commands have the
  layout of their class.\<close>

fun srv_ok :: "SolConnServer \<Rightarrow> srv_event \<Rightarrow> bool" where
  "srv_ok s (SvRead i d) = (case heap s i of None \<Rightarrow> False | Some c \<Rightarrow> int (length d) \<le> c_nNeedRead c)"
| "srv_ok s (SvReadErr i n) = (n < 0)"
| "srv_ok s (SvWork tst) = obj_ok tst"
| "srv_ok s _ = True"

inductive srv_step :: "(nat \<Rightarrow> byte) \<Rightarrow> ISerializable \<Rightarrow> SolConnServer \<Rightarrow> SolConnServer \<Rightarrow> bool" for g tst where
  srv_step: "srv_ok s ev \<Longrightarrow> srv_handle g tst now ev s = Inr (t, e) \<Longrightarrow> srv_step g tst s t"

inductive_cases srv_stepE: "srv_step g tst s t"

definition conn_inv :: "SolConnClient \<Rightarrow> bool" where
  "conn_inv c \<longleftrightarrow> recv_inv (as_api c) \<and> ba_wf (fst (reqBuffer c))"

definition srv_inv :: "SolConnServer \<Rightarrow> bool" where
  "srv_inv s \<longleftrightarrow>
     (\<forall>i c. heap s i = Some c \<longrightarrow> conn_inv c \<and> i < nextId s) \<and>
     (\<forall>i\<in>set (map snd (mapConnClient s)). heap s i \<noteq> None) \<and>
     distinct (map snd (mapConnClient s))"

definition memory_fault :: "fault \<Rightarrow> bool" where
  "memory_fault f \<longleftrightarrow> f \<notin> {NullDeref, UseAfterFree, NonTermination}"

definition srv_good :: "srv_outcome \<Rightarrow> bool" where
  "srv_good r \<longleftrightarrow> (case r of Inl f \<Rightarrow> \<not> memory_fault f | Inr (t, _) \<Rightarrow> srv_inv t)"

lemma srv_inv_put:
  assumes "srv_inv s" and "heap s i \<noteq> None" and "conn_inv c"
  shows "srv_inv (put i c s)"
  using assms by (auto simp: srv_inv_def put_def split: if_splits)

lemma srv_inv_frame [simp]:
  "srv_inv (s\<lparr>works := w\<rparr>) = srv_inv s" "srv_inv (s\<lparr>listWevent := l\<rparr>) = srv_inv s"
  "srv_inv (s\<lparr>listWeventBck := l\<rparr>) = srv_inv s" "srv_inv (s\<lparr>s_bStop := b\<rparr>) = srv_inv s"
  by (simp_all add: srv_inv_def)

lemma conn_inv_frame [simp]:
  "conn_inv (c\<lparr>c_lastRead := t\<rparr>) = conn_inv c" "conn_inv (c\<lparr>c_lastWrite := t\<rparr>) = conn_inv c"
  "conn_inv (c\<lparr>c_bConnected := b\<rparr>) = conn_inv c" "conn_inv (c\<lparr>objKey := k\<rparr>) = conn_inv c"
  "conn_inv (c\<lparr>c_data := d\<rparr>) = conn_inv c"
  by (simp_all add: conn_inv_def as_api_def recv_inv_def)

lemma conn_inv_of_rel:
  assumes "rel a c" and "recv_inv a" and "ba_wf (fst (reqBuffer c))"
  shows "conn_inv c"
  using assms by (simp add: conn_inv_def rel_def as_api_def recv_inv_def)

lemma new_conn_inv: "conn_inv (new_SolConnClient g)"
  using new_CByteArray_wf [of g 1424]
  by (simp add: conn_inv_def new_SolConnClient_def as_api_def recv_inv_def PackageHeadLen_def)
    (simp add: new_CByteArray_def)

lemma srv_deliver_good:
  assumes "srv_inv s" and "srv_ok s (SvRead i d)" and "same_class tst (TestCommand 0 [] 0 0)"
  shows "srv_good (srv_deliver g tst i d now s)"
proof -
  obtain c where c: "heap s i = Some c" "int (length d) \<le> c_nNeedRead c"
    using assms(2) by (auto split: option.splits)
  then have ci: "recv_inv (as_api c)" "ba_wf (fst (reqBuffer c))" using assms(1) by (auto simp: srv_inv_def conn_inv_def)
  have need: "int (length d) \<le> nNeedRead (as_api c)" using c(2) by (simp add: as_api_def)
  show ?thesis
  proof (cases "deliver g d now (as_api c)")
    case (Inl f)
    then show ?thesis
      using srv_deliver_fault [OF c(1) rel_as_api assms(3) Inl] deliver_safe [OF ci(1) need, of g now]
      by (simp add: srv_good_def memory_fault_def)
  next
    case (Inr r)
    obtain a' e where r: "r = (a', e)" by fastforce
    have "recv_inv a'" using deliver_safe [OF ci(1) need, of g now] Inr r by simp
    moreover obtain c' ts where c': "srv_deliver g tst i d now s = Inr (put i c' (s\<lparr>works := works s @ ts\<rparr>), [])"
      "rel a' c'" "same_conn c c'"
      using srv_deliver_sim [OF c(1) rel_as_api assms(3) Inr [unfolded r]] by metis
    ultimately have "conn_inv c'" using ci(2) by (intro conn_inv_of_rel [of a']) (simp_all add: same_conn_def)
    then show ?thesis using c' assms(1) c(1) by (simp add: srv_good_def srv_inv_put)
  qed
qed

definition expired :: "int \<Rightarrow> SolConnServer \<Rightarrow> nat \<Rightarrow> bool" where
  "expired now s i \<longleftrightarrow> (case heap s i of None \<Rightarrow> False | Some c \<Rightarrow> timed_out now c)"

lemma hbt_loop_spec:
  assumes "\<forall>i\<in>set (map snd es). heap s i \<noteq> None" and "distinct (map snd es)"
  shows "\<exists>s' e. hbt_loop now es s = Inr (filter (\<lambda>(k, i). \<not> expired now s i) es, s', e) \<and>
    s' = s\<lparr>heap := (\<lambda>i. if i \<in> set (map snd es) \<and> expired now s i then None else heap s i)\<rparr>"
  using assms
proof (induction es arbitrary: s)
  case (Cons p es)
  obtain k i where p: "p = (k, i)" by fastforce
  obtain c where c: "heap s i = Some c" using Cons.prems(1) p by auto
  have d: "i \<notin> set (map snd es)" "distinct (map snd es)" using Cons.prems(2) p by auto
  show ?case
  proof (cases "timed_out now c")
    case True
    let ?s = "s\<lparr>heap := (heap s)(i := None)\<rparr>"
    have live: "\<forall>j\<in>set (map snd es). heap ?s j \<noteq> None" using Cons.prems(1) p d(1) by auto
    have ex: "expired now ?s j = expired now s j" if "j \<in> set (map snd es)" for j
      using that d(1) by (auto simp: expired_def)
    obtain s' e where s': "hbt_loop now es ?s = Inr (filter (\<lambda>(k, i). \<not> expired now ?s i) es, s', e)"
      "s' = ?s\<lparr>heap := (\<lambda>i. if i \<in> set (map snd es) \<and> expired now ?s i then None else heap ?s i)\<rparr>"
      using Cons.IH [OF live d(2)] by blast
    have fl: "filter (\<lambda>(k, i). \<not> expired now ?s i) es = filter (\<lambda>(k, i). \<not> expired now s i) es"
      by (rule filter_cong) (use ex in force)+
    have "expired now s i" using True c by (simp add: expired_def)
    then have "(\<lambda>j. if j \<in> set (map snd es) \<and> expired now ?s j then None else heap ?s j) =
        (\<lambda>j. if j \<in> set (map snd (p # es)) \<and> expired now s j then None else heap s j)"
      using p ex d(1) by (auto simp: fun_eq_iff)
    then have "s' = s\<lparr>heap := (\<lambda>j. if j \<in> set (map snd (p # es)) \<and> expired now s j then None else heap s j)\<rparr>"
      unfolding s'(2) by simp
    then show ?thesis
      using p True c s'(1) \<open>expired now s i\<close>
      by (simp add: fl deref_def closeClient_def put_def)
  next
    case False
    then have "\<not> expired now s i" using c by (simp add: expired_def)
    moreover obtain s' e where "hbt_loop now es s = Inr (filter (\<lambda>(k, i). \<not> expired now s i) es, s', e)"
      "s' = s\<lparr>heap := (\<lambda>i. if i \<in> set (map snd es) \<and> expired now s i then None else heap s i)\<rparr>"
      using Cons.IH [OF _ d(2), of s] Cons.prems(1) p by auto
    ultimately show ?thesis using p False c by (auto simp: deref_def fun_eq_iff)
  qed
qed simp

lemma hbt_timer_good:
  assumes "srv_inv s"
  obtains s' e where "hbt_timer_cb now s = Inr (s', e)" "srv_inv s'"
    "s' = s\<lparr>mapConnClient := filter (\<lambda>(k, i). \<not> expired now s i) (mapConnClient s),
           heap := (\<lambda>i. if i \<in> set (map snd (mapConnClient s)) \<and> expired now s i then None else heap s i)\<rparr>"
proof -
  let ?s = "s\<lparr>mapConnClient := filter (\<lambda>(k, i). \<not> expired now s i) (mapConnClient s),
           heap := (\<lambda>i. if i \<in> set (map snd (mapConnClient s)) \<and> expired now s i then None else heap s i)\<rparr>"
  have live: "\<forall>i\<in>set (map snd (mapConnClient s)). heap s i \<noteq> None" and d: "distinct (map snd (mapConnClient s))"
    using assms by (auto simp: srv_inv_def)
  obtain e where "hbt_timer_cb now s = Inr (?s, e)"
    using hbt_loop_spec [OF live d, of now] by (auto simp: hbt_timer_cb_def)
  moreover have "srv_inv ?s"
    using assms by (auto simp: srv_inv_def distinct_map intro: inj_on_subset split: if_splits)
  ultimately show ?thesis by (rule that) simp
qed

lemma close_all_good:
  assumes "srv_inv s" and "\<forall>i\<in>set (map snd es). heap s i \<noteq> None"
  shows "\<exists>s' e. close_all es s = Inr (s', e) \<and> srv_inv s'"
  using assms
proof (induction es arbitrary: s)
  case (Cons p es)
  obtain k i where p: "p = (k, i)" by fastforce
  obtain c where c: "heap s i = Some c" using Cons.prems(2) p by auto
  let ?s = "put i (c\<lparr>c_bConnected := False\<rparr>) s"
  have "conn_inv c" using Cons.prems(1) c by (auto simp: srv_inv_def)
  then have "srv_inv ?s" using Cons.prems(1) c by (intro srv_inv_put) simp_all
  moreover have "\<forall>j\<in>set (map snd es). heap ?s j \<noteq> None" using Cons.prems(2) p by (auto simp: put_def)
  ultimately show ?case using Cons.IH [of ?s] p c by (auto simp: closeClient_def deref_def)
qed simp

lemma write_loop_good: "(\<exists>e. write_loop is s = Inr e) \<or> write_loop is s = Inl UseAfterFree"
  by (induction "is") (auto simp: deref_def Let_def split: option.splits)

lemma closeClient_good: "srv_inv s \<Longrightarrow> srv_good (closeClient i s)"
  by (auto simp: closeClient_def deref_def srv_good_def memory_fault_def srv_inv_def put_def split: option.splits)

lemma srv_idle_good:
  assumes "srv_inv s"
  shows "srv_good (srv_idle_cb s)"
proof -
  let ?s1 = "s\<lparr>listWevent := listWeventBck s, listWeventBck := []\<rparr>"
  have inv: "srv_inv ?s1" using assms by simp
  let ?s2 = "?s1\<lparr>listWevent := [], listWeventBck := []\<rparr>"
  have i2: "srv_inv ?s2" using inv by simp
  then have live: "\<forall>i\<in>set (map snd (mapConnClient ?s1)). heap ?s2 i \<noteq> None" by (auto simp: srv_inv_def)
  from close_all_good [OF i2 live] inv show ?thesis
    using write_loop_good [of "listWevent s" "s\<lparr>listWevent := listWeventBck s, listWeventBck := listWevent s\<rparr>"]
    by (auto simp: srv_idle_cb_def writeHandle_def srv_good_def memory_fault_def)
qed

lemma conn_postMsg_spec:
  assumes "srv_inv s" and "heap s i = Some c" and "obj_ok m" and "c_bConnected c" and "c_data c" and "\<not> s_bStop s"
    and "wait_req obs timeout 0 = Some k" and "\<not> obs k"
  obtains b s' where "conn_postMsg g obs i m timeout r q s = Inr (0, s')" "srv_inv s'"
    "s' = put i (c\<lparr>reqBuffer := (b, True)\<rparr>) (s\<lparr>listWevent := listWevent s @ [i]\<rparr>)"
    "ba_wf b" "nLeft b = 0" "content b = package_image m r q"
proof -
  have ci: "conn_inv c" using assms(1,2) by (auto simp: srv_inv_def)
  obtain b where b: "build_package g m r q (fst (reqBuffer c)) = Inr b" "ba_wf b" "content b = package_image m r q" "nLeft b = 0"
    using build_package_spec assms(3) ci unfolding conn_inv_def by metis
  let ?s = "put i (c\<lparr>reqBuffer := (b, True)\<rparr>) (s\<lparr>listWevent := listWevent s @ [i]\<rparr>)"
  have "conn_inv (c\<lparr>reqBuffer := (b, True)\<rparr>)" using ci b(2) by (simp add: conn_inv_def as_api_def recv_inv_def)
  then have "srv_inv ?s" using assms(1,2) by (intro srv_inv_put) simp_all
  moreover have "conn_postMsg g obs i m timeout r q s = Inr (0, ?s)"
    using assms(2,4-8) b(1) by (simp add: conn_postMsg_def deref_def WeventCtl_def put_def)
  ultimately show ?thesis using b by (intro that [of ?s b]) simp_all
qed

lemma conn_postMsg_good:
  assumes "srv_inv s" and "obj_ok m"
  shows "case conn_postMsg g obs i m timeout r q s of Inl f \<Rightarrow> \<not> memory_fault f | Inr (rc, s') \<Rightarrow> srv_inv s'"
proof (cases "heap s i")
  case None
  then show ?thesis by (simp add: conn_postMsg_def deref_def memory_fault_def)
next
  case (Some c)
  show ?thesis
  proof (cases "c_bConnected c \<and> c_data c \<and> \<not> s_bStop s \<and> (\<exists>k. wait_req obs timeout 0 = Some k \<and> \<not> obs k)")
    case True
    then obtain k where k: "c_bConnected c" "c_data c" "\<not> s_bStop s" "wait_req obs timeout 0 = Some k" "\<not> obs k" by blast
    obtain s' where "conn_postMsg g obs i m timeout r q s = Inr (0, s')" "srv_inv s'"
      using conn_postMsg_spec [OF assms(1) Some assms(2) k] by blast
    then show ?thesis by simp
  next
    case False
    then show ?thesis
      using assms(1) Some by (auto simp: conn_postMsg_def deref_def memory_fault_def split: option.splits)
  qed
qed

lemma CmdHandle_good:
  assumes "srv_inv s" and "obj_ok tst"
  shows "srv_good (CmdHandle g obs tst i cmd s)"
  using conn_postMsg_good [OF assms(1) new_Heartbeat_ok, of g obs i 1 0 Type_Req]
    conn_postMsg_good [OF assms, of g obs i 1 0 Type_Req] assms(1)
  by (auto simp: CmdHandle_def srv_good_def split: sum.splits)

lemma srv_handle_good:
  assumes "srv_inv s" and "srv_ok s ev" and "same_class tst (TestCommand 0 [] 0 0)"
  shows "srv_good (srv_handle g tst now ev s)"
proof (cases ev)
  case (SvConnect st acc key)
  then show ?thesis using assms(1) new_conn_inv [of g]
    by (fastforce simp: srv_good_def srv_connect_cb_def srv_inv_def put_def Let_def split: if_splits)
next
  case (SvRead i d)
  then show ?thesis using srv_deliver_good [OF assms(1) _ assms(3)] assms(2) by simp
next
  case (SvReadErr i n)
  then show ?thesis
    using assms(1,2) closeClient_good [OF assms(1), of i]
    by (auto simp: srv_read_cb_def deref_def srv_good_def memory_fault_def split: option.splits)
next
  case (SvWork t)
  show ?thesis
  proof (cases "works s")
    case (Cons w ws)
    then show ?thesis using SvWork CmdHandle_good [of "s\<lparr>works := ws\<rparr>" t] assms(1,2) by (simp add: work_cb_def)
  qed (use SvWork assms(1) in \<open>simp add: work_cb_def srv_good_def\<close>)
next
  case (SvWritten i st)
  show ?thesis
  proof (cases "heap s i")
    case (Some c)
    then have ci: "conn_inv c" using assms(1) by (auto simp: srv_inv_def)
    let ?c = "c\<lparr>reqBuffer := (Init (fst (reqBuffer c)), False)\<rparr>"
    have "conn_inv ?c" using ci by (simp add: conn_inv_def as_api_def recv_inv_def Init_wf)
    then have "srv_inv (put i ?c s)" "srv_inv (put i (?c\<lparr>c_lastWrite := now\<rparr>) s)"
      using assms(1) Some by (auto intro!: srv_inv_put)
    then show ?thesis
      using SvWritten Some closeClient_good [of "put i ?c s" i]
      by (simp add: srv_req_write_cb_def deref_def Let_def srv_good_def)
  qed (use SvWritten in \<open>simp add: srv_req_write_cb_def deref_def srv_good_def memory_fault_def\<close>)
next
  case SvTimer
  then show ?thesis using hbt_timer_good [OF assms(1), of now] by (metis prod.case srv_good_def srv_handle.simps(6) sum.case(2))
next
  case SvIdle
  then show ?thesis using srv_idle_good [OF assms(1)] by simp
next
  case SvStop
  then show ?thesis using assms(1) by (simp add: srv_good_def srv_Stop_def)
qed

interpretation srv_sys: invariant_system "\<lambda>s. s = new_SolConnServer" "srv_step g (new_TestCommand g db r)" srv_inv
proof (unfold_locales, goal_cases)
  case (1 s)
  then show ?case by (simp add: new_SolConnServer_def srv_inv_def)
next
  case (2 s t)
  have "same_class (new_TestCommand g db r) (TestCommand 0 [] 0 0)" by (simp add: new_TestCommand_def)
  from 2(2) show ?case
    by (rule srv_stepE) (use srv_handle_good [OF 2(1) _ \<open>same_class _ _\<close>] in \<open>fastforce simp: srv_good_def split: sum.splits\<close>)
qed

fun srv_run :: "(nat \<Rightarrow> byte) \<Rightarrow> ISerializable \<Rightarrow> (int \<times> srv_event) list \<Rightarrow> SolConnServer \<Rightarrow> srv_outcome" where
  "srv_run g tst [] s = Inr (s, [])"
| "srv_run g tst ((now, ev) # evs) s =
     rbind (srv_handle g tst now ev s) (\<lambda>(s1, e1).
     rbind (srv_run g tst evs s1) (\<lambda>(s2, e2). Inr (s2, e1 @ e2)))"

lemma wait_req_return:
  assumes "wait_req obs t k = Some n"
  shows "\<not> (obs n \<and> 0 < t)"
  by (rule wait_req.raw_induct [of "\<lambda>obs t k n. \<not> (obs n \<and> 0 < t)", OF _ assms])
    (auto simp: Let_def split: if_splits)

lemma wait_req_clear:
  assumes "\<not> obs (k + m)"
  shows "wait_req obs t k \<noteq> None"
  using assms
proof (induction m arbitrary: k)
  case 0
  then show ?case by (subst wait_req.simps) simp
next
  case (Suc m)
  then have "wait_req obs t (Suc k) \<noteq> None" using Suc.IH [of "Suc k"] by simp
  then show ?case by (subst wait_req.simps) (simp add: Let_def)
qed

lemma wait_req_free: "\<not> obs 0 \<Longrightarrow> wait_req obs t 0 = Some 0"
  by (subst wait_req.simps) simp

section \<open>Properties\<close>

text \<open>C10: the server reassembles the package stream of a connection: whatever way the bytes of a
  sequence of packages are cut into reads, exactly their commands are queued as tasks for the worker
  pool, in order, and nothing is left over.\<close>

theorem server_reassembles_stream:
  assumes "\<forall>(y, _, _)\<in>set msgs. obj_ok y"
    and "length (concat (map (\<lambda>(y, r, q). package_image y r q) msgs)) \<le> length ks"
  shows "\<exists>s'. srv_stream g (new_TestCommand g db r) (nextId s) ks
      (concat (map (\<lambda>(y, r, q). package_image y r q) msgs)) now (fst (srv_connect_cb g 0 0 key t0 s)) = Inr ([], s', []) \<and>
    map t_cmd (works s') = map t_cmd (works s) @ map fst msgs"
proof -
  let ?s = "fst (srv_connect_cb g 0 0 key t0 s)"
  let ?c = "(new_SolConnClient g)\<lparr>objKey := key, c_data := True, c_lastRead := t0, c_lastWrite := t0, c_bConnected := True\<rparr>"
  have h: "heap ?s (nextId s) = Some ?c" and w: "works ?s = works s" by (simp_all add: srv_connect_cb_def put_def Let_def)
  have ri: "recv_inv (as_api ?c)" using new_conn_inv [of g] by (simp add: conn_inv_def as_api_def recv_inv_def)
  have mid: "mid (as_api ?c) [] []"
    using ri by (simp add: mid_def as_api_def new_SolConnClient_def content_new)
  have "same_class (new_TestCommand g db r) (TestCommand 0 [] 0 0)" by (simp add: new_TestCommand_def)
  from srv_stream_messages [OF h mid this assms, of g now] show ?thesis using w by auto
qed

theorem server_reassembles_stream_witness:
  "\<exists>s'. srv_stream (\<lambda>_. 0) (new_TestCommand (\<lambda>_. 0) 0 0) 0 (replicate 80 6)
      (concat (map (\<lambda>(y, r, q). package_image y r q)
        [(HeartbeatCommand 1, 0, Type_Req), (TestCommand 2 (replicate 32 65) 7 9, 5, Type_Rtn)])) 3
      (fst (srv_connect_cb (\<lambda>_. 0) 0 0 ''10.0.0.1:7'' 1 new_SolConnServer)) = Inr ([], s', []) \<and>
    map t_cmd (works s') = [HeartbeatCommand 1, TestCommand 2 (replicate 32 65) 7 9]"
  using server_reassembles_stream [of "[(HeartbeatCommand 1, 0, Type_Req), (TestCommand 2 (replicate 32 65) 7 9, 5, Type_Rtn)]"
      "replicate 80 6" "\<lambda>_. 0" 0 0 new_SolConnServer 3 "''10.0.0.1:7''" 1]
  by (simp add: TypeReq_Heartbeat_def TypeReq_TestCmd_def package_image_def new_SolConnServer_def)


text \<open>A connection that has been idle for 300 seconds, before and after the timer round.\<close>

lemma idle_connection:
  fixes g :: "nat \<Rightarrow> byte"
  defines "s1 \<equiv> fst (srv_connect_cb g 0 0 ''10.0.0.1:7'' 0 new_SolConnServer)"
  shows "reach (\<lambda>s. s = new_SolConnServer) (srv_step g tst) s1"
    and "mapConnClient s1 = [(''10.0.0.1:7'', 0)]" and "expired 300 s1 0"
    and "\<exists>s2 e. hbt_timer_cb 300 s1 = Inr (s2, e) \<and> heap s2 0 = None \<and>
      reach (\<lambda>s. s = new_SolConnServer) (srv_step g tst) s2"
proof -
  have "srv_handle g tst 0 (SvConnect 0 0 ''10.0.0.1:7'') new_SolConnServer =
      Inr (s1, snd (srv_connect_cb g 0 0 ''10.0.0.1:7'' 0 new_SolConnServer))" by (simp add: s1_def)
  then have "srv_step g tst new_SolConnServer s1" by (rule srv_step [rotated]) simp
  then show r: "reach (\<lambda>s. s = new_SolConnServer) (srv_step g tst) s1"
    using reach_step [OF reach_init [of "\<lambda>s. s = new_SolConnServer"]] by metis
  show m: "mapConnClient s1 = [(''10.0.0.1:7'', 0)]" and x: "expired 300 s1 0"
    by (simp_all add: s1_def srv_connect_cb_def new_SolConnServer_def put_def expired_def timed_out_def idle_time_def
        new_SolConnClient_def)
  have inv: "srv_inv s1"
    using new_conn_inv [of g]
    by (simp add: s1_def srv_connect_cb_def new_SolConnServer_def put_def srv_inv_def)
  obtain s2 e where s2: "hbt_timer_cb 300 s1 = Inr (s2, e)"
      "s2 = s1\<lparr>mapConnClient := filter (\<lambda>(k, i). \<not> expired 300 s1 i) (mapConnClient s1),
           heap := (\<lambda>i. if i \<in> set (map snd (mapConnClient s1)) \<and> expired 300 s1 i then None else heap s1 i)\<rparr>"
    using hbt_timer_good [OF inv, of 300] by blast
  have "heap s2 0 = None" unfolding s2(2) using m x by simp
  have "srv_handle g tst 300 SvTimer s1 = Inr (s2, e)" using s2(1) by simp
  then have "srv_step g tst s1 s2" by (rule srv_step [rotated]) simp
  with r have "reach (\<lambda>s. s = new_SolConnServer) (srv_step g tst) s2" by (rule reach_step)
  with s2(1) \<open>heap s2 0 = None\<close>
  show "\<exists>s2 e. hbt_timer_cb 300 s1 = Inr (s2, e) \<and> heap s2 0 = None \<and>
      reach (\<lambda>s. s = new_SolConnServer) (srv_step g tst) s2" by blast
qed




text \<open>C32: the timer deletes a connection object in the same callback in which it asks libuv to close the
  handle: a write that is still under way reports its cancellation to the deleted object.\<close>

theorem timer_frees_object_in_use:
  assumes "reach (\<lambda>s. s = new_SolConnServer) (srv_step g (new_TestCommand g db r)) s"
    and "(k, i) \<in> set (mapConnClient s)" and "expired now s i" and "hbt_timer_cb now s = Inr (s', e)"
  shows "srv_req_write_cb i UV_ECANCELED now s' = Inl UseAfterFree"
proof -
  have inv: "srv_inv s" by (rule srv_sys.reach_inv [OF assms(1)])
  obtain t e' where t: "hbt_timer_cb now s = Inr (t, e')"
    "t = s\<lparr>mapConnClient := filter (\<lambda>(k, i). \<not> expired now s i) (mapConnClient s),
           heap := (\<lambda>i. if i \<in> set (map snd (mapConnClient s)) \<and> expired now s i then None else heap s i)\<rparr>"
    using hbt_timer_good [OF inv, of now] by blast
  have "heap t i = None" unfolding t(2) using assms(2,3) by force
  then show ?thesis using t(1) assms(4) by (simp add: srv_req_write_cb_def deref_def)
qed

theorem timer_frees_object_in_use_witness:
  "\<exists>s s' e. hbt_timer_cb 300 s = Inr (s', e) \<and> srv_req_write_cb 0 UV_ECANCELED 300 s' = Inl UseAfterFree"
proof -
  let ?s = "fst (srv_connect_cb (\<lambda>_. 0) 0 0 ''10.0.0.1:7'' 0 new_SolConnServer)"
  note r = idle_connection(1) [of "\<lambda>_. 0" "new_TestCommand (\<lambda>_. 0) 0 0"]
  obtain s' e where h: "hbt_timer_cb 300 ?s = Inr (s', e)"
    using idle_connection(4) [of "\<lambda>_. 0" "new_TestCommand (\<lambda>_. 0) 0 0"] by blast
  have "(''10.0.0.1:7'', 0) \<in> set (mapConnClient ?s)" using idle_connection(2) [of "\<lambda>_. 0"] by simp
  from timer_frees_object_in_use [OF r this idle_connection(3) h] h show ?thesis by blast
qed

text \<open>An answer reaches the wire: when the request buffer of a live connection is free,
  \<open>postMsg\<close> returns 0, and the next round of the idle callback writes exactly the package of the
  command to that connection.\<close>

theorem server_answer_is_written:
  assumes "reach (\<lambda>s. s = new_SolConnServer) (srv_step g (new_TestCommand g db r)) s" and "heap s i = Some c"
    and "c_bConnected c" and "c_data c" and "\<not> s_bStop s" and "listWevent s = []" and "obj_ok m" and "\<not> obs 0"
  shows "\<exists>s1 s2. conn_postMsg g obs i m timeout rq q s = Inr (0, s1) \<and>
    srv_idle_cb s1 = Inr (s2, [SrvWrite i (package_image m rq q)])"
proof -
  have inv: "srv_inv s" by (rule srv_sys.reach_inv [OF assms(1)])
  obtain b s1 where b: "conn_postMsg g obs i m timeout rq q s = Inr (0, s1)"
    "s1 = put i (c\<lparr>reqBuffer := (b, True)\<rparr>) (s\<lparr>listWevent := listWevent s @ [i]\<rparr>)"
    "ba_wf b" "nLeft b = 0" "content b = package_image m rq q"
    using conn_postMsg_spec [OF inv assms(2,7,3,4,5) wait_req_free [of obs timeout, OF assms(8)] assms(8), of g rq q] by blast
  have "take (nat (RightPos b)) (pCharArr b) = package_image m rq q"
    using window_take [OF b(3,4)] b(5) by (simp add: RightPos_def)
  then have "srv_idle_cb s1 = Inr (s1\<lparr>listWevent := listWeventBck s, listWeventBck := []\<rparr>, [SrvWrite i (package_image m rq q)])"
    using assms(3,5,6) unfolding b(2)
    by (simp add: srv_idle_cb_def writeHandle_def put_def deref_def)
  with b(1) show ?thesis by blast
qed

theorem server_answer_is_written_witness:
  "\<exists>s s1 s2. conn_postMsg (\<lambda>_. 0) (\<lambda>_. False) 0 new_HeartbeatCommand 1 0 Type_Req s = Inr (0, s1) \<and>
    srv_idle_cb s1 = Inr (s2, [SrvWrite 0 (package_image new_HeartbeatCommand 0 Type_Req)])"
proof -
  let ?s = "fst (srv_connect_cb (\<lambda>_. 0) 0 0 ''10.0.0.1:7'' 0 new_SolConnServer)"
  obtain c where c: "heap ?s 0 = Some c" "c_bConnected c" "c_data c"
    by (simp add: srv_connect_cb_def new_SolConnServer_def put_def)
  have f: "\<not> s_bStop ?s" "listWevent ?s = []" by (simp_all add: srv_connect_cb_def new_SolConnServer_def put_def)
  show ?thesis
    using server_answer_is_written [OF idle_connection(1) [of "\<lambda>_. 0" "new_TestCommand (\<lambda>_. 0) 0 0"] c f new_Heartbeat_ok,
        of "\<lambda>_. False" 1 0 Type_Req] by blast
qed

text \<open>The timeout of \<open>postMsg\<close> is not one: with a positive timeout the wait for the request buffer
  returns exactly when the flag is seen clear at some time, and never because of the timeout.\<close>

theorem postMsg_wait_ignores_timeout:
  "wait_req obs timeout 0 = None \<longleftrightarrow> 0 < timeout \<and> (\<forall>k. obs k)"
proof
  assume none: "wait_req obs timeout 0 = None"
  have "obs k" for k using none wait_req_clear [of obs 0 k timeout] by auto
  moreover have "0 < timeout" using none by (subst (asm) wait_req.simps) (auto simp: Let_def split: if_splits)
  ultimately show "0 < timeout \<and> (\<forall>k. obs k)" by blast
next
  assume "0 < timeout \<and> (\<forall>k. obs k)"
  then show "wait_req obs timeout 0 = None" using wait_req_return [of obs timeout 0] by (cases "wait_req obs timeout 0") auto
qed

text \<open>Unregistering a connection that is registered increments an erased list iterator; only the
  removal of a connection that is not in the list is harmless.\<close>

theorem WeventCtl_del_registered:
  "WeventCtl i WPOLL_DEL s = (if i \<in> set (listWevent s) then Inl BadIterator else Inr s)"
proof -
  have "wevent_del i l = (if i \<in> set l then Inl BadIterator else Inr l)" for l
    by (induction l) auto
  then show ?thesis by (simp add: WeventCtl_def WPOLL_ADD_def WPOLL_DEL_def)
qed

end
