(* ===== verification/ThreadPool.thy ===== *)
theory ThreadPool
  imports Prelude "HOL-Library.Multiset"
begin

text \<open>
  \<^verbatim>\<open>StragetyDeployer/FixedThreaPool.h\<close>: the worker pool that runs the database tasks. Every thread
  is a program counter and the threads interleave freely. The mutex is its owner; a condition variable
  wait is the test of the predicate under the mutex, the release of the mutex together with the
  blocking, and, after a notification, the acquisition of the mutex again.
\<close>

text \<open>
  Program counter of a thread in \<open>do_work\<close>: the loop test; waiting for the mutex; the predicate under
  the mutex; about to block; blocked; a task taken; the task running; the task run; left.
\<close>

datatype 'a worker =
  AtLoop | AtLock | AtPred | AtBlock | Blocked | Have 'a | Running 'a | Ran | Left

record 'a FixedThreaPool =
  vecThread :: "'a worker list"
  queTask :: "'a list"
  mtxTask :: "nat option"
  bStoped :: bool
  nIdlThredNum :: int
  checked :: "'a list"
  notifies :: nat
  destroying :: nat
  pushed :: "'a list"
  taken :: "'a list"
  finished :: "'a list"

text \<open>\<open>checked\<close> holds the tasks of \<open>submit\<close> calls between the test of \<open>bStoped\<close> and the push,
  \<open>notifies\<close> counts pushes whose \<open>notify_one\<close> is still to come, \<open>destroying\<close> is the progress of the
  destructor (0 not started, 1 flag stored, 2 all notified); \<open>pushed\<close>, \<open>taken\<close> and \<open>finished\<close> record what
  happened.\<close>

definition new_FixedThreaPool :: "int \<Rightarrow> int \<Rightarrow> 'a FixedThreaPool" where
  "new_FixedThreaPool n hardware_threads =
     (let sz = (if n < 1 then 1 else n);
          num_thread = (if hardware_threads < sz then hardware_threads else sz)
      in \<lparr>vecThread = replicate (nat num_thread) AtLoop, queTask = [], mtxTask = None, bStoped = False,
          nIdlThredNum = num_thread, checked = [], notifies = 0, destroying = 0, pushed = [], taken = [], finished = []\<rparr>)"

definition set_pc :: "nat \<Rightarrow> 'a worker \<Rightarrow> 'a FixedThreaPool \<Rightarrow> 'a FixedThreaPool" where
  "set_pc i w p = p\<lparr>vecThread := (vecThread p)[i := w]\<rparr>"

text \<open>One step of thread \<open>i\<close> in \<open>do_work\<close>; \<open>None\<close> when it cannot move.\<close>

fun do_work_pc :: "nat \<Rightarrow> 'a worker \<Rightarrow> 'a FixedThreaPool \<Rightarrow> 'a FixedThreaPool option" where
  "do_work_pc i AtLoop p = Some (set_pc i (if bStoped p then Left else AtLock) p)"
| "do_work_pc i AtLock p =
     (if mtxTask p = None then Some (set_pc i AtPred (p\<lparr>mtxTask := Some i\<rparr>)) else None)"
| "do_work_pc i AtPred p =
     (if bStoped p \<or> queTask p \<noteq> [] then
        (case queTask p of
           [] \<Rightarrow> Some (set_pc i Left (p\<lparr>mtxTask := None\<rparr>))
         | t # ts \<Rightarrow> Some (set_pc i (Have t) (p\<lparr>mtxTask := None, queTask := ts, taken := taken p @ [t]\<rparr>)))
      else Some (set_pc i AtBlock p))"
| "do_work_pc i AtBlock p = Some (set_pc i Blocked (p\<lparr>mtxTask := None\<rparr>))"
| "do_work_pc i Blocked p = None"
| "do_work_pc i (Have t) p = Some (set_pc i (Running t) (p\<lparr>nIdlThredNum := nIdlThredNum p - 1\<rparr>))"
| "do_work_pc i (Running t) p = Some (set_pc i Ran (p\<lparr>finished := finished p @ [t]\<rparr>))"
| "do_work_pc i Ran p = Some (set_pc i AtLoop (p\<lparr>nIdlThredNum := nIdlThredNum p + 1\<rparr>))"
| "do_work_pc i Left p = None"

definition do_work :: "nat \<Rightarrow> 'a FixedThreaPool \<Rightarrow> 'a FixedThreaPool option" where
  "do_work i p = (if i < length (vecThread p) then do_work_pc i (vecThread p ! i) p else None)"

text \<open>\<open>submit\<close>: the test of the flag, the push under the mutex, \<open>notify_one\<close>, which wakes the blocked
  thread \<open>i\<close> it is given, or nobody when none is blocked.\<close>

definition submit_check :: "'a \<Rightarrow> 'a FixedThreaPool \<Rightarrow> 'a FixedThreaPool" where
  "submit_check t p = (if bStoped p then p else p\<lparr>checked := t # checked p\<rparr>)"

definition submit_push :: "'a \<Rightarrow> 'a FixedThreaPool \<Rightarrow> 'a FixedThreaPool option" where
  "submit_push t p =
     (if t \<in> set (checked p) \<and> mtxTask p = None
      then Some (p\<lparr>checked := remove1 t (checked p), queTask := queTask p @ [t], pushed := pushed p @ [t],
                   notifies := Suc (notifies p)\<rparr>)
      else None)"

definition submit_notify :: "nat \<Rightarrow> 'a FixedThreaPool \<Rightarrow> 'a FixedThreaPool option" where
  "submit_notify i p =
     (if notifies p = 0 then None
      else if i < length (vecThread p) \<and> vecThread p ! i = Blocked
      then Some (set_pc i AtLock (p\<lparr>notifies := notifies p - 1\<rparr>))
      else if Blocked \<notin> set (vecThread p) then Some (p\<lparr>notifies := notifies p - 1\<rparr>)
      else None)"

text \<open>The destructor: the store of the flag (without the mutex), \<open>notify_all\<close>, the joins.\<close>

definition wake :: "'a worker \<Rightarrow> 'a worker" where
  "wake w = (if w = Blocked then AtLock else w)"

definition destroy_store :: "'a FixedThreaPool \<Rightarrow> 'a FixedThreaPool option" where
  "destroy_store p = (if destroying p = 0 then Some (p\<lparr>bStoped := True, destroying := 1\<rparr>) else None)"

definition destroy_notify :: "'a FixedThreaPool \<Rightarrow> 'a FixedThreaPool option" where
  "destroy_notify p =
     (if destroying p = 1 then Some (p\<lparr>vecThread := map wake (vecThread p), destroying := 2\<rparr>) else None)"

definition joined :: "'a FixedThreaPool \<Rightarrow> bool" where
  "joined p \<longleftrightarrow> destroying p = 2 \<and> (\<forall>w\<in>set (vecThread p). w = Left)"

definition idlCount :: "'a FixedThreaPool \<Rightarrow> int" where
  "idlCount p = nIdlThredNum p"

inductive pool_step :: "'a FixedThreaPool \<Rightarrow> 'a FixedThreaPool \<Rightarrow> bool" where
  step_work: "do_work i p = Some q \<Longrightarrow> pool_step p q"
| step_check: "pool_step p (submit_check t p)"
| step_push: "submit_push t p = Some q \<Longrightarrow> pool_step p q"
| step_notify: "submit_notify i p = Some q \<Longrightarrow> pool_step p q"
| step_store: "destroy_store p = Some q \<Longrightarrow> pool_step p q"
| step_all: "destroy_notify p = Some q \<Longrightarrow> pool_step p q"

inductive_cases pool_stepE: "pool_step p q"

section \<open>Invariants\<close>

fun task_of :: "'a worker \<Rightarrow> 'a multiset" where
  "task_of (Have t) = {#t#}" | "task_of (Running t) = {#t#}" | "task_of _ = {#}"

fun owns_mutex :: "'a worker \<Rightarrow> bool" where
  "owns_mutex AtPred = True" | "owns_mutex AtBlock = True" | "owns_mutex _ = False"

fun busy :: "'a worker \<Rightarrow> int" where
  "busy (Running _) = 1" | "busy Ran = 1" | "busy _ = 0"

definition awake :: "'a worker \<Rightarrow> bool" where
  "awake w \<longleftrightarrow> w \<noteq> Blocked \<and> w \<noteq> Left"

text \<open>The parts of the invariant: the mutex, the order and fate of the tasks, the idle counter, the
  wake-ups.\<close>

definition mutex_inv :: "'a FixedThreaPool \<Rightarrow> bool" where
  "mutex_inv p \<longleftrightarrow>
     (\<forall>i<length (vecThread p). owns_mutex (vecThread p ! i) = (mtxTask p = Some i)) \<and>
     (\<forall>i<length (vecThread p). vecThread p ! i = AtBlock \<longrightarrow> queTask p = [])"

definition task_inv :: "'a FixedThreaPool \<Rightarrow> bool" where
  "task_inv p \<longleftrightarrow> taken p @ queTask p = pushed p \<and>
     mset (taken p) = mset (finished p) + sum_list (map task_of (vecThread p))"

definition idle_inv :: "int \<Rightarrow> 'a FixedThreaPool \<Rightarrow> bool" where
  "idle_inv n p \<longleftrightarrow> int (length (vecThread p)) = n \<and> nIdlThredNum p = n - sum_list (map busy (vecThread p))"

definition wake_inv :: "'a FixedThreaPool \<Rightarrow> bool" where
  "wake_inv p \<longleftrightarrow>
     (bStoped p = (destroying p \<noteq> 0)) \<and>
     (\<not> bStoped p \<longrightarrow> Left \<notin> set (vecThread p)) \<and>
     (\<not> bStoped p \<and> queTask p \<noteq> [] \<and> vecThread p \<noteq> [] \<longrightarrow> 0 < notifies p \<or> (\<exists>w\<in>set (vecThread p). awake w))"

lemma sum_list_update_eq:
  fixes f :: "'b \<Rightarrow> 'c::comm_monoid_add"
  shows "i < length xs \<Longrightarrow> sum_list (map f (xs[i := w])) + f (xs ! i) = sum_list (map f xs) + f w"
proof (induction xs arbitrary: i)
  case (Cons x xs)
  then show ?case by (cases i) (auto simp: ac_simps)
qed simp

lemma do_work_cases:
  assumes "do_work i p = Some q"
  obtains "i < length (vecThread p)" "do_work_pc i (vecThread p ! i) p = Some q"
  using assms by (auto simp: do_work_def split: if_splits)

lemma mutex_step:
  assumes "mutex_inv p" and "pool_step p q"
  shows "mutex_inv q"
proof -
  have blk: "\<And>i. i < length (vecThread p) \<Longrightarrow> vecThread p ! i = Blocked \<Longrightarrow> mtxTask p \<noteq> Some i"
    using assms(1) by (force simp: mutex_inv_def)
  from assms(2) show ?thesis
proof (rule pool_stepE)
  fix i assume "do_work i p = Some q"
  then show ?thesis
  proof (rule do_work_cases)
    assume i: "i < length (vecThread p)" and st: "do_work_pc i (vecThread p ! i) p = Some q"
    have own: "owns_mutex (vecThread p ! i) = (mtxTask p = Some i)" using assms(1) i by (simp add: mutex_inv_def)
    show ?thesis
      using assms(1) i st own
      by (cases "vecThread p ! i")
        (auto simp: mutex_inv_def set_pc_def nth_list_update split: if_splits list.splits)
  qed
qed (use assms(1) in \<open>auto simp: mutex_inv_def submit_check_def submit_push_def submit_notify_def destroy_store_def
    destroy_notify_def set_pc_def wake_def nth_list_update dest: blk split: if_splits\<close>)
qed

lemma task_step:
  assumes "task_inv p" and "pool_step p q"
  shows "task_inv q"
  using assms(2)
proof (rule pool_stepE)
  fix i assume "do_work i p = Some q"
  then show ?thesis
  proof (rule do_work_cases)
    assume i: "i < length (vecThread p)" and st: "do_work_pc i (vecThread p ! i) p = Some q"
    note upd = sum_list_update_eq [OF i, of task_of]
    show ?thesis
      using assms(1) i st upd [of Left] upd [of AtLock] upd [of AtPred] upd [of AtBlock] upd [of Blocked]
        upd [of AtLoop] upd [of Ran] upd [of "Have (hd (queTask p))"]
        upd [of "Running (case vecThread p ! i of Have t \<Rightarrow> t)"]
      by (cases "vecThread p ! i") (auto simp: task_inv_def set_pc_def split: if_splits list.splits)
  qed
next
  fix t assume "submit_push t p = Some q"
  then show ?thesis using assms(1) by (auto simp: submit_push_def task_inv_def split: if_splits)
next
  fix i assume "submit_notify i p = Some q"
  then show ?thesis
    using assms(1) sum_list_update_eq [of i "vecThread p" task_of AtLock]
    by (auto simp: submit_notify_def task_inv_def set_pc_def split: if_splits)
next
  assume "destroy_notify p = Some q"
  moreover have "sum_list (map task_of (map wake ws)) = sum_list (map task_of ws)" for ws :: "'a worker list"
    by (induction ws) (auto simp: wake_def)
  ultimately show ?thesis using assms(1) by (auto simp: destroy_notify_def task_inv_def split: if_splits)
qed (use assms(1) in \<open>auto simp: task_inv_def submit_check_def destroy_store_def split: if_splits\<close>)

lemma idle_step:
  assumes "idle_inv n p" and "pool_step p q"
  shows "idle_inv n q"
  using assms(2)
proof (rule pool_stepE)
  fix i assume "do_work i p = Some q"
  then show ?thesis
  proof (rule do_work_cases)
    assume i: "i < length (vecThread p)" and st: "do_work_pc i (vecThread p ! i) p = Some q"
    note upd = sum_list_update_eq [OF i, of busy]
    show ?thesis
      using assms(1) i st upd [of Left] upd [of AtLock] upd [of AtPred] upd [of AtBlock] upd [of Blocked]
        upd [of AtLoop] upd [of Ran] upd [of "Have (hd (queTask p))"]
        upd [of "Running (case vecThread p ! i of Have t \<Rightarrow> t)"]
      by (cases "vecThread p ! i") (auto simp: idle_inv_def set_pc_def split: if_splits list.splits)
  qed
next
  fix i assume "submit_notify i p = Some q"
  then show ?thesis
    using assms(1) sum_list_update_eq [of i "vecThread p" busy AtLock]
    by (auto simp: submit_notify_def idle_inv_def set_pc_def split: if_splits)
next
  assume "destroy_notify p = Some q"
  moreover have "sum_list (map busy (map wake ws)) = sum_list (map busy ws)" for ws :: "'a worker list"
    by (induction ws) (auto simp: wake_def)
  ultimately show ?thesis using assms(1) by (auto simp: destroy_notify_def idle_inv_def split: if_splits)
qed (use assms(1) in \<open>auto simp: idle_inv_def submit_check_def submit_push_def destroy_store_def split: if_splits\<close>)

lemma awake_update:
  assumes "\<exists>w\<in>set ws. awake w" and "awake w"
  shows "\<exists>v\<in>set (ws[i := w]). awake v"
proof (cases "i < length ws")
  case True
  then have "w \<in> set (ws[i := w])" by (rule set_update_memI)
  with assms(2) show ?thesis by blast
qed (use assms(1) in \<open>simp add: list_update_beyond\<close>)

lemma Left_update: "Left \<notin> set ws \<Longrightarrow> w \<noteq> Left \<Longrightarrow> Left \<notin> set (ws[i := w])"
  using set_update_subset_insert [of ws i w] by auto

lemma wake_step:
  assumes "mutex_inv p" and "wake_inv p" and "pool_step p q"
  shows "wake_inv q"
  using assms(3)
proof (rule pool_stepE)
  fix i assume "do_work i p = Some q"
  then show ?thesis
  proof (rule do_work_cases)
    assume i: "i < length (vecThread p)" and st: "do_work_pc i (vecThread p ! i) p = Some q"
    have m: "vecThread p ! i \<in> set (vecThread p)" using i by simp
    note lu = Left_update [of "vecThread p"]
    note mem = set_update_memI [OF i]
    show ?thesis
    proof (cases "vecThread p ! i")
      case AtBlock
      then have "queTask p = []" using assms(1) i by (auto simp: mutex_inv_def)
      then show ?thesis using st AtBlock assms(2) lu [of Blocked i] by (auto simp: wake_inv_def set_pc_def)
    next
      case AtPred
      then show ?thesis
        using st assms(2) lu [of AtBlock i] lu [of "Have (hd (queTask p))" i] mem [of AtBlock] mem [of "Have (hd (queTask p))"]
        by (auto simp: wake_inv_def set_pc_def awake_def split: if_splits list.splits)
    qed (use st assms(2) lu [of AtLock i] lu [of AtPred i] lu [of AtLoop i] lu [of Ran i] mem [of AtLock] mem [of AtPred]
          mem [of AtLoop] mem [of Ran] lu [of "Running (case vecThread p ! i of Have t \<Rightarrow> t)" i]
          mem [of "Running (case vecThread p ! i of Have t \<Rightarrow> t)"]
        in \<open>auto simp: wake_inv_def set_pc_def awake_def split: if_splits\<close>)
  qed
next
  fix i assume n: "submit_notify i p = Some q"
  show ?thesis
  proof (cases "i < length (vecThread p) \<and> vecThread p ! i = Blocked")
    case True
    then have "q = set_pc i AtLock (p\<lparr>notifies := notifies p - 1\<rparr>)"
      using n by (simp add: submit_notify_def split: if_splits)
    then show ?thesis
      using True assms(2) Left_update [of "vecThread p" AtLock i] set_update_memI [of i "vecThread p" AtLock]
      by (auto simp: wake_inv_def set_pc_def awake_def)
  next
    case False
    then have q: "q = p\<lparr>notifies := notifies p - 1\<rparr>" and nb: "Blocked \<notin> set (vecThread p)"
      using n by (auto simp: submit_notify_def split: if_splits)
    have "\<exists>w\<in>set (vecThread p). awake w" if "vecThread p \<noteq> []" "Left \<notin> set (vecThread p)"
      using that nb by (cases "vecThread p") (auto simp: awake_def)
    then show ?thesis using q assms(2) by (auto simp: wake_inv_def)
  qed
qed (use assms(2) in \<open>auto simp: wake_inv_def submit_check_def submit_push_def destroy_store_def destroy_notify_def
    split: if_splits\<close>)

definition pool_inv :: "int \<Rightarrow> 'a FixedThreaPool \<Rightarrow> bool" where
  "pool_inv n p \<longleftrightarrow> mutex_inv p \<and> task_inv p \<and> idle_inv n p \<and> wake_inv p"

definition num_thread :: "int \<Rightarrow> int \<Rightarrow> int" where
  "num_thread size0 hw = min (max 1 size0) (max 0 hw)"

interpretation pool: invariant_system "\<lambda>p. 0 \<le> hw \<and> p = new_FixedThreaPool n hw" pool_step "pool_inv (num_thread n hw)"
proof (unfold_locales, goal_cases)
  case (1 p)
  have t: "sum_list (replicate k {#}) = ({#} :: 'a multiset)" for k by (induction k) auto
  from 1 show ?case
    by (auto simp: pool_inv_def new_FixedThreaPool_def mutex_inv_def task_inv_def idle_inv_def wake_inv_def num_thread_def
        Let_def t sum_list_replicate min_def max_def)
next
  case (2 p q)
  then show ?case using mutex_step task_step idle_step wake_step unfolding pool_inv_def by blast
qed

section \<open>Properties\<close>

text \<open>C12: every task runs at most once and in order: in every reachable state the tasks taken by the
  workers followed by the queue are exactly the tasks pushed, in order, and every task that was taken
  has been run or is in the hands of exactly one worker.\<close>

theorem pool_tasks_conserved:
  assumes "reach (\<lambda>p. 0 \<le> hw \<and> p = new_FixedThreaPool n hw) pool_step p"
  shows "taken p @ queTask p = pushed p \<and>
    mset (taken p) = mset (finished p) + sum_list (map task_of (vecThread p))"
  using pool.reach_inv [OF assms] by (simp add: pool_inv_def task_inv_def)

text \<open>A pool of one thread, and the two runs the witnesses use.\<close>

definition pool1 :: "nat FixedThreaPool" where
  "pool1 = new_FixedThreaPool 1 1"

lemma pool1_init: "reach (\<lambda>p. 0 \<le> (1 :: int) \<and> p = new_FixedThreaPool 1 1) pool_step pool1"
  by (rule reach_init) (simp add: pool1_def)

definition queued_pool :: "nat FixedThreaPool" where
  "queued_pool = pool1\<lparr>queTask := [7], pushed := [7], notifies := 1\<rparr>"

lemma queued_pool_reach: "reach (\<lambda>p. 0 \<le> (1 :: int) \<and> p = new_FixedThreaPool 1 1) pool_step queued_pool"
proof -
  have "pool_step pool1 (submit_check 7 pool1)" by (rule step_check)
  moreover have "pool_step (submit_check 7 pool1) queued_pool"
    by (rule step_push [of 7]) (simp add: submit_push_def submit_check_def queued_pool_def pool1_def new_FixedThreaPool_def)
  ultimately show ?thesis using reach_step pool1_init by metis
qed

theorem pool_tasks_conserved_witness:
  "reach (\<lambda>p. 0 \<le> (1 :: int) \<and> p = new_FixedThreaPool 1 1) pool_step queued_pool \<and>
   taken queued_pool @ queTask queued_pool = [7]"
  using queued_pool_reach pool_tasks_conserved [OF queued_pool_reach] by (simp add: queued_pool_def)

text \<open>C16: no submitted task is forgotten: while the pool is not being destroyed and has at least one
  thread, a queued task implies that some thread is awake (and will look at the queue again) or that
  the notification of a push is still to come.\<close>

theorem pool_no_lost_wakeup:
  assumes "reach (\<lambda>p. 0 \<le> hw \<and> p = new_FixedThreaPool n hw) pool_step p" and "0 < hw"
    and "\<not> bStoped p" and "queTask p \<noteq> []"
  shows "0 < notifies p \<or> (\<exists>w\<in>set (vecThread p). awake w)"
proof -
  have inv: "pool_inv (num_thread n hw) p" by (rule pool.reach_inv [OF assms(1)])
  then have "vecThread p \<noteq> []" using assms(2) by (auto simp: pool_inv_def idle_inv_def num_thread_def)
  then show ?thesis using inv assms(3,4) by (auto simp: pool_inv_def wake_inv_def)
qed

theorem pool_no_lost_wakeup_witness:
  "queTask queued_pool = [7] \<and> (0 < notifies queued_pool \<or> (\<exists>w\<in>set (vecThread queued_pool). awake w))"
  using pool_no_lost_wakeup [OF queued_pool_reach]
  by (simp add: queued_pool_def pool1_def new_FixedThreaPool_def)

text \<open>The idle counter is the number of threads that are not running a task: it never leaves the
  range from 0 to the number of threads.\<close>

theorem pool_idle_count_bounds:
  assumes "reach (\<lambda>p. 0 \<le> hw \<and> p = new_FixedThreaPool n hw) pool_step p"
  shows "idlCount p = int (length (filter (\<lambda>w. busy w = 0) (vecThread p))) \<and>
    0 \<le> idlCount p \<and> idlCount p \<le> min (max 1 n) hw"
proof -
  have inv: "idle_inv (num_thread n hw) p" using pool.reach_inv [OF assms] by (simp add: pool_inv_def)
  have hw: "0 \<le> hw" using assms by (induction rule: reach.induct) auto
  have cnt: "int (length ws) - sum_list (map busy ws) = int (length (filter (\<lambda>w. busy w = 0) ws))" for ws :: "'a worker list"
  proof (induction ws)
    case (Cons w ws)
    then show ?case by (cases w) auto
  qed simp
  have "idlCount p = int (length (filter (\<lambda>w. busy w = 0) (vecThread p)))"
    using inv cnt [of "vecThread p"] by (simp add: idle_inv_def idlCount_def)
  moreover have "int (length (filter (\<lambda>w. busy w = 0) (vecThread p))) \<le> int (length (vecThread p))"
    using length_filter_le by (simp only: of_nat_le_iff)
  moreover have "int (length (vecThread p)) = min (max 1 n) hw" using inv hw by (simp add: idle_inv_def num_thread_def)
  ultimately show ?thesis by linarith
qed

theorem pool_idle_count_bounds_witness:
  "idlCount queued_pool = 1 \<and> 0 \<le> idlCount queued_pool \<and> idlCount queued_pool \<le> min (max 1 1) 1"
  using pool_idle_count_bounds [OF queued_pool_reach]
  by (simp add: queued_pool_def pool1_def new_FixedThreaPool_def)

text \<open>the destructor can hang: it stores the flag without holding the mutex, so a thread that has
  just found the queue empty and is about to block misses \<open>notify_all\<close>. The state this leads to is
  reachable, the thread stays blocked, nothing can move any more and the join never returns.\<close>

theorem pool_destructor_can_hang:
  "\<exists>p :: nat FixedThreaPool. reach (\<lambda>p. 0 \<le> (1 :: int) \<and> p = new_FixedThreaPool 1 1) pool_step p \<and>
    destroying p = 2 \<and> \<not> joined p \<and> {q. pool_step p q} \<subseteq> {p}"
proof -
  let ?a = "set_pc 0 AtLock pool1"
  let ?b = "(set_pc 0 AtPred pool1)\<lparr>mtxTask := Some 0\<rparr>"
  let ?c = "(set_pc 0 AtBlock pool1)\<lparr>mtxTask := Some 0\<rparr>"
  let ?d = "?c\<lparr>bStoped := True, destroying := 1\<rparr>"
  let ?e = "?c\<lparr>bStoped := True, destroying := 2\<rparr>"
  let ?f = "(set_pc 0 Blocked pool1)\<lparr>bStoped := True, destroying := 2\<rparr>"
  note d = pool1_def new_FixedThreaPool_def set_pc_def do_work_def
  have "pool_step pool1 ?a" by (rule step_work [of 0]) (simp add: d)
  moreover have "pool_step ?a ?b" by (rule step_work [of 0]) (simp add: d)
  moreover have "pool_step ?b ?c" by (rule step_work [of 0]) (simp add: d)
  moreover have "pool_step ?c ?d" by (rule step_store) (simp add: d destroy_store_def)
  moreover have "pool_step ?d ?e" by (rule step_all) (simp add: d destroy_notify_def wake_def)
  moreover have "pool_step ?e ?f" by (rule step_work [of 0]) (simp add: d)
  ultimately have r: "reach (\<lambda>p. 0 \<le> (1 :: int) \<and> p = new_FixedThreaPool 1 1) pool_step ?f"
    using reach_step pool1_init by metis
  have "q = ?f" if "pool_step ?f q" for q
    using that by (rule pool_stepE)
      (auto simp: d submit_check_def submit_push_def submit_notify_def destroy_store_def destroy_notify_def split: if_splits)
  with r show ?thesis by (intro exI [of _ ?f]) (auto simp: joined_def d)
qed

text \<open>The destructor drops queued tasks: the loop test leaves as soon as the flag is set, so there is
  a run in which all threads are joined while an accepted task is still in the queue.\<close>

theorem pool_destructor_drops_tasks:
  "\<exists>p :: nat FixedThreaPool. reach (\<lambda>p. 0 \<le> (1 :: int) \<and> p = new_FixedThreaPool 1 1) pool_step p \<and>
    joined p \<and> queTask p = [7] \<and> finished p = []"
proof -
  let ?d = "queued_pool\<lparr>bStoped := True, destroying := 1\<rparr>"
  let ?e = "queued_pool\<lparr>bStoped := True, destroying := 2\<rparr>"
  let ?f = "set_pc 0 Left ?e"
  note d = queued_pool_def pool1_def new_FixedThreaPool_def set_pc_def do_work_def
  have "pool_step queued_pool ?d" by (rule step_store) (simp add: d destroy_store_def)
  moreover have "pool_step ?d ?e" by (rule step_all) (simp add: d destroy_notify_def wake_def)
  moreover have "pool_step ?e ?f" by (rule step_work [of 0]) (simp add: d)
  ultimately have "reach (\<lambda>p. 0 \<le> (1 :: int) \<and> p = new_FixedThreaPool 1 1) pool_step ?f"
    using reach_step queued_pool_reach by metis
  then show ?thesis by (intro exI [of _ ?f]) (auto simp: joined_def d)
qed

end
