(* ===== verification/DeployTypes.thy ===== *)
theory DeployTypes
  imports Prelude
begin

text \<open>
  \<^verbatim>\<open>StragetyDeployer/CommonStruct.{h,cpp}\<close>: the wire and database structures of the strategy
  deployer. Every structure consists of character arrays and \<open>int\<close>s (\<open>pack(4)\<close>, so there is no
  padding) and crosses the sockets as its memory image. The templates of the code are instantiated
  with the five table structures; here an object of one of them is an \<open>element\<close>.
\<close>

datatype ECommandType =
  TNullCmd | TLogin | TLogout | TKeepAlive | TQuery | TInsert | TDelete | TDelByCol | TUpdate | TDeploy | TExecute | TFinish

definition all_commands :: "ECommandType list" where
  "all_commands = [TNullCmd, TLogin, TLogout, TKeepAlive, TQuery, TInsert, TDelete, TDelByCol, TUpdate, TDeploy, TExecute, TFinish]"

fun cmd_code :: "ECommandType \<Rightarrow> i32" where
  "cmd_code TNullCmd = 0" | "cmd_code TLogin = 1" | "cmd_code TLogout = 2" | "cmd_code TKeepAlive = 3"
| "cmd_code TQuery = 4" | "cmd_code TInsert = 5" | "cmd_code TDelete = 6" | "cmd_code TDelByCol = 7"
| "cmd_code TUpdate = 8" | "cmd_code TDeploy = 9" | "cmd_code TExecute = 10" | "cmd_code TFinish = 11"

datatype EElementType = TManageUser | TServerConfig | TStrategyConfig | TDeployConfig | TDeployGroup

definition all_elements :: "EElementType list" where
  "all_elements = [TManageUser, TServerConfig, TStrategyConfig, TDeployConfig, TDeployGroup]"

fun ele_code :: "EElementType \<Rightarrow> i32" where
  "ele_code TManageUser = 0" | "ele_code TServerConfig = 1" | "ele_code TStrategyConfig = 2"
| "ele_code TDeployConfig = 3" | "ele_code TDeployGroup = 4"

text \<open>The label of a \<open>switch\<close> that an \<open>int\<close> from the wire selects, if any.\<close>

definition cmd_of :: "i32 \<Rightarrow> ECommandType option" where
  "cmd_of c = List.find (\<lambda>k. cmd_code k = c) all_commands"

definition ele_of :: "i32 \<Rightarrow> EElementType option" where
  "ele_of c = List.find (\<lambda>k. ele_code k = c) all_elements"

datatype STCMsgPattern = TPassiveResponse | TActivePush

fun pattern_code :: "STCMsgPattern \<Rightarrow> i32" where
  "pattern_code TPassiveResponse = 0" | "pattern_code TActivePush = 1"

datatype EResponseErrType = TSuccess | TReplicatedLogin | TIdentifyErr | TNoLogin | TMultiLogin | TDbError | TSshError

fun err_code :: "EResponseErrType \<Rightarrow> i32" where
  "err_code TSuccess = 0" | "err_code TReplicatedLogin = 1" | "err_code TIdentifyErr = 2" | "err_code TNoLogin = 3"
| "err_code TMultiLogin = 4" | "err_code TDbError = 5" | "err_code TSshError = 6"

datatype EMsgRecvState = StatInit | StatGetPattern | StatGetCmd | StatGetRsp | StatGetEleType

record ManageUser =
  mu_ManagerName :: bytes
  mu_ManagerPasswd :: bytes

record ServerConfig =
  sv_ServerName :: bytes
  sv_ServerIP :: bytes
  sv_ServerPort :: i32

record StrategyConfig =
  st_ConfigName :: bytes
  st_PlatformName :: bytes
  st_StragetyName :: bytes
  st_SrcRootDir :: bytes
  st_ManagerName :: bytes

record DeployConfig =
  dc_ConfigName :: bytes
  dc_ServerName :: bytes
  dc_UserName :: bytes
  dc_UserPasswd :: bytes
  dc_DstRootDir :: bytes
  dc_ExeUser :: bytes
  dc_ManagerName :: bytes

record DeployGroup =
  dg_GroupName :: bytes
  dg_StragetyConfig :: bytes
  dg_DeployConfig :: bytes
  dg_ManagerName :: bytes

record ReqResponse =
  ErrorID :: i32
  ErrMsg :: bytes
  RequestID :: i32
  CmdType :: i32

record ColumnFilter =
  ColName :: bytes
  ColVal :: bytes

datatype element =
  ElManageUser ManageUser | ElServerConfig ServerConfig | ElStrategyConfig StrategyConfig
| ElDeployConfig DeployConfig | ElDeployGroup DeployGroup

fun elem_type :: "element \<Rightarrow> EElementType" where
  "elem_type (ElManageUser _) = TManageUser" | "elem_type (ElServerConfig _) = TServerConfig"
| "elem_type (ElStrategyConfig _) = TStrategyConfig" | "elem_type (ElDeployConfig _) = TDeployConfig"
| "elem_type (ElDeployGroup _) = TDeployGroup"

text \<open>The array lengths of the declarations.\<close>

fun elem_ok :: "element \<Rightarrow> bool" where
  "elem_ok (ElManageUser x) = (length (mu_ManagerName x) = 64 \<and> length (mu_ManagerPasswd x) = 64)"
| "elem_ok (ElServerConfig x) = (length (sv_ServerName x) = 64 \<and> length (sv_ServerIP x) = 64)"
| "elem_ok (ElStrategyConfig x) = (length (st_ConfigName x) = 64 \<and> length (st_PlatformName x) = 128 \<and>
     length (st_StragetyName x) = 128 \<and> length (st_SrcRootDir x) = 256 \<and> length (st_ManagerName x) = 64)"
| "elem_ok (ElDeployConfig x) = (length (dc_ConfigName x) = 64 \<and> length (dc_ServerName x) = 64 \<and>
     length (dc_UserName x) = 64 \<and> length (dc_UserPasswd x) = 64 \<and> length (dc_DstRootDir x) = 256 \<and>
     length (dc_ExeUser x) = 64 \<and> length (dc_ManagerName x) = 64)"
| "elem_ok (ElDeployGroup x) = (length (dg_GroupName x) = 64 \<and> length (dg_StragetyConfig x) = 64 \<and>
     length (dg_DeployConfig x) = 64 \<and> length (dg_ManagerName x) = 64)"

fun elem_size :: "EElementType \<Rightarrow> nat" where
  "elem_size TManageUser = 128" | "elem_size TServerConfig = 132" | "elem_size TStrategyConfig = 640"
| "elem_size TDeployConfig = 640" | "elem_size TDeployGroup = 256"

fun enc_elem :: "element \<Rightarrow> bytes" where
  "enc_elem (ElManageUser x) = mu_ManagerName x @ mu_ManagerPasswd x"
| "enc_elem (ElServerConfig x) = sv_ServerName x @ sv_ServerIP x @ enc_i32 (sv_ServerPort x)"
| "enc_elem (ElStrategyConfig x) =
     st_ConfigName x @ st_PlatformName x @ st_StragetyName x @ st_SrcRootDir x @ st_ManagerName x"
| "enc_elem (ElDeployConfig x) =
     dc_ConfigName x @ dc_ServerName x @ dc_UserName x @ dc_UserPasswd x @ dc_DstRootDir x @ dc_ExeUser x @ dc_ManagerName x"
| "enc_elem (ElDeployGroup x) = dg_GroupName x @ dg_StragetyConfig x @ dg_DeployConfig x @ dg_ManagerName x"

text \<open>\<open>memcpy\<close> of \<open>sizeof(T)\<close> bytes into an object of class \<open>T\<close>.\<close>

definition arr :: "nat \<Rightarrow> nat \<Rightarrow> bytes \<Rightarrow> bytes" where
  "arr off n bs = take n (drop off bs)"

fun dec_elem :: "EElementType \<Rightarrow> bytes \<Rightarrow> element" where
  "dec_elem TManageUser bs = ElManageUser \<lparr>mu_ManagerName = arr 0 64 bs, mu_ManagerPasswd = arr 64 64 bs\<rparr>"
| "dec_elem TServerConfig bs =
     ElServerConfig \<lparr>sv_ServerName = arr 0 64 bs, sv_ServerIP = arr 64 64 bs, sv_ServerPort = dec_i32 (drop 128 bs)\<rparr>"
| "dec_elem TStrategyConfig bs =
     ElStrategyConfig \<lparr>st_ConfigName = arr 0 64 bs, st_PlatformName = arr 64 128 bs, st_StragetyName = arr 192 128 bs,
       st_SrcRootDir = arr 320 256 bs, st_ManagerName = arr 576 64 bs\<rparr>"
| "dec_elem TDeployConfig bs =
     ElDeployConfig \<lparr>dc_ConfigName = arr 0 64 bs, dc_ServerName = arr 64 64 bs, dc_UserName = arr 128 64 bs,
       dc_UserPasswd = arr 192 64 bs, dc_DstRootDir = arr 256 256 bs, dc_ExeUser = arr 512 64 bs, dc_ManagerName = arr 576 64 bs\<rparr>"
| "dec_elem TDeployGroup bs =
     ElDeployGroup \<lparr>dg_GroupName = arr 0 64 bs, dg_StragetyConfig = arr 64 64 bs, dg_DeployConfig = arr 128 64 bs,
       dg_ManagerName = arr 192 64 bs\<rparr>"

definition rsp_ok :: "ReqResponse \<Rightarrow> bool" where "rsp_ok r \<longleftrightarrow> length (ErrMsg r) = 64"

definition enc_rsp :: "ReqResponse \<Rightarrow> bytes" where
  "enc_rsp r = enc_i32 (ErrorID r) @ ErrMsg r @ enc_i32 (RequestID r) @ enc_i32 (CmdType r)"

definition dec_rsp :: "bytes \<Rightarrow> ReqResponse" where
  "dec_rsp bs = \<lparr>ErrorID = dec_i32 bs, ErrMsg = arr 4 64 bs, RequestID = dec_i32 (drop 68 bs), CmdType = dec_i32 (drop 72 bs)\<rparr>"

definition AllTableNames :: "string list" where
  "AllTableNames = [''ManageUser'', ''ServerConfig'', ''StrategyConfig'', ''DeployConfig'', ''DeployGroup'']"

section \<open>Lemmas\<close>

lemma cmd_of_code [simp]: "cmd_of (cmd_code c) = Some c"
  by (cases c) (simp_all add: cmd_of_def all_commands_def)

lemma ele_of_code [simp]: "ele_of (ele_code t) = Some t"
  by (cases t) (simp_all add: ele_of_def all_elements_def)

lemma ele_of_Some: "ele_of c = Some t \<Longrightarrow> c = ele_code t"
  by (auto simp: ele_of_def all_elements_def split: if_splits)

lemma cmd_of_Some: "cmd_of c = Some t \<Longrightarrow> c = cmd_code t"
  by (auto simp: cmd_of_def all_commands_def split: if_splits)

lemma pattern_code_inj [simp]: "pattern_code p = pattern_code q \<longleftrightarrow> p = q"
  by (cases p; cases q) simp_all

interpretation elem_codec: fixed_codec enc_elem "dec_elem t" "elem_size t" "\<lambda>x. elem_ok x \<and> elem_type x = t"
proof (unfold_locales, goal_cases)
  case (1 x)
  then show ?case by (cases x) auto
next
  case (2 x rest)
  then show ?case by (cases x) (auto simp: arr_def)
qed

interpretation rsp_codec: fixed_codec enc_rsp dec_rsp 76 rsp_ok
  by unfold_locales (simp_all add: enc_rsp_def dec_rsp_def rsp_ok_def arr_def)

lemma elem_type_dec [simp]: "elem_type (dec_elem t bs) = t"
  by (cases t) simp_all

lemma elem_size_pos [simp]: "0 < elem_size t"
  by (cases t) simp_all

end
