(* ===== verification/AsyncZmq.thy ===== *)
theory AsyncZmq
  imports Prelude
begin

text \<open>
  \<^verbatim>\<open>StragetyDeployer/AsyncZmqApi.{h,cpp}\<close>: the client's connection to the dispatcher. User threads
  send multipart messages to the poll thread over an in-process socket; the poll thread forwards them
  to the TCP socket and hands received frames to the callback. ZeroMQ is not modelled: what a socket
  delivers is a list of frames with their more flags, and calls are logged. A receive on an empty list
  is the fault \<open>WouldBlock\<close>.
\<close>

record AsyncZmqApi =
  m_bInitConnect :: bool
  m_bStop :: bool
  m_bPolling :: bool
  m_bTcpConnected :: bool
  m_funcRecv :: bool
  m_funcConnect :: bool
  m_funcDisconnect :: bool
  m_strAddr :: bytes

datatype zmq_call =
    ZConnect bytes | ZDisconnect bytes | ZStartThread | ZJoin
  | ZSendTcp bytes bool | CallRecv bytes bool | CallConnect | CallDisconnect

definition ASYNCZMQAPI_OK :: int where "ASYNCZMQAPI_OK = 0"
definition ASYNCZMQAPI_ERROR :: int where "ASYNCZMQAPI_ERROR = -1"

definition new_AsyncZmqApi :: AsyncZmqApi where
  "new_AsyncZmqApi =
     \<lparr>m_bInitConnect = False, m_bStop = False, m_bPolling = False, m_bTcpConnected = False, m_funcRecv = False,
      m_funcConnect = False, m_funcDisconnect = False, m_strAddr = []\<rparr>"

text \<open>The connection monitor calls these with the API object set.\<close>

definition on_event_connected :: "AsyncZmqApi \<Rightarrow> AsyncZmqApi \<times> zmq_call list" where
  "on_event_connected a = (a\<lparr>m_bTcpConnected := True\<rparr>, if m_funcConnect a then [CallConnect] else [])"

definition on_event_disconnected :: "AsyncZmqApi \<Rightarrow> AsyncZmqApi \<times> zmq_call list" where
  "on_event_disconnected a = (a\<lparr>m_bTcpConnected := False\<rparr>, if m_funcDisconnect a then [CallDisconnect] else [])"

definition IsConnected :: "AsyncZmqApi \<Rightarrow> bool" where "IsConnected a = m_bTcpConnected a"
definition SetRemoteAddr :: "bytes \<Rightarrow> AsyncZmqApi \<Rightarrow> AsyncZmqApi" where "SetRemoteAddr strAddr a = a\<lparr>m_strAddr := strAddr\<rparr>"
definition SetRecvCallback :: "bool \<Rightarrow> AsyncZmqApi \<Rightarrow> AsyncZmqApi" where "SetRecvCallback f a = a\<lparr>m_funcRecv := f\<rparr>"
definition SetConnectCallback :: "bool \<Rightarrow> AsyncZmqApi \<Rightarrow> AsyncZmqApi" where "SetConnectCallback f a = a\<lparr>m_funcConnect := f\<rparr>"
definition SetDisconnectCallback :: "bool \<Rightarrow> AsyncZmqApi \<Rightarrow> AsyncZmqApi" where "SetDisconnectCallback f a = a\<lparr>m_funcDisconnect := f\<rparr>"

definition Connect :: "AsyncZmqApi \<Rightarrow> int \<times> AsyncZmqApi \<times> zmq_call list" where
  "Connect a =
     (if \<not> m_bInitConnect a
      then (if m_strAddr a \<noteq> [] then (ASYNCZMQAPI_OK, a\<lparr>m_bInitConnect := True\<rparr>, [ZConnect (m_strAddr a)])
            else (ASYNCZMQAPI_ERROR, a, []))
      else (ASYNCZMQAPI_OK, a, []))"

definition api_Start :: "AsyncZmqApi \<Rightarrow> AsyncZmqApi \<times> zmq_call list" where
  "api_Start a = (a\<lparr>m_bStop := False\<rparr>, if \<not> m_bPolling a then [ZStartThread] else [])"

definition api_Stop :: "AsyncZmqApi \<Rightarrow> AsyncZmqApi" where "api_Stop a = a\<lparr>m_bStop := True\<rparr>"

text \<open>\<open>Send\<close> maps the result of \<open>zmq_send\<close>; the frame it passes is marked with \<open>ZMQ_SNDMORE\<close> unless it is
  the last one.\<close>

definition Send :: "int \<Rightarrow> bytes \<Rightarrow> bool \<Rightarrow> int \<times> frame" where
  "Send ret d bLast = (if ret = -1 then ASYNCZMQAPI_ERROR else ASYNCZMQAPI_OK, (d, \<not> bLast))"

section \<open>The poll thread\<close>

text \<open>The two receive loops run until a frame without the more flag.\<close>

fun forward_loop :: "frame list \<Rightarrow> (zmq_call list \<times> frame list) res" where
  "forward_loop [] = Inl WouldBlock"
| "forward_loop ((d, rcvmore) # fs) =
     (if rcvmore then rbind (forward_loop fs) (\<lambda>(e, rest). Inr (ZSendTcp d True # e, rest))
      else Inr ([ZSendTcp d False], fs))"

fun recv_loop :: "bool \<Rightarrow> frame list \<Rightarrow> (zmq_call list \<times> frame list) res" where
  "recv_loop cb [] = Inl WouldBlock"
| "recv_loop cb ((d, rcvmore) # fs) =
     (let e1 = (if cb then [CallRecv d (\<not> rcvmore)] else []) in
      if rcvmore then rbind (recv_loop cb fs) (\<lambda>(e, rest). Inr (e1 @ e, rest)) else Inr (e1, fs))"

text \<open>One round of the loop of \<open>pollFunc\<close>: \<open>inproc\<close> and \<open>tcp\<close> are what the two sockets hold; a socket is
  polled in when it holds something. The first frame from the in-process socket is the router id.\<close>

definition poll_round :: "AsyncZmqApi \<Rightarrow> frame list \<Rightarrow> frame list \<Rightarrow> (zmq_call list \<times> frame list \<times> frame list) res" where
  "poll_round a inproc tcp =
     rbind (if inproc \<noteq> [] then forward_loop (tl inproc) else Inr ([], inproc)) (\<lambda>(e1, inproc2).
     rbind (if tcp \<noteq> [] then recv_loop (m_funcRecv a) tcp else Inr ([], tcp)) (\<lambda>(e2, tcp2).
     Inr (e1 @ e2, inproc2, tcp2)))"

definition poll_enter :: "AsyncZmqApi \<Rightarrow> AsyncZmqApi" where
  "poll_enter a = (if \<not> m_bStop a then a\<lparr>m_bPolling := True\<rparr> else a)"

definition poll_exit :: "AsyncZmqApi \<Rightarrow> AsyncZmqApi \<times> zmq_call list" where
  "poll_exit a = (a\<lparr>m_bInitConnect := False, m_bPolling := False\<rparr>, [ZDisconnect (m_strAddr a)])"

section \<open>Lemmas\<close>

lemma forward_loop_message:
  "ms \<noteq> [] \<Longrightarrow> forward_loop (multipart ms @ rest) = Inr (map (\<lambda>(d, m). ZSendTcp d m) (multipart ms), rest)"
  by (induction ms rule: multipart.induct) auto

lemma recv_loop_message:
  "ms \<noteq> [] \<Longrightarrow> recv_loop True (multipart ms @ rest) = Inr (map (\<lambda>(d, m). CallRecv d (\<not> m)) (multipart ms), rest)"
  by (induction ms rule: multipart.induct) auto

section \<open>Properties\<close>

text \<open>C33: one round of the poll thread moves one whole message each way: the oldest in-process message
  goes out on the TCP socket frame by frame with its message boundary intact and without the router id,
  the oldest TCP message reaches the receive callback with \<open>bLast\<close> on its last frame only, and the rest of
  both queues stays untouched.\<close>

theorem poll_round_moves_messages:
  assumes "out \<noteq> []" and "inm \<noteq> []" and "m_funcRecv a"
  shows "poll_round a ((rid, True) # multipart out @ rest1) (multipart inm @ rest2) =
    Inr (map (\<lambda>(d, m). ZSendTcp d m) (multipart out) @ map (\<lambda>(d, m). CallRecv d (\<not> m)) (multipart inm), rest1, rest2)"
proof -
  have "multipart inm \<noteq> []" using assms(2) by (cases inm rule: multipart.cases) auto
  then show ?thesis
    using assms(3) by (simp add: poll_round_def forward_loop_message [OF assms(1)] recv_loop_message [OF assms(2)])
qed

theorem poll_round_moves_messages_witness:
  "poll_round (new_AsyncZmqApi\<lparr>m_funcRecv := True\<rparr>) ([([9], True)] @ multipart [[1], [2]] @ [([8], True)]) (multipart [[3], [4]]) =
    Inr ([ZSendTcp [1] True, ZSendTcp [2] False, CallRecv [3] False, CallRecv [4] True], [([8], True)], [])"
  using poll_round_moves_messages [of "[[1], [2]]" "[[3], [4]]" "new_AsyncZmqApi\<lparr>m_funcRecv := True\<rparr>" "[9]" "[([8], True)]" "[]"]
  by (simp add: new_AsyncZmqApi_def)

end
