(* ===== verification/DispManager.thy ===== *)
theory DispManager
  imports DeployTypes AsyncZmq
begin

text \<open>
  \<^verbatim>\<open>StragetyDeployer/DispatcherManager.{h,cpp}\<close> and \<^verbatim>\<open>DispManagerImpl.{h,cpp}\<close>: the client of the
  dispatcher. A request is the list of frames it sends over the in-process socket; the receive state
  machine takes one frame at a time and makes callbacks. A pointer to a frame's data that is cast to a
  structure is passed on as the bytes of the frame: only a callback that reads it can over-read.
\<close>

definition ERROR_SUCCESS :: int where "ERROR_SUCCESS = 0"
definition ERROR_NOCONNECT :: int where "ERROR_NOCONNECT = -1"
definition ERROR_PARAMETER :: int where "ERROR_PARAMETER = -2"

record DispatcherManager =
  azmqApi :: AsyncZmqApi
  m_strServAddr :: bytes
  m_strIdentity :: bytes
  stateMachine :: EMsgRecvState
  msgPattern :: i32
  reqRsp :: ReqResponse
  recvCmd :: i32
  recvEleType :: i32

datatype mgr_call =
    OnRspQry EElementType ReqResponse "bytes option" i32 bool
  | OnRspCommon ReqResponse i32 | OnRspLogin ReqResponse i32 | OnRspLogout ReqResponse i32
  | OnRspDeploy ReqResponse i32 | OnRspFinish ReqResponse i32 | OnRspInsert ReqResponse i32
  | OnRspUpdate ReqResponse i32 | OnRspDelete ReqResponse i32 | MgrSend "frame list"

text \<open>The constructor registers the three callbacks; the members of the state machine other than its
  state and the command start uninitialised (\<open>u\<close> and \<open>rsp\<close>).\<close>

definition new_DispatcherManager :: "i32 \<Rightarrow> ReqResponse \<Rightarrow> DispatcherManager" where
  "new_DispatcherManager u rsp =
     \<lparr>azmqApi = SetDisconnectCallback True (SetConnectCallback True (SetRecvCallback True new_AsyncZmqApi)),
      m_strServAddr = [], m_strIdentity = [], stateMachine = StatInit, msgPattern = u, reqRsp = rsp,
      recvCmd = cmd_code TNullCmd, recvEleType = u\<rparr>"

definition RegistServerAddr :: "bytes \<Rightarrow> DispatcherManager \<Rightarrow> DispatcherManager" where
  "RegistServerAddr strAddr m = m\<lparr>m_strServAddr := strAddr, azmqApi := SetRemoteAddr strAddr (azmqApi m)\<rparr>"

definition OpenAsyncApi :: "DispatcherManager \<Rightarrow> int \<times> DispatcherManager \<times> zmq_call list" where
  "OpenAsyncApi m =
     (let (ret, a, e) = Connect (azmqApi m) in
      if ret = ASYNCZMQAPI_OK then (let (a2, e2) = api_Start a in (ret, m\<lparr>azmqApi := a2\<rparr>, e @ e2))
      else (ret, m\<lparr>azmqApi := a\<rparr>, e))"

definition CloseAsyncApi :: "DispatcherManager \<Rightarrow> DispatcherManager \<times> zmq_call list" where
  "CloseAsyncApi m = (m\<lparr>azmqApi := api_Stop (azmqApi m)\<rparr>, [ZJoin])"

section \<open>Requests\<close>

text \<open>The frame \<open>Send\<close> passes to \<open>zmq_send\<close>; its result is ignored by all callers.\<close>

definition sent :: "bytes \<Rightarrow> bool \<Rightarrow> frame" where
  "sent d bLast = snd (Send 0 d bLast)"

definition ReqLogin :: "bytes \<Rightarrow> i32 \<Rightarrow> DispatcherManager \<Rightarrow> int \<times> DispatcherManager \<times> frame list" where
  "ReqLogin strid nRequestId m =
     (if strid = [] then (ERROR_PARAMETER, m, [])
      else if \<not> IsConnected (azmqApi m) then (ERROR_NOCONNECT, m, [])
      else (ERROR_SUCCESS, m\<lparr>m_strIdentity := strid\<rparr>,
            [sent strid False, sent (enc_i32 (cmd_code TLogin)) False, sent (enc_i32 nRequestId) True]))"

definition ReqLogout :: "i32 \<Rightarrow> DispatcherManager \<Rightarrow> int \<times> frame list" where
  "ReqLogout nRequestId m =
     (if \<not> IsConnected (azmqApi m) then (ERROR_NOCONNECT, [])
      else (ERROR_SUCCESS,
            [sent (m_strIdentity m) False, sent (enc_i32 (cmd_code TLogout)) False, sent (enc_i32 nRequestId) True]))"

text \<open>The loops that send the elements: the last one closes the message.\<close>

fun send_filters :: "ColumnFilter list \<Rightarrow> frame list" where
  "send_filters [] = []"
| "send_filters (f # fs) = sent (ColName f) False # sent (ColVal f) (fs = []) # send_filters fs"

fun send_elems :: "element list \<Rightarrow> frame list" where
  "send_elems [] = []"
| "send_elems (x # xs) = sent (enc_elem x) (xs = []) # send_elems xs"

definition ReqQryByColumnFilter :: "ColumnFilter list \<Rightarrow> i32 \<Rightarrow> i32 \<Rightarrow> DispatcherManager \<Rightarrow> int \<times> frame list" where
  "ReqQryByColumnFilter filterVec eleType nRequestId m =
     (if \<not> IsConnected (azmqApi m) then (ERROR_NOCONNECT, [])
      else (ERROR_SUCCESS,
            [sent (m_strIdentity m) False, sent (enc_i32 (cmd_code TQuery)) False, sent (enc_i32 nRequestId) False,
             sent (enc_i32 eleType) (filterVec = [])] @ send_filters filterVec))"

definition ReqDelByColumnFilter :: "ColumnFilter list \<Rightarrow> i32 \<Rightarrow> i32 \<Rightarrow> DispatcherManager \<Rightarrow> int \<times> frame list" where
  "ReqDelByColumnFilter filterVec eleType nRequestId m =
     (if \<not> IsConnected (azmqApi m) then (ERROR_NOCONNECT, [])
      else (ERROR_SUCCESS,
            [sent (m_strIdentity m) False, sent (enc_i32 (cmd_code TDelByCol)) False, sent (enc_i32 nRequestId) False,
             sent (enc_i32 eleType) (filterVec = [])] @ send_filters filterVec))"

definition ReqInsUpdDelByEletype ::
  "element list \<Rightarrow> i32 \<Rightarrow> i32 \<Rightarrow> ECommandType \<Rightarrow> DispatcherManager \<Rightarrow> int \<times> frame list" where
  "ReqInsUpdDelByEletype eleVec eleType nRequestId cmd m =
     (if eleVec = [] then (ERROR_PARAMETER, [])
      else if \<not> IsConnected (azmqApi m) then (ERROR_NOCONNECT, [])
      else (ERROR_SUCCESS,
            [sent (m_strIdentity m) False, sent (enc_i32 (cmd_code cmd)) False, sent (enc_i32 nRequestId) False,
             sent (enc_i32 eleType) False] @ send_elems eleVec))"

text \<open>An action type other than 0, 1, 2 sends the uninitialised \<open>cmd\<close> (\<open>u\<close>).\<close>

definition ReqDeployExecuteFinish :: "i32 \<Rightarrow> element list \<Rightarrow> i32 \<Rightarrow> int \<Rightarrow> DispatcherManager \<Rightarrow> int \<times> frame list" where
  "ReqDeployExecuteFinish u depGrpVec nRequestId actType m =
     (if \<not> IsConnected (azmqApi m) then (ERROR_NOCONNECT, [])
      else (let cmd = (if actType = 0 then cmd_code TDeploy else if actType = 1 then cmd_code TExecute
                       else if actType = 2 then cmd_code TFinish else u)
            in (ERROR_SUCCESS,
                [sent (m_strIdentity m) False, sent (enc_i32 cmd) False, sent (enc_i32 nRequestId) False,
                 sent (enc_i32 (ele_code TDeployGroup)) (depGrpVec = [])] @ send_elems depGrpVec)))"

section \<open>The receive state machine\<close>

definition onReqRsp :: "ReqResponse \<Rightarrow> mgr_call list" where
  "onReqRsp r =
     (case cmd_of (CmdType r) of
        Some TLogin \<Rightarrow> [OnRspLogin r (RequestID r)]
      | Some TLogout \<Rightarrow> [OnRspLogout r (RequestID r)]
      | Some TDeploy \<Rightarrow> [OnRspDeploy r (RequestID r)]
      | Some TFinish \<Rightarrow> [OnRspFinish r (RequestID r)]
      | Some TInsert \<Rightarrow> [OnRspInsert r (RequestID r)]
      | Some TDelete \<Rightarrow> [OnRspDelete r (RequestID r)]
      | Some TDelByCol \<Rightarrow> [OnRspDelete r (RequestID r)]
      | Some TUpdate \<Rightarrow> [OnRspUpdate r (RequestID r)]
      | _ \<Rightarrow> [OnRspCommon r (RequestID r)])"

definition onReqRsp_data :: "ReqResponse \<Rightarrow> i32 \<Rightarrow> bytes option \<Rightarrow> bool \<Rightarrow> mgr_call list" where
  "onReqRsp_data r nEleType d bLast =
     (case cmd_of (CmdType r) of
        Some TQuery \<Rightarrow>
          (case ele_of nEleType of Some t \<Rightarrow> [OnRspQry t r d (RequestID r) bLast] | None \<Rightarrow> [])
      | _ \<Rightarrow> [])"

text \<open>A keep-alive push is answered at once; the overload with data does nothing.\<close>

definition onMsgPush :: "i32 \<Rightarrow> DispatcherManager \<Rightarrow> mgr_call list" where
  "onMsgPush cmd m =
     (case cmd_of cmd of
        Some TKeepAlive \<Rightarrow>
          [MgrSend [sent (m_strIdentity m) False, sent (enc_i32 (cmd_code TKeepAlive)) True]]
      | _ \<Rightarrow> [])"

definition onMsgPush_data :: "i32 \<Rightarrow> i32 \<Rightarrow> bytes option \<Rightarrow> bool \<Rightarrow> mgr_call list" where
  "onMsgPush_data cmd nEleType d bLast = []"

definition recvHandle :: "bytes \<Rightarrow> bool \<Rightarrow> DispatcherManager \<Rightarrow> (DispatcherManager \<times> mgr_call list) res" where
  "recvHandle d bLast m =
     (case stateMachine m of
        StatInit \<Rightarrow>
          if length d \<noteq> 4 then Inl AssertFail
          else (let m1 = m\<lparr>msgPattern := dec_i32 d\<rparr>
                in Inr (if \<not> bLast then m1\<lparr>stateMachine := StatGetPattern\<rparr> else m1, []))
      | StatGetPattern \<Rightarrow>
          if msgPattern m = pattern_code TPassiveResponse then
            if length d \<noteq> 76 then Inl AssertFail
            else (let m1 = m\<lparr>reqRsp := dec_rsp d\<rparr> in
                  if bLast then Inr (m1\<lparr>stateMachine := StatInit\<rparr>, onReqRsp (reqRsp m1))
                  else Inr (m1\<lparr>stateMachine := StatGetRsp\<rparr>, []))
          else
            if length d \<noteq> 4 then Inl AssertFail
            else (let m1 = m\<lparr>recvCmd := dec_i32 d\<rparr> in
                  if bLast then Inr (m1\<lparr>stateMachine := StatInit\<rparr>, onMsgPush (recvCmd m1) m1)
                  else Inr (m1\<lparr>stateMachine := StatGetCmd\<rparr>, []))
      | StatGetCmd \<Rightarrow>
          if length d \<noteq> 4 then Inl AssertFail
          else (let m1 = m\<lparr>recvEleType := dec_i32 d\<rparr> in
                if bLast then Inr (m1\<lparr>stateMachine := StatInit\<rparr>, onMsgPush_data (recvCmd m1) (recvEleType m1) None bLast)
                else Inr (m1\<lparr>stateMachine := StatGetEleType\<rparr>, []))
      | StatGetRsp \<Rightarrow>
          if length d \<noteq> 4 then Inl AssertFail
          else (let m1 = m\<lparr>recvEleType := dec_i32 d\<rparr> in
                if bLast then Inr (m1\<lparr>stateMachine := StatInit\<rparr>, onReqRsp_data (reqRsp m1) (recvEleType m1) None bLast)
                else Inr (m1\<lparr>stateMachine := StatGetEleType\<rparr>, []))
      | StatGetEleType \<Rightarrow>
          let m1 = (if bLast then m\<lparr>stateMachine := StatInit\<rparr> else m) in
          if msgPattern m1 = pattern_code TPassiveResponse
          then Inr (m1, onReqRsp_data (reqRsp m1) (recvEleType m1) (Some d) bLast)
          else Inr (m1, onMsgPush_data (recvCmd m1) (recvEleType m1) (Some d) bLast))"

text \<open>The frames of the TCP socket reach \<open>recvHandle\<close> one by one with \<open>bLast\<close> the negated more flag.\<close>

fun recv_frames :: "frame list \<Rightarrow> DispatcherManager \<Rightarrow> (DispatcherManager \<times> mgr_call list) res" where
  "recv_frames [] m = Inr (m, [])"
| "recv_frames ((d, rcvmore) # fs) m =
     rbind (recvHandle d (\<not> rcvmore) m) (\<lambda>(m1, e1).
     rbind (recv_frames fs m1) (\<lambda>(m2, e2). Inr (m2, e1 @ e2)))"

section \<open>DispManagerImpl\<close>

text \<open>What the callbacks print. A structure is read through the cast pointer, so the frame must be as
  long as the structure; \<open>sprintf\<close> writes into a local array.\<close>

fun show_elem :: "element \<Rightarrow> bytes res" where
  "show_elem (ElManageUser x) =
     rbind (c_string (mu_ManagerName x)) (\<lambda>a. rbind (c_string (mu_ManagerPasswd x)) (\<lambda>b.
     sprintf_fits 256 (lit ''Manager: ManagerName='' @ a @ lit '',ManagerPasswd='' @ b @ [10])))"
| "show_elem (ElServerConfig x) =
     rbind (c_string (sv_ServerName x)) (\<lambda>a. rbind (c_string (sv_ServerIP x)) (\<lambda>b.
     sprintf_fits 256 (lit ''ServerConfig: ServerName='' @ a @ lit '',ServerIP='' @ b @ lit '',ServerPort='' @
       lit (show_int (sint (sv_ServerPort x))) @ [10])))"
| "show_elem (ElStrategyConfig x) =
     rbind (c_string (st_ConfigName x)) (\<lambda>a. rbind (c_string (st_PlatformName x)) (\<lambda>b.
     rbind (c_string (st_StragetyName x)) (\<lambda>c. rbind (c_string (st_SrcRootDir x)) (\<lambda>d.
     rbind (c_string (st_ManagerName x)) (\<lambda>e.
     sprintf_fits 512 (lit ''StrategyConfig: ConfigName='' @ a @ lit '',PlatformName='' @ b @ lit '',StragetyName='' @ c @
       lit '',SrcRootDir='' @ d @ lit '',ManagerName='' @ e @ [10]))))))"
| "show_elem (ElDeployConfig x) =
     rbind (c_string (dc_ConfigName x)) (\<lambda>a. rbind (c_string (dc_ServerName x)) (\<lambda>b.
     rbind (c_string (dc_UserName x)) (\<lambda>c. rbind (c_string (dc_UserPasswd x)) (\<lambda>d.
     rbind (c_string (dc_DstRootDir x)) (\<lambda>e. rbind (c_string (dc_ExeUser x)) (\<lambda>f.
     rbind (c_string (dc_ManagerName x)) (\<lambda>h.
     sprintf_fits 512 (lit ''DeployConfig: ConfigName='' @ a @ lit '',ServerName='' @ b @ lit '',UserName='' @ c @
       lit '',UserPasswd='' @ d @ lit '',DstRootDir='' @ e @ lit '',ExeUser='' @ f @ lit '',ManagerName='' @ h @ [10]))))))))"
| "show_elem (ElDeployGroup x) =
     rbind (c_string (dg_GroupName x)) (\<lambda>a. rbind (c_string (dg_StragetyConfig x)) (\<lambda>b.
     rbind (c_string (dg_DeployConfig x)) (\<lambda>c. rbind (c_string (dg_ManagerName x)) (\<lambda>d.
     sprintf_fits 512 (lit ''DeployGroup: GroupName='' @ a @ lit '',StragetyConfig='' @ b @ lit '',DeployConfig='' @ c @
       lit '',ManagerName='' @ d @ [10])))))"

definition impl_OnRspQry :: "EElementType \<Rightarrow> ReqResponse \<Rightarrow> bytes option \<Rightarrow> i32 \<Rightarrow> bool \<Rightarrow> bytes res" where
  "impl_OnRspQry t r d nRequestId bLast =
     rbind (if ErrorID r = 0
            then (case d of
                    None \<Rightarrow> Inr []
                  | Some p \<Rightarrow> if length p < elem_size t then Inl OutOfBounds else show_elem (dec_elem t p))
            else rbind (c_string (ErrMsg r)) (\<lambda>s. Inr (s @ [10]))) (\<lambda>out.
     Inr (out @ (if bLast then lit ''requestid '' @ lit (show_int (sint nRequestId)) @ lit '' all returned'' @ [10] else [])))"

definition impl_named :: "string \<Rightarrow> ReqResponse \<Rightarrow> bytes res" where
  "impl_named nm r = rbind (c_string (ErrMsg r)) (\<lambda>s. Inr (lit nm @ [10] @ s @ [10]))"

definition impl_result :: "string \<Rightarrow> ReqResponse \<Rightarrow> i32 \<Rightarrow> bytes res" where
  "impl_result what r nRequestId =
     rbind (c_string (ErrMsg r)) (\<lambda>s. Inr (lit what @ lit '' request: '' @ lit (show_int (sint nRequestId)) @ lit '', Result: '' @ s @ [10]))"

fun impl_print :: "mgr_call \<Rightarrow> bytes res" where
  "impl_print (OnRspQry t r d i bLast) = impl_OnRspQry t r d i bLast"
| "impl_print (OnRspLogin r i) = impl_named ''DispManagerImpl::OnRspLogin'' r"
| "impl_print (OnRspLogout r i) = impl_named ''DispManagerImpl::OnRspLogout'' r"
| "impl_print (OnRspInsert r i) = impl_result ''Insert'' r i"
| "impl_print (OnRspUpdate r i) = impl_result ''Update'' r i"
| "impl_print (OnRspDelete r i) = impl_result ''Delete'' r i"
| "impl_print _ = Inr []"

section \<open>Lemmas on requests\<close>

lemma sent_simp [simp]: "sent d b = (d, \<not> b)"
  by (simp add: sent_def Send_def)

lemma send_filters_multipart: "send_filters fs = multipart (concat (map (\<lambda>f. [ColName f, ColVal f]) fs))"
  by (induction fs) (auto simp: multipart_Cons)

lemma send_elems_multipart: "send_elems xs = multipart (map enc_elem xs)"
  by (induction xs) (auto simp: multipart_Cons)

lemma ReqQryByColumnFilter_frames:
  "IsConnected (azmqApi m) \<Longrightarrow>
   ReqQryByColumnFilter fs t i m =
     (ERROR_SUCCESS, multipart (m_strIdentity m # enc_i32 (cmd_code TQuery) # enc_i32 i # enc_i32 t #
        concat (map (\<lambda>f. [ColName f, ColVal f]) fs)))"
  by (auto simp: ReqQryByColumnFilter_def send_filters_multipart multipart_Cons)

lemma ReqInsUpdDelByEletype_frames:
  "IsConnected (azmqApi m) \<Longrightarrow> xs \<noteq> [] \<Longrightarrow>
   ReqInsUpdDelByEletype xs t i cmd m =
     (ERROR_SUCCESS, multipart (m_strIdentity m # enc_i32 (cmd_code cmd) # enc_i32 i # enc_i32 t # map enc_elem xs))"
  by (auto simp: ReqInsUpdDelByEletype_def send_elems_multipart multipart_Cons)

section \<open>Lemmas on the receive state machine\<close>

lemma recvHandle_last_resets: "recvHandle d True m = Inr (m', e) \<Longrightarrow> stateMachine m' = StatInit"
  by (auto simp: recvHandle_def Let_def split: EMsgRecvState.splits if_splits)

lemma recvHandle_fault: "recvHandle d b m = Inl f \<Longrightarrow> f = AssertFail"
  by (auto simp: recvHandle_def Let_def split: EMsgRecvState.splits if_splits)

lemma recv_frames_append:
  "recv_frames (fs @ gs) m =
     rbind (recv_frames fs m) (\<lambda>(m1, e1). rbind (recv_frames gs m1) (\<lambda>(m2, e2). Inr (m2, e1 @ e2)))"
proof (induction fs arbitrary: m)
  case Nil
  then show ?case by (cases "recv_frames gs m") auto
next
  case (Cons f fs)
  obtain d r where f: "f = (d, r)" by (cases f)
  show ?case
  proof (cases "recvHandle d (\<not> r) m")
    case (Inr p)
    obtain m1 e1 where p: "p = (m1, e1)" by (cases p)
    show ?thesis
    proof (cases "recv_frames fs m1")
      case (Inr q)
      obtain m2 e2 where q: "q = (m2, e2)" by (cases q)
      show ?thesis
        using \<open>recvHandle d (\<not> r) m = Inr p\<close> Inr by (cases "recv_frames gs m2") (auto simp: f p q Cons.IH)
    qed (use Inr in \<open>simp add: f p Cons.IH\<close>)
  qed (simp add: f)
qed

lemma recv_frames_fault: "recv_frames fs m = Inl f \<Longrightarrow> f = AssertFail"
proof (induction fs m rule: recv_frames.induct)
  case (2 d r fs m)
  then show ?case
    by (cases "recvHandle d (\<not> r) m"; cases "recv_frames fs (fst (projr (recvHandle d (\<not> r) m)))")
      (auto dest: recvHandle_fault)
qed simp

lemma recv_frames_ends_init:
  "recv_frames (multipart ms) m = Inr (m', e) \<Longrightarrow> ms \<noteq> [] \<Longrightarrow> stateMachine m' = StatInit"
proof (induction ms arbitrary: m e)
  case (Cons d ms)
  from Cons.prems(1) obtain m1 e1 m2 e2 where s: "recvHandle d (ms = []) m = Inr (m1, e1)"
    and r: "recv_frames (multipart ms) m1 = Inr (m2, e2)" "m' = m2"
    by (auto simp: multipart_Cons rbind_Inr)
  show ?case
  proof (cases "ms = []")
    case True
    with s r show ?thesis by (auto dest: recvHandle_last_resets)
  next
    case False
    with Cons.IH r show ?thesis by blast
  qed
qed simp

text \<open>The rows of a query answer.\<close>

fun qry_calls :: "EElementType \<Rightarrow> ReqResponse \<Rightarrow> bytes list \<Rightarrow> mgr_call list" where
  "qry_calls t r [] = []"
| "qry_calls t r (d # ds) = OnRspQry t r (Some d) (RequestID r) (ds = []) # qry_calls t r ds"

lemma recv_rows:
  assumes "stateMachine m = StatGetEleType" "msgPattern m = pattern_code TPassiveResponse"
    "reqRsp m = r" "CmdType r = cmd_code TQuery" "recvEleType m = ele_code t" "ds \<noteq> []"
  shows "recv_frames (multipart ds) m = Inr (m\<lparr>stateMachine := StatInit\<rparr>, qry_calls t r ds)"
  using assms
proof (induction ds arbitrary: m)
  case (Cons d ds)
  have st: "recvHandle d (ds = []) m =
      Inr (if ds = [] then m\<lparr>stateMachine := StatInit\<rparr> else m, [OnRspQry t r (Some d) (RequestID r) (ds = [])])"
    using Cons.prems by (simp add: recvHandle_def onReqRsp_data_def del: cmd_code.simps)
  show ?case
  proof (cases "ds = []")
    case False
    with Cons.IH [OF Cons.prems(1-5) False] st show ?thesis by (simp add: multipart_Cons)
  qed (use st in \<open>simp add: multipart_Cons\<close>)
qed simp

lemma recv_query_answer:
  assumes "stateMachine m = StatInit" "rsp_ok r" "CmdType r = cmd_code TQuery" "ds \<noteq> []"
  shows "recv_frames (multipart (enc_i32 (pattern_code TPassiveResponse) # enc_rsp r # enc_i32 (ele_code t) # ds)) m =
    Inr (m\<lparr>msgPattern := pattern_code TPassiveResponse, reqRsp := r, recvEleType := ele_code t, stateMachine := StatInit\<rparr>,
         qry_calls t r ds)"
proof -
  let ?m1 = "m\<lparr>msgPattern := pattern_code TPassiveResponse, stateMachine := StatGetPattern\<rparr>"
  let ?m2 = "?m1\<lparr>reqRsp := r, stateMachine := StatGetRsp\<rparr>"
  let ?m3 = "?m2\<lparr>recvEleType := ele_code t, stateMachine := StatGetEleType\<rparr>"
  have "recvHandle (enc_i32 (pattern_code TPassiveResponse)) False m = Inr (?m1, [])"
    using assms by (simp add: recvHandle_def del: pattern_code.simps)
  moreover have "recvHandle (enc_rsp r) False ?m1 = Inr (?m2, [])"
    using rsp_codec.length_enc [OF assms(2)] rsp_codec.dec_enc [OF assms(2)] by (simp add: recvHandle_def)
  moreover have "recvHandle (enc_i32 (ele_code t)) False ?m2 = Inr (?m3, [])"
    by (simp add: recvHandle_def)
  moreover have "recv_frames (multipart ds) ?m3 = Inr (?m3\<lparr>stateMachine := StatInit\<rparr>, qry_calls t r ds)"
    by (rule recv_rows) (use assms in \<open>simp_all\<close>)
  ultimately show ?thesis using assms(4) by (simp add: multipart_Cons del: pattern_code.simps ele_code.simps)
qed

lemma recv_plain_answer:
  assumes "stateMachine m = StatInit" "rsp_ok r"
  shows "recv_frames (multipart [enc_i32 (pattern_code TPassiveResponse), enc_rsp r]) m =
    Inr (m\<lparr>msgPattern := pattern_code TPassiveResponse, reqRsp := r, stateMachine := StatInit\<rparr>, onReqRsp r)"
  using assms rsp_codec.length_enc [OF assms(2)] rsp_codec.dec_enc [OF assms(2)]
  by (simp add: recvHandle_def)

text \<open>C22: Framing of the client: from whatever state of the receive machine, one whole multipart
  message either trips one of the length assertions (and nothing else) or leaves the machine in its
  initial state, so that the next message is again read from its first frame.\<close>

theorem client_resynchronises:
  "(\<exists>m' e. recv_frames (multipart (d # ds)) m = Inr (m', e) \<and> stateMachine m' = StatInit) \<or>
   recv_frames (multipart (d # ds)) m = Inl AssertFail"
proof (cases "recv_frames (multipart (d # ds)) m")
  case (Inl f)
  then show ?thesis using recv_frames_fault by blast
next
  case (Inr p)
  then show ?thesis using recv_frames_ends_init [of "d # ds" m] by (metis list.distinct(1) surj_pair)
qed

section \<open>Lemmas on the printing callbacks\<close>

text \<open>Every character array of the structure holds a terminator.\<close>

fun strings_terminated :: "element \<Rightarrow> bool" where
  "strings_terminated (ElManageUser x) \<longleftrightarrow> 0 \<in> set (mu_ManagerName x) \<and> 0 \<in> set (mu_ManagerPasswd x)"
| "strings_terminated (ElServerConfig x) \<longleftrightarrow> 0 \<in> set (sv_ServerName x) \<and> 0 \<in> set (sv_ServerIP x)"
| "strings_terminated (ElStrategyConfig x) \<longleftrightarrow> 0 \<in> set (st_ConfigName x) \<and> 0 \<in> set (st_PlatformName x) \<and>
     0 \<in> set (st_StragetyName x) \<and> 0 \<in> set (st_SrcRootDir x) \<and> 0 \<in> set (st_ManagerName x)"
| "strings_terminated (ElDeployConfig x) \<longleftrightarrow> 0 \<in> set (dc_ConfigName x) \<and> 0 \<in> set (dc_ServerName x) \<and>
     0 \<in> set (dc_UserName x) \<and> 0 \<in> set (dc_UserPasswd x) \<and> 0 \<in> set (dc_DstRootDir x) \<and>
     0 \<in> set (dc_ExeUser x) \<and> 0 \<in> set (dc_ManagerName x)"
| "strings_terminated (ElDeployGroup x) \<longleftrightarrow> 0 \<in> set (dg_GroupName x) \<and> 0 \<in> set (dg_StragetyConfig x) \<and>
     0 \<in> set (dg_DeployConfig x) \<and> 0 \<in> set (dg_ManagerName x)"

lemma length_show_i32: "length (show_int (sint (w :: i32))) \<le> 11"
proof -
  have b: "- 2147483648 \<le> sint w" "sint w < 2147483648"
    using sint_range_size [of w] by (simp_all add: word_size)
  show ?thesis
    using length_show_nat [of "nat (- sint w)" 9] length_show_nat [of "nat (sint w)" 9] b
    by (auto simp: show_int_def nat_less_iff)
qed

lemma ElManageUser_fits:
  "elem_ok (ElManageUser x) \<Longrightarrow> strings_terminated (ElManageUser x) \<Longrightarrow> \<exists>s. show_elem (ElManageUser x) = Inr s"
  using length_cstr_less [of "mu_ManagerName x"] length_cstr_less [of "mu_ManagerPasswd x"]
  by (auto simp: c_string_def sprintf_fits_def)

lemma ElServerConfig_fits:
  "elem_ok (ElServerConfig x) \<Longrightarrow> strings_terminated (ElServerConfig x) \<Longrightarrow> \<exists>s. show_elem (ElServerConfig x) = Inr s"
  using length_cstr_less [of "sv_ServerName x"] length_cstr_less [of "sv_ServerIP x"] length_show_i32 [of "sv_ServerPort x"]
  by (auto simp: c_string_def sprintf_fits_def)

lemma ElDeployGroup_fits:
  "elem_ok (ElDeployGroup x) \<Longrightarrow> strings_terminated (ElDeployGroup x) \<Longrightarrow> \<exists>s. show_elem (ElDeployGroup x) = Inr s"
  using length_cstr_less [of "dg_GroupName x"] length_cstr_less [of "dg_StragetyConfig x"]
    length_cstr_less [of "dg_DeployConfig x"] length_cstr_less [of "dg_ManagerName x"]
  by (auto simp: c_string_def sprintf_fits_def)

text \<open>Bounds of the printing callbacks: a user, server or group row whose strings are terminated is
  always printed inside the local buffer; a strategy row is printed exactly when its strings are shorter
  than 431 characters in total and a deployment row when they are shorter than 418, and runs over the
  buffer otherwise.\<close>

theorem print_buffer_bounds:
  assumes "elem_ok x" and "strings_terminated x"
  shows "show_elem x = Inl OutOfBounds \<longleftrightarrow>
    (case x of
       ElStrategyConfig c \<Rightarrow> 431 \<le> length (cstr (st_ConfigName c)) + length (cstr (st_PlatformName c)) +
         length (cstr (st_StragetyName c)) + length (cstr (st_SrcRootDir c)) + length (cstr (st_ManagerName c))
     | ElDeployConfig c \<Rightarrow> 418 \<le> length (cstr (dc_ConfigName c)) + length (cstr (dc_ServerName c)) +
         length (cstr (dc_UserName c)) + length (cstr (dc_UserPasswd c)) + length (cstr (dc_DstRootDir c)) +
         length (cstr (dc_ExeUser c)) + length (cstr (dc_ManagerName c))
     | _ \<Rightarrow> False)"
proof (cases x)
  case (ElManageUser c)
  with ElManageUser_fits [of c] assms show ?thesis by auto
next
  case (ElServerConfig c)
  with ElServerConfig_fits [of c] assms show ?thesis by auto
next
  case (ElStrategyConfig c)
  with assms show ?thesis by (simp add: c_string_def sprintf_fits_def)
next
  case (ElDeployConfig c)
  with assms show ?thesis by (simp add: c_string_def sprintf_fits_def)
next
  case (ElDeployGroup c)
  with ElDeployGroup_fits [of c] assms show ?thesis by auto
qed

definition long_strategy :: StrategyConfig where
  "long_strategy = \<lparr>st_ConfigName = replicate 63 65 @ [0], st_PlatformName = replicate 127 65 @ [0],
     st_StragetyName = replicate 127 65 @ [0], st_SrcRootDir = replicate 255 65 @ [0], st_ManagerName = replicate 63 65 @ [0]\<rparr>"

theorem print_buffer_bounds_witness:
  "elem_ok (ElStrategyConfig long_strategy) \<and> strings_terminated (ElStrategyConfig long_strategy) \<and>
   show_elem (ElStrategyConfig long_strategy) = Inl OutOfBounds"
  using print_buffer_bounds [of "ElStrategyConfig long_strategy"] by (simp add: long_strategy_def)

end
