(* ===== verification/DbOps.thy ===== *)
theory DbOps
  imports DeployTypes
begin

text \<open>
  \<^verbatim>\<open>StragetyDeployer/SQLiteDatabase.{h,cpp}\<close>, \<^verbatim>\<open>dbopmacros.h\<close> and
  \<^verbatim>\<open>dboperatefunc.{h,cpp}\<close>: the wrappers around SQLite and the table operations built on them.
  SQLite itself is a parameter: an engine answers each call as a function of the calls made so far,
  and the operations return the history extended by the calls they make.
\<close>

section \<open>The engine\<close>

datatype sq_call =
    SqOpen bytes | SqClose | SqExec string | SqPrepare bytes | SqStep | SqReset | SqFinalize
  | SqBindText int bytes | SqBindInt int i32 | SqBindInt64 int u64 | SqBindDouble int u64

type_synonym history = "sq_call list"

record sqlite3 =
  sq_rc :: "history \<Rightarrow> sq_call \<Rightarrow> int"
  sq_handle :: "history \<Rightarrow> bytes \<Rightarrow> bool"
  sq_stmt :: "history \<Rightarrow> bytes \<Rightarrow> bool"
  sq_changes :: "history \<Rightarrow> int"
  sq_text :: "history \<Rightarrow> int \<Rightarrow> bytes option"
  sq_int :: "history \<Rightarrow> int \<Rightarrow> i32"
  sq_int64 :: "history \<Rightarrow> int \<Rightarrow> u64"
  sq_double :: "history \<Rightarrow> int \<Rightarrow> u64"
  sq_data_count :: "history \<Rightarrow> int"
  sq_column_name :: "history \<Rightarrow> int \<Rightarrow> bytes option"
  sq_errmsg :: "history \<Rightarrow> bytes"
  sq_errcode :: "history \<Rightarrow> int"

definition SQLITE_OK :: int where "SQLITE_OK = 0"
definition SQLITE_ROW :: int where "SQLITE_ROW = 100"
definition SQLITE_DONE :: int where "SQLITE_DONE = 101"
definition SQLITEDATABASE_ERROR :: int where "SQLITEDATABASE_ERROR = -1"
definition SQLITEDATABASE_OK :: int where "SQLITEDATABASE_OK = 0"

text \<open>One call: its result code and the longer history.\<close>

definition call :: "sqlite3 \<Rightarrow> sq_call \<Rightarrow> history \<Rightarrow> int \<times> history" where
  "call E c h = (sq_rc E h c, h @ [c])"

section \<open>Wrappers\<close>

text \<open>A result set or a statement holds a \<open>sqlite3_stmt *\<close>, a statement also the connection; only
  whether they are null matters. A \<open>std::string\<close> made from a null \<open>char *\<close> is a null dereference.\<close>

record SQLiteStatement =
  pstmt :: bool
  pdb :: bool

record SQLiteDatabase =
  m_strDbName :: bytes
  m_pDb :: bool

definition next_row :: "sqlite3 \<Rightarrow> bool \<Rightarrow> history \<Rightarrow> bool \<times> history" where
  "next_row E rs h = (if rs then (let (ret, h1) = call E SqStep h in (ret = SQLITE_ROW, h1)) else (False, h))"

definition columnCount :: "sqlite3 \<Rightarrow> bool \<Rightarrow> history \<Rightarrow> int" where
  "columnCount E rs h = (if rs then sq_data_count E h else 0)"

definition columnName :: "sqlite3 \<Rightarrow> bool \<Rightarrow> int \<Rightarrow> history \<Rightarrow> bytes res" where
  "columnName E rs nCol h =
     (if rs then (case sq_column_name E h nCol of None \<Rightarrow> Inl NullDeref | Some n \<Rightarrow> Inr n) else Inr [])"

definition getInteger :: "sqlite3 \<Rightarrow> bool \<Rightarrow> int \<Rightarrow> history \<Rightarrow> i32" where
  "getInteger E rs nCol h = (if rs then sq_int E h nCol else 0)"

definition getLonglong :: "sqlite3 \<Rightarrow> bool \<Rightarrow> int \<Rightarrow> history \<Rightarrow> u64" where
  "getLonglong E rs nCol h = (if rs then sq_int64 E h nCol else 0)"

definition getDouble :: "sqlite3 \<Rightarrow> bool \<Rightarrow> int \<Rightarrow> history \<Rightarrow> u64" where
  "getDouble E rs nCol h = (if rs then sq_double E h nCol else 0)"

definition getString :: "sqlite3 \<Rightarrow> bool \<Rightarrow> int \<Rightarrow> history \<Rightarrow> bytes res" where
  "getString E rs nCol h =
     (if rs then (case sq_text E h nCol of None \<Rightarrow> Inl NullDeref | Some t \<Rightarrow> Inr t) else Inr [])"

definition isValid :: "SQLiteStatement \<Rightarrow> bool" where
  "isValid st \<longleftrightarrow> pdb st \<and> pstmt st"

definition execute :: "sqlite3 \<Rightarrow> SQLiteStatement \<Rightarrow> history \<Rightarrow> int \<times> history" where
  "execute E st h =
     (if pstmt st then
        (let (ret, h1) = call E SqStep h
         in (if ret = SQLITE_OK \<or> ret = SQLITE_DONE then SQLITEDATABASE_OK else SQLITEDATABASE_ERROR, h1))
      else (SQLITEDATABASE_ERROR, h))"

definition executeQuery :: "SQLiteStatement \<Rightarrow> bool" where
  "executeQuery st = pstmt st"

definition executeInsert :: "sqlite3 \<Rightarrow> history \<Rightarrow> int \<times> history" where
  "executeInsert E h =
     (let (ret, h1) = call E SqStep h
      in (if ret = SQLITE_OK \<or> ret = SQLITE_DONE then sq_changes E h1 else SQLITEDATABASE_ERROR, h1))"

definition executeUpdateDelete :: "sqlite3 \<Rightarrow> history \<Rightarrow> int \<times> history" where
  "executeUpdateDelete E h =
     (let (ret, h1) = call E SqStep h
      in (if ret = SQLITE_OK \<or> ret = SQLITE_DONE then sq_changes E h1 else SQLITEDATABASE_ERROR, h1))"

definition ok_or_error :: "int \<times> history \<Rightarrow> int \<times> history" where
  "ok_or_error r = (if fst r = SQLITE_OK then SQLITEDATABASE_OK else SQLITEDATABASE_ERROR, snd r)"

definition bindString :: "sqlite3 \<Rightarrow> int \<Rightarrow> bytes \<Rightarrow> history \<Rightarrow> int \<times> history" where
  "bindString E nIdx s h = ok_or_error (call E (SqBindText (nIdx + 1) s) h)"

definition bindDouble :: "sqlite3 \<Rightarrow> int \<Rightarrow> u64 \<Rightarrow> history \<Rightarrow> int \<times> history" where
  "bindDouble E nIdx v h = ok_or_error (call E (SqBindDouble (nIdx + 1) v) h)"

definition bindInteger :: "sqlite3 \<Rightarrow> int \<Rightarrow> i32 \<Rightarrow> history \<Rightarrow> int \<times> history" where
  "bindInteger E nIdx v h = ok_or_error (call E (SqBindInt (nIdx + 1) v) h)"

definition bindLongLong :: "sqlite3 \<Rightarrow> int \<Rightarrow> u64 \<Rightarrow> history \<Rightarrow> int \<times> history" where
  "bindLongLong E nIdx v h = ok_or_error (call E (SqBindInt64 (nIdx + 1) v) h)"

definition clearBindings :: "sqlite3 \<Rightarrow> history \<Rightarrow> int \<times> history" where
  "clearBindings E h = ok_or_error (call E SqReset h)"

definition release :: "sqlite3 \<Rightarrow> SQLiteStatement \<Rightarrow> history \<Rightarrow> SQLiteStatement \<times> history" where
  "release E st h =
     (if pdb st \<and> pstmt st then (st\<lparr>pstmt := False\<rparr>, snd (call E SqFinalize h)) else (st, h))"

definition reCompile :: "sqlite3 \<Rightarrow> bytes \<Rightarrow> SQLiteStatement \<Rightarrow> history \<Rightarrow> int \<times> SQLiteStatement \<times> history" where
  "reCompile E sql st h =
     (let (ret, h1) = ok_or_error (call E (SqPrepare sql) h) in (ret, st\<lparr>pstmt := sq_stmt E h sql\<rparr>, h1))"

definition new_SQLiteDatabase :: "bytes \<Rightarrow> SQLiteDatabase" where
  "new_SQLiteDatabase dbName = \<lparr>m_strDbName = dbName, m_pDb = False\<rparr>"

definition db_open :: "sqlite3 \<Rightarrow> SQLiteDatabase \<Rightarrow> history \<Rightarrow> int \<times> SQLiteDatabase \<times> history" where
  "db_open E db h =
     (let (ret, h1) = call E (SqOpen (m_strDbName db)) h in (ret, db\<lparr>m_pDb := sq_handle E h (m_strDbName db)\<rparr>, h1))"

text \<open>\<open>close\<close> leaves the pointer as it is; the destructor closes again.\<close>

definition db_close :: "sqlite3 \<Rightarrow> SQLiteDatabase \<Rightarrow> history \<Rightarrow> int \<times> history" where
  "db_close E db h = (if m_pDb db then call E SqClose h else (SQLITE_OK, h))"

definition del_SQLiteDatabase :: "sqlite3 \<Rightarrow> SQLiteDatabase \<Rightarrow> history \<Rightarrow> history" where
  "del_SQLiteDatabase E db h = (if m_pDb db then snd (call E SqClose h) else h)"

definition del_SQLiteStatement :: "sqlite3 \<Rightarrow> SQLiteStatement \<Rightarrow> history \<Rightarrow> history" where
  "del_SQLiteStatement E st h = (if pstmt st then snd (call E SqFinalize h) else h)"

definition errmsg :: "sqlite3 \<Rightarrow> history \<Rightarrow> bytes" where "errmsg E h = sq_errmsg E h"
definition errcode :: "sqlite3 \<Rightarrow> history \<Rightarrow> int" where "errcode E h = sq_errcode E h"

definition beginTransaction :: "sqlite3 \<Rightarrow> history \<Rightarrow> int \<times> history" where
  "beginTransaction E h = call E (SqExec ''begin;'') h"
definition commitTransaction :: "sqlite3 \<Rightarrow> history \<Rightarrow> int \<times> history" where
  "commitTransaction E h = call E (SqExec ''commit;'') h"
definition rollbackTransaction :: "sqlite3 \<Rightarrow> history \<Rightarrow> int \<times> history" where
  "rollbackTransaction E h = call E (SqExec ''rollback;'') h"

definition compileStatement :: "sqlite3 \<Rightarrow> SQLiteDatabase \<Rightarrow> bytes \<Rightarrow> history \<Rightarrow> SQLiteStatement \<times> history" where
  "compileStatement E db sql h = (\<lparr>pstmt = sq_stmt E h sql, pdb = m_pDb db\<rparr>, snd (call E (SqPrepare sql) h))"

section \<open>The macros\<close>

text \<open>The state the operations share: the calls made and the thread's error message.\<close>

record dbst =
  hist :: history
  sqlite_error_msg :: bytes

text \<open>A bound member: a character array becomes a \<open>std::string\<close> up to its terminator.\<close>

datatype bindv = BString bytes | BInteger i32

fun STMT_BIND :: "sqlite3 \<Rightarrow> int \<Rightarrow> bindv list \<Rightarrow> history \<Rightarrow> history res" where
  "STMT_BIND E k [] h = Inr h"
| "STMT_BIND E k (BString a # vs) h =
     rbind (c_string a) (\<lambda>s. STMT_BIND E (k + 1) vs (snd (bindString E k s h)))"
| "STMT_BIND E k (BInteger i # vs) h = STMT_BIND E (k + 1) vs (snd (bindInteger E k i h))"

text \<open>The loop over the objects: bind, execute, stop at the first error, reset.\<close>

fun vec_loop :: "sqlite3 \<Rightarrow> (history \<Rightarrow> int \<times> history) \<Rightarrow> bindv list list \<Rightarrow> int \<Rightarrow> dbst \<Rightarrow> (int \<times> dbst) res" where
  "vec_loop E exec [] r s = Inr (r, s)"
| "vec_loop E exec (vs # vss) r s =
     rbind (STMT_BIND E 0 vs (hist s)) (\<lambda>h1.
     let (r1, h2) = exec h1 in
     if r1 < 0 then Inr (r1, s\<lparr>hist := h2, sqlite_error_msg := errmsg E h2\<rparr>)
     else vec_loop E exec vss r1 (s\<lparr>hist := snd (clearBindings E h2)\<rparr>))"

definition DISPATCHER_DATABASE :: bytes where "DISPATCHER_DATABASE = bytes_of_string ''ATDConfig.db''"

text \<open>What the three macros share: open, compile, the part \<open>body\<close> for a valid statement, close, and the
  destructors of the statement and the database.\<close>

definition with_stmt ::
  "sqlite3 \<Rightarrow> bytes \<Rightarrow> (dbst \<Rightarrow> (int \<times> dbst) res) \<Rightarrow> dbst \<Rightarrow> (int \<times> dbst) res" where
  "with_stmt E sql body s =
     (let (_, db, h1) = db_open E (new_SQLiteDatabase DISPATCHER_DATABASE) (hist s);
          (stmt, h2) = compileStatement E db sql h1;
          s1 = s\<lparr>hist := h2\<rparr> in
      rbind (if isValid stmt then body s1
             else Inr (SQLITEDATABASE_ERROR, s1\<lparr>sqlite_error_msg := errmsg E h2\<rparr>)) (\<lambda>(r, s2).
      Inr (r, s2\<lparr>hist := del_SQLiteDatabase E db (del_SQLiteStatement E stmt (snd (db_close E db (hist s2))))\<rparr>)))"

definition end_transaction :: "sqlite3 \<Rightarrow> int \<times> dbst \<Rightarrow> int \<times> dbst" where
  "end_transaction E p =
     (case p of (r, s) \<Rightarrow>
        (r, s\<lparr>hist := snd (if r < 0 then rollbackTransaction E (hist s) else commitTransaction E (hist s))\<rparr>))"

definition InsertByVector :: "sqlite3 \<Rightarrow> bytes \<Rightarrow> bindv list list \<Rightarrow> dbst \<Rightarrow> (int \<times> dbst) res" where
  "InsertByVector E sql vss s =
     (if vss = [] then Inr (0, s)
      else with_stmt E sql (\<lambda>s1. rbind (vec_loop E (executeInsert E) vss 0 s1) (\<lambda>p. Inr (end_transaction E p))) s)"

definition UpdateByVector :: "sqlite3 \<Rightarrow> bytes \<Rightarrow> bindv list list \<Rightarrow> dbst \<Rightarrow> (int \<times> dbst) res" where
  "UpdateByVector E sql vss s =
     (if vss = [] then Inr (0, s)
      else with_stmt E sql (\<lambda>s1. rbind (vec_loop E (executeUpdateDelete E) vss 0 s1) (\<lambda>p. Inr (end_transaction E p))) s)"

definition DeleteByVector :: "sqlite3 \<Rightarrow> bytes \<Rightarrow> bindv list list \<Rightarrow> dbst \<Rightarrow> (int \<times> dbst) res" where
  "DeleteByVector E sql vss s =
     (if vss = [] then Inr (0, s)
      else with_stmt E sql (\<lambda>s1.
             rbind (vec_loop E (executeUpdateDelete E) vss 0 (s1\<lparr>hist := snd (beginTransaction E (hist s1))\<rparr>))
               (\<lambda>p. Inr (end_transaction E p))) s)"

text \<open>A query: the rows are read while \<open>sqlite3_step\<close> returns \<open>SQLITE_ROW\<close>; \<open>fuel\<close> bounds their
  number.\<close>

fun qry_loop :: "sqlite3 \<Rightarrow> nat \<Rightarrow> bool \<Rightarrow> (history \<Rightarrow> element res) \<Rightarrow> history \<Rightarrow> (element list \<times> history) res" where
  "qry_loop E fuel rs row h =
     (case next_row E rs h of
        (False, h1) \<Rightarrow> Inr ([], h1)
      | (True, h1) \<Rightarrow>
          (case fuel of
             0 \<Rightarrow> Inl NonTermination
           | Suc n \<Rightarrow> rbind (row h1) (\<lambda>x. rbind (qry_loop E n rs row h1) (\<lambda>(xs, h2). Inr (x # xs, h2)))))"

declare qry_loop.simps [simp del]

definition qryBySql ::
  "sqlite3 \<Rightarrow> nat \<Rightarrow> (bool \<Rightarrow> history \<Rightarrow> element res) \<Rightarrow> bytes \<Rightarrow> dbst \<Rightarrow> (element list \<times> dbst) res" where
  "qryBySql E fuel row sql s =
     (let (_, db, h1) = db_open E (new_SQLiteDatabase DISPATCHER_DATABASE) (hist s);
          (stmt, h2) = compileStatement E db sql h1;
          msg = (if isValid stmt then [] else errmsg E h2);
          h3 = (if isValid stmt then snd (beginTransaction E h2) else h2);
          rs = executeQuery stmt in
      rbind (qry_loop E fuel rs (row rs) h3) (\<lambda>(xs, h4).
      let h5 = (if isValid stmt then snd (commitTransaction E h4) else h4);
          h6 = snd (db_close E db h5) in
      Inr (xs, s\<lparr>hist := del_SQLiteDatabase E db (del_SQLiteStatement E stmt h6), sqlite_error_msg := msg\<rparr>)))"

section \<open>Queries\<close>

text \<open>\<open>strcpy\<close> of a column into a zeroed character array of \<open>n\<close> bytes.\<close>

definition col :: "sqlite3 \<Rightarrow> bool \<Rightarrow> history \<Rightarrow> nat \<Rightarrow> int \<Rightarrow> bytes res" where
  "col E rs h n k = rbind (getString E rs k h) (strcpy (replicate n 0))"

definition row_ManageUser :: "sqlite3 \<Rightarrow> bool \<Rightarrow> history \<Rightarrow> element res" where
  "row_ManageUser E rs h =
     rbind (col E rs h 64 0) (\<lambda>x0.
     rbind (col E rs h 64 1) (\<lambda>x1.
     Inr (ElManageUser \<lparr>mu_ManagerName = x0, mu_ManagerPasswd = x1\<rparr>)))"

definition row_ServerConfig :: "sqlite3 \<Rightarrow> bool \<Rightarrow> history \<Rightarrow> element res" where
  "row_ServerConfig E rs h =
     rbind (col E rs h 64 0) (\<lambda>x0.
     rbind (col E rs h 64 1) (\<lambda>x1.
     Inr (ElServerConfig \<lparr>sv_ServerName = x0, sv_ServerIP = x1, sv_ServerPort = getInteger E rs 2 h\<rparr>)))"

definition row_StrategyConfig :: "sqlite3 \<Rightarrow> bool \<Rightarrow> history \<Rightarrow> element res" where
  "row_StrategyConfig E rs h =
     rbind (col E rs h 64 0) (\<lambda>x0.
     rbind (col E rs h 128 1) (\<lambda>x1.
     rbind (col E rs h 128 2) (\<lambda>x2.
     rbind (col E rs h 256 3) (\<lambda>x3.
     rbind (col E rs h 64 4) (\<lambda>x4.
     Inr (ElStrategyConfig \<lparr>st_ConfigName = x0, st_PlatformName = x1, st_StragetyName = x2, st_SrcRootDir = x3, st_ManagerName = x4\<rparr>))))))"

definition row_DeployConfig :: "sqlite3 \<Rightarrow> bool \<Rightarrow> history \<Rightarrow> element res" where
  "row_DeployConfig E rs h =
     rbind (col E rs h 64 0) (\<lambda>x0.
     rbind (col E rs h 64 1) (\<lambda>x1.
     rbind (col E rs h 64 2) (\<lambda>x2.
     rbind (col E rs h 64 3) (\<lambda>x3.
     rbind (col E rs h 256 4) (\<lambda>x4.
     rbind (col E rs h 64 5) (\<lambda>x5.
     rbind (col E rs h 64 6) (\<lambda>x6.
     Inr (ElDeployConfig \<lparr>dc_ConfigName = x0, dc_ServerName = x1, dc_UserName = x2, dc_UserPasswd = x3, dc_DstRootDir = x4, dc_ExeUser = x5, dc_ManagerName = x6\<rparr>))))))))"

definition row_DeployGroup :: "sqlite3 \<Rightarrow> bool \<Rightarrow> history \<Rightarrow> element res" where
  "row_DeployGroup E rs h =
     rbind (col E rs h 64 0) (\<lambda>x0.
     rbind (col E rs h 64 1) (\<lambda>x1.
     rbind (col E rs h 64 2) (\<lambda>x2.
     rbind (col E rs h 64 3) (\<lambda>x3.
     Inr (ElDeployGroup \<lparr>dg_GroupName = x0, dg_StragetyConfig = x1, dg_DeployConfig = x2, dg_ManagerName = x3\<rparr>)))))"

definition qryManageUserBySql :: "sqlite3 \<Rightarrow> nat \<Rightarrow> bytes \<Rightarrow> dbst \<Rightarrow> (element list \<times> dbst) res" where
  "qryManageUserBySql E fuel sql s = qryBySql E fuel (row_ManageUser E) sql s"

definition qryServerConfigBySql :: "sqlite3 \<Rightarrow> nat \<Rightarrow> bytes \<Rightarrow> dbst \<Rightarrow> (element list \<times> dbst) res" where
  "qryServerConfigBySql E fuel sql s = qryBySql E fuel (row_ServerConfig E) sql s"

definition qryStrategyConfigBySql :: "sqlite3 \<Rightarrow> nat \<Rightarrow> bytes \<Rightarrow> dbst \<Rightarrow> (element list \<times> dbst) res" where
  "qryStrategyConfigBySql E fuel sql s = qryBySql E fuel (row_StrategyConfig E) sql s"

definition qryDeployConfigBySql :: "sqlite3 \<Rightarrow> nat \<Rightarrow> bytes \<Rightarrow> dbst \<Rightarrow> (element list \<times> dbst) res" where
  "qryDeployConfigBySql E fuel sql s = qryBySql E fuel (row_DeployConfig E) sql s"

definition qryDeployGroupBySql :: "sqlite3 \<Rightarrow> nat \<Rightarrow> bytes \<Rightarrow> dbst \<Rightarrow> (element list \<times> dbst) res" where
  "qryDeployGroupBySql E fuel sql s = qryBySql E fuel (row_DeployGroup E) sql s"

section \<open>Delete, insert, update\<close>

definition delBySql :: "sqlite3 \<Rightarrow> bytes \<Rightarrow> dbst \<Rightarrow> (int \<times> dbst) res" where
  "delBySql E sql s =
     (let s0 = s\<lparr>sqlite_error_msg := []\<rparr> in
      if sql \<noteq> [] then
        with_stmt E sql (\<lambda>s1.
          let (r, h2) = executeUpdateDelete E (snd (beginTransaction E (hist s1)));
              s2 = s1\<lparr>hist := h2\<rparr>;
              s3 = (if r < 0 then s2\<lparr>sqlite_error_msg := errmsg E h2\<rparr> else s2)
          in Inr (end_transaction E (r, s3))) s0
      else Inr (0, s0))"

text \<open>The members each statement binds, in the order of its parameters.\<close>

fun ins_bind :: "element \<Rightarrow> bindv list" where
  "ins_bind (ElManageUser x) = [BString (mu_ManagerName x), BString (mu_ManagerPasswd x)]"
| "ins_bind (ElServerConfig x) = [BString (sv_ServerName x), BString (sv_ServerIP x), BInteger (sv_ServerPort x)]"
| "ins_bind (ElStrategyConfig x) = [BString (st_ConfigName x), BString (st_PlatformName x), BString (st_StragetyName x), BString (st_SrcRootDir x), BString (st_ManagerName x)]"
| "ins_bind (ElDeployConfig x) = [BString (dc_ConfigName x), BString (dc_ServerName x), BString (dc_UserName x), BString (dc_UserPasswd x), BString (dc_DstRootDir x), BString (dc_ExeUser x), BString (dc_ManagerName x)]"
| "ins_bind (ElDeployGroup x) = [BString (dg_GroupName x), BString (dg_StragetyConfig x), BString (dg_DeployConfig x), BString (dg_ManagerName x)]"

fun del_bind :: "element \<Rightarrow> bindv list" where
  "del_bind (ElManageUser x) = [BString (mu_ManagerName x)]"
| "del_bind (ElServerConfig x) = [BString (sv_ServerName x)]"
| "del_bind (ElStrategyConfig x) = [BString (st_ConfigName x), BString (st_ManagerName x)]"
| "del_bind (ElDeployConfig x) = [BString (dc_ConfigName x), BString (dc_ManagerName x)]"
| "del_bind (ElDeployGroup x) = [BString (dg_GroupName x), BString (dg_ManagerName x)]"

fun upd_bind :: "element \<Rightarrow> bindv list" where
  "upd_bind (ElManageUser x) = [BString (mu_ManagerName x), BString (mu_ManagerPasswd x), BString (mu_ManagerName x)]"
| "upd_bind (ElServerConfig x) = [BString (sv_ServerIP x), BInteger (sv_ServerPort x), BString (sv_ServerName x)]"
| "upd_bind (ElStrategyConfig x) = [BString (st_PlatformName x), BString (st_StragetyName x), BString (st_SrcRootDir x), BString (st_ManagerName x), BString (st_ConfigName x), BString (st_ManagerName x)]"
| "upd_bind (ElDeployConfig x) = [BString (dc_ServerName x), BString (dc_UserName x), BString (dc_UserPasswd x), BString (dc_DstRootDir x), BString (dc_ExeUser x), BString (dc_ManagerName x), BString (dc_ConfigName x), BString (dc_ManagerName x)]"
| "upd_bind (ElDeployGroup x) = [BString (dg_StragetyConfig x), BString (dg_DeployConfig x), BString (dg_ManagerName x), BString (dg_GroupName x), BString (dg_ManagerName x)]"

definition delManagerUser :: "sqlite3 \<Rightarrow> element list \<Rightarrow> dbst \<Rightarrow> (int \<times> dbst) res" where
  "delManagerUser E objVec s =
     DeleteByVector E (bytes_of_string
       ''delete from ManageUser where ManagerName=?'')
       (map del_bind objVec) s"

definition delServerConfig :: "sqlite3 \<Rightarrow> element list \<Rightarrow> dbst \<Rightarrow> (int \<times> dbst) res" where
  "delServerConfig E objVec s =
     DeleteByVector E (bytes_of_string
       ''delete from ServerConfig where ServerName=?'')
       (map del_bind objVec) s"

definition delStrategyConfig :: "sqlite3 \<Rightarrow> element list \<Rightarrow> dbst \<Rightarrow> (int \<times> dbst) res" where
  "delStrategyConfig E objVec s =
     DeleteByVector E (bytes_of_string
       ''delete from StrategyConfig where ConfigName=? and ManagerName=?'')
       (map del_bind objVec) s"

definition delDeployConfig :: "sqlite3 \<Rightarrow> element list \<Rightarrow> dbst \<Rightarrow> (int \<times> dbst) res" where
  "delDeployConfig E objVec s =
     DeleteByVector E (bytes_of_string
       ''delete from DeployConfig where ConfigName=? and ManagerName=?'')
       (map del_bind objVec) s"

definition delDeployGroup :: "sqlite3 \<Rightarrow> element list \<Rightarrow> dbst \<Rightarrow> (int \<times> dbst) res" where
  "delDeployGroup E objVec s =
     DeleteByVector E (bytes_of_string
       ''delete from DeployGroup where GroupName=? and ManagerName=?'')
       (map del_bind objVec) s"

definition insManagerUser :: "sqlite3 \<Rightarrow> element list \<Rightarrow> dbst \<Rightarrow> (int \<times> dbst) res" where
  "insManagerUser E objVec s =
     InsertByVector E (bytes_of_string
       ''insert into ManageUser(ManagerName, ManagerPasswd) values(?,?)'')
       (map ins_bind objVec) s"

definition insServerConfig :: "sqlite3 \<Rightarrow> element list \<Rightarrow> dbst \<Rightarrow> (int \<times> dbst) res" where
  "insServerConfig E objVec s =
     InsertByVector E (bytes_of_string
       ''insert into ServerConfig(ServerName, ServerIP, ServerPort) values(?,?,?)'')
       (map ins_bind objVec) s"

definition insStrategyConfig :: "sqlite3 \<Rightarrow> element list \<Rightarrow> dbst \<Rightarrow> (int \<times> dbst) res" where
  "insStrategyConfig E objVec s =
     InsertByVector E (bytes_of_string
       ''insert into StrategyConfig(ConfigName, PlatformName, StragetyName, SrcRootDir, ManagerName) values(?,?,?,?,?)'')
       (map ins_bind objVec) s"

definition insDeployConfig :: "sqlite3 \<Rightarrow> element list \<Rightarrow> dbst \<Rightarrow> (int \<times> dbst) res" where
  "insDeployConfig E objVec s =
     InsertByVector E (bytes_of_string
       ''insert into DeployConfig(ConfigName, ServerName, UserName, UserPasswd, DstRootDir, ExeUser, ManagerName) values(?,?,?,?,?,?,?)'')
       (map ins_bind objVec) s"

definition insDeployGroup :: "sqlite3 \<Rightarrow> element list \<Rightarrow> dbst \<Rightarrow> (int \<times> dbst) res" where
  "insDeployGroup E objVec s =
     InsertByVector E (bytes_of_string
       ''insert into DeployGroup(GroupName, StragetyConfig, DeployConfig, ManagerName) values(?,?,?,?)'')
       (map ins_bind objVec) s"

definition updManagerUser :: "sqlite3 \<Rightarrow> element list \<Rightarrow> dbst \<Rightarrow> (int \<times> dbst) res" where
  "updManagerUser E objVec s =
     UpdateByVector E (bytes_of_string
       ''update ManageUser set ManagerName=?, ManagerPasswd=? where ManagerName=?'')
       (map upd_bind objVec) s"

definition updServerConfig :: "sqlite3 \<Rightarrow> element list \<Rightarrow> dbst \<Rightarrow> (int \<times> dbst) res" where
  "updServerConfig E objVec s =
     UpdateByVector E (bytes_of_string
       ''update ServerConfig set ServerIP=?, ServerPort=? where  ServerName=?'')
       (map upd_bind objVec) s"

definition updStrategyConfig :: "sqlite3 \<Rightarrow> element list \<Rightarrow> dbst \<Rightarrow> (int \<times> dbst) res" where
  "updStrategyConfig E objVec s =
     UpdateByVector E (bytes_of_string
       ''update StrategyConfig set PlatformName=?, StragetyName=?, SrcRootDir=?, ManagerName=? where ConfigName=? and ManagerName=?'')
       (map upd_bind objVec) s"

definition updDeployConfig :: "sqlite3 \<Rightarrow> element list \<Rightarrow> dbst \<Rightarrow> (int \<times> dbst) res" where
  "updDeployConfig E objVec s =
     UpdateByVector E (bytes_of_string
       ''update DeployConfig set ServerName=?, UserName=?, UserPasswd=?, DstRootDir=?, ExeUser=?, ManagerName=? where ConfigName=? and ManagerName=?'')
       (map upd_bind objVec) s"

text \<open>This statement names the table \<open>DeployConfig\<close> and runs through the insert macro.\<close>

definition updDeployGroup :: "sqlite3 \<Rightarrow> element list \<Rightarrow> dbst \<Rightarrow> (int \<times> dbst) res" where
  "updDeployGroup E objVec s =
     InsertByVector E (bytes_of_string
       ''update DeployConfig set StragetyConfig=?, DeployConfig=?, ManagerName=? where GroupName=? and ManagerName=?'')
       (map upd_bind objVec) s"

text \<open>The template specialisations, selected by the class of the objects.\<close>

fun qryDataBySql :: "EElementType \<Rightarrow> sqlite3 \<Rightarrow> nat \<Rightarrow> bytes \<Rightarrow> dbst \<Rightarrow> (element list \<times> dbst) res" where
  "qryDataBySql TManageUser E fuel sql s = qryManageUserBySql E fuel sql s"
| "qryDataBySql TServerConfig E fuel sql s = qryServerConfigBySql E fuel sql s"
| "qryDataBySql TStrategyConfig E fuel sql s = qryStrategyConfigBySql E fuel sql s"
| "qryDataBySql TDeployConfig E fuel sql s = qryDeployConfigBySql E fuel sql s"
| "qryDataBySql TDeployGroup E fuel sql s = qryDeployGroupBySql E fuel sql s"

fun delByObjects :: "EElementType \<Rightarrow> sqlite3 \<Rightarrow> element list \<Rightarrow> dbst \<Rightarrow> (int \<times> dbst) res" where
  "delByObjects TManageUser E xs s = delManagerUser E xs s"
| "delByObjects TServerConfig E xs s = delServerConfig E xs s"
| "delByObjects TStrategyConfig E xs s = delStrategyConfig E xs s"
| "delByObjects TDeployConfig E xs s = delDeployConfig E xs s"
| "delByObjects TDeployGroup E xs s = delDeployGroup E xs s"

fun insByObjects :: "EElementType \<Rightarrow> sqlite3 \<Rightarrow> element list \<Rightarrow> dbst \<Rightarrow> (int \<times> dbst) res" where
  "insByObjects TManageUser E xs s = insManagerUser E xs s"
| "insByObjects TServerConfig E xs s = insServerConfig E xs s"
| "insByObjects TStrategyConfig E xs s = insStrategyConfig E xs s"
| "insByObjects TDeployConfig E xs s = insDeployConfig E xs s"
| "insByObjects TDeployGroup E xs s = insDeployGroup E xs s"

fun updByObjects :: "EElementType \<Rightarrow> sqlite3 \<Rightarrow> element list \<Rightarrow> dbst \<Rightarrow> (int \<times> dbst) res" where
  "updByObjects TManageUser E xs s = updManagerUser E xs s"
| "updByObjects TServerConfig E xs s = updServerConfig E xs s"
| "updByObjects TStrategyConfig E xs s = updStrategyConfig E xs s"
| "updByObjects TDeployConfig E xs s = updDeployConfig E xs s"
| "updByObjects TDeployGroup E xs s = updDeployGroup E xs s"

section \<open>Lemmas\<close>

text \<open>The calls of a binding, and the calls a loop over objects may make.\<close>

fun bind_calls :: "int \<Rightarrow> bindv list \<Rightarrow> sq_call list" where
  "bind_calls k [] = []"
| "bind_calls k (BString a # vs) = SqBindText (k + 1) (cstr a) # bind_calls (k + 1) vs"
| "bind_calls k (BInteger i # vs) = SqBindInt (k + 1) i # bind_calls (k + 1) vs"

fun data_call :: "sq_call \<Rightarrow> bool" where
  "data_call SqStep = True" | "data_call SqReset = True" | "data_call (SqBindText _ _) = True"
| "data_call (SqBindInt _ _) = True" | "data_call _ = False"

fun terminated :: "bindv \<Rightarrow> bool" where
  "terminated (BString a) = (0 \<in> set a)" | "terminated (BInteger _) = True"

lemmas call_defs = call_def ok_or_error_def bindString_def bindInteger_def clearBindings_def
  beginTransaction_def commitTransaction_def rollbackTransaction_def errmsg_def

lemmas wrapper_defs = call_defs db_open_def compileStatement_def db_close_def del_SQLiteDatabase_def
  del_SQLiteStatement_def isValid_def new_SQLiteDatabase_def

lemma STMT_BIND_eq:
  "STMT_BIND E k vs h = (if \<forall>v\<in>set vs. terminated v then Inr (h @ bind_calls k vs) else Inl OutOfBounds)"
  by (induction E k vs h rule: STMT_BIND.induct) (auto simp: call_defs c_string_def)

lemma bind_calls_data: "c \<in> set (bind_calls k vs) \<Longrightarrow> data_call c"
  by (induction k vs rule: bind_calls.induct) auto

text \<open>Both execute functions run one step and report the change count or an error.\<close>

definition steps_once :: "sqlite3 \<Rightarrow> (history \<Rightarrow> int \<times> history) \<Rightarrow> bool" where
  "steps_once E exec \<longleftrightarrow> (\<forall>h. snd (exec h) = h @ [SqStep] \<and> (0 \<le> fst (exec h) \<longrightarrow> fst (exec h) = sq_changes E (h @ [SqStep])))"

lemma execute_steps_once: "steps_once E (executeInsert E)" "steps_once E (executeUpdateDelete E)"
  by (auto simp: steps_once_def executeInsert_def executeUpdateDelete_def call_def SQLITEDATABASE_ERROR_def)

lemma vec_loop_calls:
  assumes "steps_once E exec" and "vec_loop E exec vss r s = Inr (r', s')" and "vss \<noteq> []"
  shows "\<exists>cs. hist s' = hist s @ cs \<and> (\<forall>c\<in>set cs. data_call c) \<and>
    (if r' < 0 then sqlite_error_msg s' = sq_errmsg E (hist s')
     else \<exists>ds. cs = ds @ [SqStep, SqReset] \<and> r' = sq_changes E (hist s @ ds @ [SqStep]))"
  using assms(2,3)
proof (induction vss arbitrary: r s)
  case (Cons vs vss)
  let ?h1 = "hist s @ bind_calls 0 vs"
  have bnd: "STMT_BIND E 0 vs (hist s) = Inr ?h1"
    using Cons.prems(1) by (auto simp: STMT_BIND_eq split: if_splits)
  define r1 where "r1 = fst (exec ?h1)"
  have so: "snd (exec ?h1) = ?h1 @ [SqStep]" "0 \<le> r1 \<longrightarrow> r1 = sq_changes E (?h1 @ [SqStep])"
    using assms(1) unfolding steps_once_def r1_def by blast+
  then have ex: "exec ?h1 = (r1, ?h1 @ [SqStep])" and r1: "0 \<le> r1 \<Longrightarrow> r1 = sq_changes E (?h1 @ [SqStep])"
    by (simp_all add: r1_def prod_eq_iff)
  note bd = bind_calls_data [of _ 0 vs]
  show ?case
  proof (cases "r1 < 0")
    case True
    then have "r' = r1" "s' = s\<lparr>hist := ?h1 @ [SqStep], sqlite_error_msg := errmsg E (?h1 @ [SqStep])\<rparr>"
      using Cons.prems(1) bnd ex by auto
    then show ?thesis
      using True bd by (intro exI [of _ "bind_calls 0 vs @ [SqStep]"]) (auto simp: errmsg_def)
  next
    case False
    let ?s = "s\<lparr>hist := ?h1 @ [SqStep, SqReset]\<rparr>"
    have rest: "vec_loop E exec vss r1 ?s = Inr (r', s')"
      using Cons.prems(1) bnd ex False by (auto simp: call_defs)
    show ?thesis
    proof (cases "vss = []")
      case True
      then have "r' = r1" "s' = ?s" using rest by auto
      then show ?thesis
        using False r1 bd by (intro exI [of _ "bind_calls 0 vs @ [SqStep, SqReset]"]) auto
    next
      case ne: False
      from Cons.IH [OF rest ne] obtain cs where cs: "hist s' = hist ?s @ cs" "\<forall>c\<in>set cs. data_call c"
        "if r' < 0 then sqlite_error_msg s' = sq_errmsg E (hist s')
         else \<exists>ds. cs = ds @ [SqStep, SqReset] \<and> r' = sq_changes E (hist ?s @ ds @ [SqStep])" by blast
      let ?cs = "(bind_calls 0 vs @ [SqStep, SqReset]) @ cs"
      have "\<exists>ds. ?cs = ds @ [SqStep, SqReset] \<and> r' = sq_changes E (hist s @ ds @ [SqStep])" if "\<not> r' < 0"
      proof -
        from cs(3) that obtain ds where "cs = ds @ [SqStep, SqReset]" "r' = sq_changes E (hist ?s @ ds @ [SqStep])" by auto
        then show ?thesis by (intro exI [of _ "(bind_calls 0 vs @ [SqStep, SqReset]) @ ds"]) simp
      qed
      with cs bd show ?thesis by (intro exI [of _ ?cs]) auto
    qed
  qed
qed simp

text \<open>Every operation on a valid statement ends with the close, the finalisation and the second close.\<close>

lemma with_stmt_valid:
  assumes "sq_handle E (hist s) DISPATCHER_DATABASE" and "sq_stmt E (hist s @ [SqOpen DISPATCHER_DATABASE]) sql"
  shows "with_stmt E sql body s =
    rbind (body (s\<lparr>hist := hist s @ [SqOpen DISPATCHER_DATABASE, SqPrepare sql]\<rparr>)) (\<lambda>(r, s2).
    Inr (r, s2\<lparr>hist := hist s2 @ [SqClose, SqFinalize, SqClose]\<rparr>))"
  using assms by (simp add: with_stmt_def wrapper_defs Let_def)

lemma with_stmt_invalid:
  assumes "sq_handle E (hist s) DISPATCHER_DATABASE" and "\<not> sq_stmt E (hist s @ [SqOpen DISPATCHER_DATABASE]) sql"
  shows "with_stmt E sql body s =
    Inr (SQLITEDATABASE_ERROR, s\<lparr>hist := hist s @ [SqOpen DISPATCHER_DATABASE, SqPrepare sql, SqClose, SqClose],
      sqlite_error_msg := sq_errmsg E (hist s @ [SqOpen DISPATCHER_DATABASE, SqPrepare sql])\<rparr>)"
  using assms by (simp add: with_stmt_def wrapper_defs Let_def)

lemma with_stmt_vec:
  assumes valid: "sq_handle E (hist s) DISPATCHER_DATABASE" "sq_stmt E (hist s @ [SqOpen DISPATCHER_DATABASE]) sql"
    and ex: "steps_once E exec" and ne: "vss \<noteq> []"
    and run: "with_stmt E sql (\<lambda>s1. rbind (vec_loop E exec vss 0 (s1\<lparr>hist := hist s1 @ bs\<rparr>)) (\<lambda>p. Inr (end_transaction E p))) s = Inr (r, s')"
  shows "\<exists>cs. hist s' = hist s @ [SqOpen DISPATCHER_DATABASE, SqPrepare sql] @ bs @ cs @
      [SqExec (if r < 0 then ''rollback;'' else ''commit;''), SqClose, SqFinalize, SqClose] \<and>
    (\<forall>c\<in>set cs. data_call c) \<and>
    (if r < 0 then True
     else \<exists>ds. cs = ds @ [SqStep, SqReset] \<and>
       r = sq_changes E (hist s @ [SqOpen DISPATCHER_DATABASE, SqPrepare sql] @ bs @ ds @ [SqStep]))"
proof -
  let ?s1 = "s\<lparr>hist := (hist s @ [SqOpen DISPATCHER_DATABASE, SqPrepare sql]) @ bs\<rparr>"
  obtain s2 where v: "vec_loop E exec vss 0 ?s1 = Inr (r, s2)"
    and s': "s' = s2\<lparr>hist := hist s2 @ [SqExec (if r < 0 then ''rollback;'' else ''commit;''), SqClose, SqFinalize, SqClose]\<rparr>"
    using run unfolding with_stmt_valid [OF valid]
    by (auto simp: rbind_Inr end_transaction_def call_defs split: prod.splits)
  from vec_loop_calls [OF ex v ne] obtain cs where cs: "hist s2 = hist ?s1 @ cs" "\<forall>c\<in>set cs. data_call c"
    "if r < 0 then sqlite_error_msg s2 = sq_errmsg E (hist s2)
     else \<exists>ds. cs = ds @ [SqStep, SqReset] \<and> r = sq_changes E (hist ?s1 @ ds @ [SqStep])" by blast
  then show ?thesis unfolding s' by (intro exI [of _ cs]) auto
qed

text \<open>The rows of a query, while the engine keeps answering \<open>SQLITE_ROW\<close>.\<close>

lemma qry_loop_rows:
  assumes "\<forall>k<length xs. sq_rc E (h @ replicate k SqStep) SqStep = SQLITE_ROW"
    and "sq_rc E (h @ replicate (length xs) SqStep) SqStep \<noteq> SQLITE_ROW"
    and "\<forall>k<length xs. row (h @ replicate (Suc k) SqStep) = Inr (xs ! k)" and "length xs \<le> fuel"
  shows "qry_loop E fuel True row h = Inr (xs, h @ replicate (Suc (length xs)) SqStep)"
  using assms
proof (induction xs arbitrary: h fuel)
  case Nil
  then show ?case by (simp add: qry_loop.simps next_row_def call_def)
next
  case (Cons x xs)
  obtain n where n: "fuel = Suc n" using Cons.prems(4) by (cases fuel) auto
  have shift: "(h @ [SqStep]) @ replicate k SqStep = h @ replicate (Suc k) SqStep" for k by simp
  have "qry_loop E n True row (h @ [SqStep]) = Inr (xs, (h @ [SqStep]) @ replicate (Suc (length xs)) SqStep)"
    by (rule Cons.IH) (use Cons.prems n in \<open>auto simp only: shift length_Cons nth_Cons_Suc Suc_less_eq Suc_le_mono\<close>)
  moreover have "row (h @ [SqStep]) = Inr x" "sq_rc E h SqStep = SQLITE_ROW"
    using Cons.prems(1,3) by (force dest: spec [of _ 0])+
  ultimately show ?case by (subst qry_loop.simps) (simp add: next_row_def call_def n)
qed

fun read_row :: "EElementType \<Rightarrow> sqlite3 \<Rightarrow> bool \<Rightarrow> history \<Rightarrow> element res" where
  "read_row TManageUser = row_ManageUser" | "read_row TServerConfig = row_ServerConfig"
| "read_row TStrategyConfig = row_StrategyConfig" | "read_row TDeployConfig = row_DeployConfig"
| "read_row TDeployGroup = row_DeployGroup"

lemma qryDataBySql_eq: "qryDataBySql t E fuel sql s = qryBySql E fuel (read_row t E) sql s"
  by (cases t) (simp_all add: qryManageUserBySql_def qryServerConfigBySql_def qryStrategyConfigBySql_def
      qryDeployConfigBySql_def qryDeployGroupBySql_def)

text \<open>A character array as the code fills it: a terminated string in zeroed memory.\<close>

definition canon :: "bytes \<Rightarrow> bool" where
  "canon a \<longleftrightarrow> 0 \<in> set a \<and> a = cstr a @ replicate (length a - length (cstr a)) 0"

fun bind_canon :: "bindv \<Rightarrow> bool" where
  "bind_canon (BString a) = canon a" | "bind_canon (BInteger _) = True"

fun column_is :: "sqlite3 \<Rightarrow> history \<Rightarrow> int \<Rightarrow> bindv \<Rightarrow> bool" where
  "column_is E h k (BString a) = (sq_text E h k = Some (cstr a))"
| "column_is E h k (BInteger i) = (sq_int E h k = i)"

fun columns_are :: "sqlite3 \<Rightarrow> history \<Rightarrow> int \<Rightarrow> bindv list \<Rightarrow> bool" where
  "columns_are E h k [] = True"
| "columns_are E h k (v # vs) = (column_is E h k v \<and> columns_are E h (k + 1) vs)"

lemma col_canon:
  assumes "sq_text E h k = Some (cstr a)" and "canon a" and "length a = n"
  shows "col E True h n k = Inr a"
proof -
  have c: "cstr (cstr a) = cstr a" by (rule cstr_id) (rule cstr_no_zero)
  have l: "length (cstr a) < n" using assms(2,3) length_cstr_less by (auto simp: canon_def)
  have "strcpy (replicate n 0) (cstr a) = Inr (cstr a @ 0 # replicate (n - Suc (length (cstr a))) 0)"
    using l by (subst strcpy_fits) (simp_all add: c drop_replicate)
  also have "cstr a @ 0 # replicate (n - Suc (length (cstr a))) 0 = cstr a @ replicate (n - length (cstr a)) 0"
    using l by (simp add: Suc_diff_Suc replicate_app_Cons_same flip: replicate_Suc)
  also have "\<dots> = a" using assms(2,3) by (simp add: canon_def)
  finally show ?thesis using assms(1) by (simp add: col_def getString_def)
qed

lemma read_row_bound:
  assumes "elem_ok x" and "\<forall>v\<in>set (ins_bind x). bind_canon v" and "columns_are E h 0 (ins_bind x)"
  shows "read_row (elem_type x) E True h = Inr x"
  using assms
  by (cases x) (simp_all add: row_ManageUser_def row_ServerConfig_def row_StrategyConfig_def row_DeployConfig_def
      row_DeployGroup_def col_canon getInteger_def)

section \<open>Properties\<close>

text \<open>C17: round trip through a table: the insert statement of an object binds its members in the order
  in which the query of its class reads the columns, so a row that holds what was bound is read back
  as the same object, for objects whose character arrays hold terminated strings in zeroed memory.\<close>

theorem insert_query_roundtrip:
  assumes "elem_ok x" and "\<forall>v\<in>set (ins_bind x). bind_canon v"
  shows "STMT_BIND E 0 (ins_bind x) h = Inr (h @ bind_calls 0 (ins_bind x)) \<and>
    (columns_are E h' 0 (ins_bind x) \<longrightarrow> read_row (elem_type x) E True h' = Inr x)"
proof -
  have "terminated v" if "bind_canon v" for v using that by (cases v) (simp_all add: canon_def)
  then show ?thesis using assms read_row_bound [OF assms] by (auto simp: STMT_BIND_eq)
qed

text \<open>An engine for the witnesses: every call succeeds, each text column is \<open>ab\<close>, one row per query.\<close>

definition demo_engine :: sqlite3 where
  "demo_engine =
     \<lparr>sq_rc = (\<lambda>h c. if c = SqStep then (if last h = SqExec ''begin;'' then 100 else 101) else 0),
      sq_handle = (\<lambda>_ _. True), sq_stmt = (\<lambda>_ sql. sql \<noteq> []), sq_changes = (\<lambda>_. 1), sq_text = (\<lambda>_ _. Some [97, 98]),
      sq_int = (\<lambda>_ _. 7), sq_int64 = (\<lambda>_ _. 0), sq_double = (\<lambda>_ _. 0), sq_data_count = (\<lambda>_. 2),
      sq_column_name = (\<lambda>_ _. None), sq_errmsg = (\<lambda>_. [101]), sq_errcode = (\<lambda>_. 1)\<rparr>"

definition demo_user :: element where
  "demo_user = ElManageUser \<lparr>mu_ManagerName = [97, 98] @ replicate 62 0, mu_ManagerPasswd = [97, 98] @ replicate 62 0\<rparr>"

lemma demo_user_ok: "elem_ok demo_user" "\<forall>v\<in>set (ins_bind demo_user). bind_canon v"
  "columns_are demo_engine h 0 (ins_bind demo_user)"
  by (simp_all add: demo_user_def canon_def cstr_def demo_engine_def)

theorem insert_query_roundtrip_witness:
  "STMT_BIND demo_engine 0 (ins_bind demo_user) [] = Inr [SqBindText 1 [97, 98], SqBindText 2 [97, 98]] \<and>
   read_row TManageUser demo_engine True [] = Inr demo_user"
  using insert_query_roundtrip [OF demo_user_ok(1,2), of demo_engine "[]" "[]"] demo_user_ok(3) [of "[]"]
  by (simp add: demo_user_def cstr_def)



text \<open>inserts and updates are not transactional: neither macro ever issues \<open>begin;\<close>, so after a
  failure in the middle of the objects the final \<open>rollback;\<close> has no transaction to undo; all that
  precedes it are binds, steps and resets.\<close>

theorem insert_update_never_begin:
  assumes "vss \<noteq> []" and "sq_handle E (hist s) DISPATCHER_DATABASE"
    and "sq_stmt E (hist s @ [SqOpen DISPATCHER_DATABASE]) sql"
    and "InsertByVector E sql vss s = Inr (r, s') \<or> UpdateByVector E sql vss s = Inr (r, s')"
  shows "\<exists>cs. hist s' = hist s @ [SqOpen DISPATCHER_DATABASE, SqPrepare sql] @ cs @
      [SqExec (if r < 0 then ''rollback;'' else ''commit;''), SqClose, SqFinalize, SqClose] \<and>
    (\<forall>c\<in>set cs. data_call c) \<and> SqExec ''begin;'' \<notin> set cs"
proof -
  have "\<exists>cs. hist s' = hist s @ [SqOpen DISPATCHER_DATABASE, SqPrepare sql] @ [] @ cs @
      [SqExec (if r < 0 then ''rollback;'' else ''commit;''), SqClose, SqFinalize, SqClose] \<and> (\<forall>c\<in>set cs. data_call c)"
    using with_stmt_vec [OF assms(2,3) execute_steps_once(1) assms(1), of "[]" r s']
      with_stmt_vec [OF assms(2,3) execute_steps_once(2) assms(1), of "[]" r s'] assms(1,4)
    by (auto simp: InsertByVector_def UpdateByVector_def)
  then show ?thesis by force
qed

theorem insert_update_never_begin_witness:
  "\<exists>s'. InsertByVector demo_engine [100] [[BString [97, 0]], [BInteger 3]] \<lparr>hist = [], sqlite_error_msg = []\<rparr> = Inr (1, s') \<and>
    (\<exists>cs. hist s' = [SqOpen DISPATCHER_DATABASE, SqPrepare [100]] @ cs @ [SqExec ''commit;'', SqClose, SqFinalize, SqClose] \<and>
      SqExec ''begin;'' \<notin> set cs)"
proof -
  let ?s = "\<lparr>hist = [], sqlite_error_msg = []\<rparr>"
  obtain s' where r: "InsertByVector demo_engine [100] [[BString [97, 0]], [BInteger 3]] ?s = Inr (1, s')"
    by (simp add: InsertByVector_def with_stmt_def wrapper_defs demo_engine_def c_string_def executeInsert_def
        end_transaction_def SQLITE_OK_def SQLITE_DONE_def Let_def)
  show ?thesis
    using r insert_update_never_begin [of "[[BString [97, 0]], [BInteger 3]]" demo_engine ?s "[100]" 1 s'] r
    by (auto simp: demo_engine_def)
qed

text \<open>C18: a query returns all rows: when the engine answers the steps of the compiled statement with as
  many rows as there are objects and each row reads back as its object, \<open>qryDataBySql\<close> returns exactly
  these objects in order, leaves the error message empty and commits its transaction; a bound on the
  number of rows is the only thing it needs to terminate.\<close>

theorem query_returns_all_rows:
  assumes "sq_handle E (hist s) DISPATCHER_DATABASE" and "sq_stmt E (hist s @ [SqOpen DISPATCHER_DATABASE]) sql"
    and "h = hist s @ [SqOpen DISPATCHER_DATABASE, SqPrepare sql, SqExec ''begin;'']"
    and "\<forall>k<length xs. sq_rc E (h @ replicate k SqStep) SqStep = SQLITE_ROW"
    and "sq_rc E (h @ replicate (length xs) SqStep) SqStep \<noteq> SQLITE_ROW"
    and "\<forall>k<length xs. read_row t E True (h @ replicate (Suc k) SqStep) = Inr (xs ! k)"
    and "length xs \<le> fuel"
  shows "qryDataBySql t E fuel sql s =
    Inr (xs, \<lparr>hist = h @ replicate (Suc (length xs)) SqStep @ [SqExec ''commit;'', SqClose, SqFinalize, SqClose],
      sqlite_error_msg = []\<rparr>)"
proof -
  have "h = (hist s @ [SqOpen DISPATCHER_DATABASE, SqPrepare sql]) @ [SqExec ''begin;'']" using assms(3) by simp
  then have "qry_loop E fuel True (read_row t E True) ((hist s @ [SqOpen DISPATCHER_DATABASE, SqPrepare sql]) @ [SqExec ''begin;'']) =
      Inr (xs, h @ replicate (Suc (length xs)) SqStep)"
    using qry_loop_rows [OF assms(4-7)] by simp
  then show ?thesis
    using assms(1,2) by (simp add: qryDataBySql_eq qryBySql_def wrapper_defs executeQuery_def Let_def)
qed

theorem query_returns_all_rows_witness:
  "\<exists>s'. qryDataBySql TManageUser demo_engine 5 [115] \<lparr>hist = [], sqlite_error_msg = [1]\<rparr> = Inr ([demo_user], s') \<and>
    sqlite_error_msg s' = []"
proof -
  let ?s = "\<lparr>hist = [], sqlite_error_msg = [1 :: byte]\<rparr>"
  have "read_row TManageUser demo_engine True h = Inr demo_user" for h
    using read_row_bound [OF demo_user_ok(1,2,3)] by (simp add: demo_user_def)
  then show ?thesis
    using query_returns_all_rows [of demo_engine ?s "[115]" _ "[demo_user]" TManageUser 5, OF _ _ refl]
    by (simp add: demo_engine_def SQLITE_ROW_def)
qed

text \<open>A column that does not fit overruns the structure: the queries copy every text column with
  \<open>strcpy\<close>, so a manager name of 64 or more characters in the table writes past the array.\<close>

theorem long_column_overruns:
  assumes "sq_text E h 0 = Some t" and "64 \<le> length (cstr t)"
  shows "row_ManageUser E True h = Inl OutOfBounds"
  using assms by (simp add: row_ManageUser_def col_def getString_def strcpy_overruns)

theorem long_column_overruns_witness:
  "row_ManageUser (demo_engine\<lparr>sq_text := \<lambda>_ _. Some (replicate 70 97)\<rparr>) True [] = Inl OutOfBounds"
  using long_column_overruns [of "demo_engine\<lparr>sq_text := \<lambda>_ _. Some (replicate 70 97)\<rparr>" "[]" "replicate 70 97"]
  by (simp add: cstr_def takeWhile_replicate)

text \<open>When a statement does not compile, the operations report the error, but \<open>close\<close> has closed the
  connection (no statement keeps it open) and the destructor closes the same handle once more.\<close>

theorem compile_error_closes_twice:
  assumes "sql \<noteq> []" and "sq_handle E (hist s) DISPATCHER_DATABASE"
    and "\<not> sq_stmt E (hist s @ [SqOpen DISPATCHER_DATABASE]) sql"
  shows "\<exists>s'. delBySql E sql s = Inr (SQLITEDATABASE_ERROR, s') \<and>
    hist s' = hist s @ [SqOpen DISPATCHER_DATABASE, SqPrepare sql, SqClose, SqClose]"
  using assms with_stmt_invalid [of E "s\<lparr>sqlite_error_msg := []\<rparr>" sql] by (simp add: delBySql_def)

theorem compile_error_closes_twice_witness:
  "\<exists>s'. delBySql (demo_engine\<lparr>sq_stmt := \<lambda>_ _. False\<rparr>) [100] \<lparr>hist = [], sqlite_error_msg = []\<rparr> = Inr (- 1, s') \<and>
    hist s' = [SqOpen DISPATCHER_DATABASE, SqPrepare [100], SqClose, SqClose]"
  using compile_error_closes_twice [of "[100]" "demo_engine\<lparr>sq_stmt := \<lambda>_ _. False\<rparr>" "\<lparr>hist = [], sqlite_error_msg = []\<rparr>"]
  by (simp add: demo_engine_def SQLITEDATABASE_ERROR_def)

end
