(* ===== verification/DispService.thy ===== *)
theory DispService
  imports DbOps "HOL-Library.AList"
begin

text \<open>
  \<^verbatim>\<open>StragetyDeployer/DispatcherService.{h,cpp}\<close>: the dispatcher. The poll thread forwards the answers
  of the workers, reads one request per round, checks identity and login, and submits database work to
  the thread pool; a worker runs a task and sends the answer through the in-process socket. A socket is
  the list of the frames that wait at it (or were sent) with their more flags; ZeroMQ delivers a
  multipart message as a whole. Uninitialised bytes of a response (\<open>u\<close>) and the readings of the clock
  are parameters; time points are nanoseconds. The clients are never removed from the map, so that a
  \<open>shared_ptr\<close> to one is its key.
\<close>

section \<open>Timer\<close>

record Timer =
  trigtime :: int
  nMills :: int
  fHandle :: bool

definition milliseconds :: "int \<Rightarrow> int" where "milliseconds n = n * 1000000"

definition new_Timer :: "int \<Rightarrow> Timer" where
  "new_Timer now = \<lparr>trigtime = now, nMills = 0, fHandle = False\<rparr>"

definition Timer_mills :: "int \<Rightarrow> int \<Rightarrow> Timer" where
  "Timer_mills mills now = \<lparr>trigtime = now + milliseconds mills, nMills = mills, fHandle = False\<rparr>"

definition recount :: "int \<Rightarrow> Timer \<Rightarrow> Timer" where
  "recount now t = t\<lparr>trigtime := now + milliseconds (nMills t)\<rparr>"

definition timeout :: "int \<Rightarrow> Timer \<Rightarrow> bool" where
  "timeout compares t \<longleftrightarrow> trigtime t \<le> compares"

definition registHandle :: "Timer \<Rightarrow> Timer" where
  "registHandle t = t\<lparr>fHandle := True\<rparr>"

text \<open>The assignment copies the times and leaves the handler of the target alone.\<close>

definition timer_assign :: "Timer \<Rightarrow> Timer \<Rightarrow> Timer" where
  "timer_assign t other = t\<lparr>nMills := nMills other, trigtime := trigtime other\<rparr>"

section \<open>State\<close>

record DispatcherClient =
  m_strRouter :: bytes
  m_strIdentify :: bytes
  m_tLastWrite :: int
  m_tLastRead :: int
  m_bLogin :: bool

definition new_DispatcherClient :: "int \<Rightarrow> DispatcherClient" where
  "new_DispatcherClient now =
     \<lparr>m_strRouter = [], m_strIdentify = [], m_tLastWrite = now, m_tLastRead = now, m_bLogin = False\<rparr>"

datatype task =
    TaskQryBySql bytes bytes EElementType i32
  | TaskDelBySql bytes bytes EElementType i32
  | TaskInsByObjects bytes EElementType "element list" i32
  | TaskDelByObjects bytes EElementType "element list" i32
  | TaskUpdByObjects bytes EElementType "element list" i32

record DispatcherService =
  bindIn :: "frame list"
  bindMore :: bool
  bindOut :: "frame list"
  inprocIn :: "frame list"
  m_nBindPort :: i32
  m_mapClients :: "(bytes \<times> DispatcherClient) list"
  m_timerKA :: Timer
  threadPool :: "task list"
  m_setManagerCache :: "bytes set"
  m_bUpdManagerCache :: bool
  dbHistory :: history
  threadMsg :: "nat \<Rightarrow> bytes"

definition new_DispatcherService :: "int \<Rightarrow> int \<Rightarrow> i32 \<Rightarrow> DispatcherService" where
  "new_DispatcherService t0 t1 port =
     \<lparr>bindIn = [], bindMore = False, bindOut = [], inprocIn = [], m_nBindPort = port, m_mapClients = [],
      m_timerKA = registHandle (timer_assign (new_Timer t0) (Timer_mills 10000 t1)), threadPool = [],
      m_setManagerCache = {}, m_bUpdManagerCache = True, dbHistory = [], threadMsg = (\<lambda>_. [])\<rparr>"

text \<open>The port starts uninitialised. \<open>StartService\<close> binds to the address and runs the poll thread.\<close>

definition SetPort :: "i32 \<Rightarrow> DispatcherService \<Rightarrow> DispatcherService" where
  "SetPort port s = s\<lparr>m_nBindPort := port\<rparr>"

definition StartService :: "DispatcherService \<Rightarrow> bytes res" where
  "StartService s = sprintf_fits 128 (lit ''tcp://*:'' @ lit (show_int (sint (m_nBindPort s))))"

definition set_client :: "bytes \<Rightarrow> DispatcherClient \<Rightarrow> DispatcherService \<Rightarrow> DispatcherService" where
  "set_client strid c s = s\<lparr>m_mapClients := AList.update strid c (m_mapClients s)\<rparr>"

definition identifyUser :: "bytes \<Rightarrow> DispatcherService \<Rightarrow> bool" where
  "identifyUser strid s \<longleftrightarrow> strid \<in> m_setManagerCache s"

text \<open>A database operation of thread \<open>k\<close>; the error message is a thread-local variable.\<close>

definition run_db :: "nat \<Rightarrow> (dbst \<Rightarrow> ('a \<times> dbst) res) \<Rightarrow> DispatcherService \<Rightarrow> ('a \<times> DispatcherService) res" where
  "run_db k f s =
     rbind (f \<lparr>hist = dbHistory s, sqlite_error_msg = threadMsg s k\<rparr>) (\<lambda>(x, d).
     Inr (x, s\<lparr>dbHistory := hist d, threadMsg := (threadMsg s)(k := sqlite_error_msg d)\<rparr>))"

section \<open>Sockets\<close>

definition recv_bind :: "DispatcherService \<Rightarrow> (bytes \<times> DispatcherService) res" where
  "recv_bind s =
     (case bindIn s of
        [] \<Rightarrow> Inl WouldBlock
      | (d, rcvmore) # fs \<Rightarrow> Inr (d, s\<lparr>bindIn := fs, bindMore := rcvmore\<rparr>))"

definition innerSendMsg :: "bytes \<Rightarrow> bool \<Rightarrow> DispatcherService \<Rightarrow> DispatcherService" where
  "innerSendMsg d bMore s = s\<lparr>bindOut := bindOut s @ [(d, bMore)]\<rparr>"

definition recvPodObject :: "DispatcherService \<Rightarrow> (i32 \<times> DispatcherService) res" where
  "recvPodObject s =
     rbind (recv_bind s) (\<lambda>(d, s1). if length d \<noteq> 4 then Inl AssertFail else Inr (dec_i32 d, s1))"

text \<open>The loops that read while \<open>ZMQ_RCVMORE\<close> is set; a \<open>memcpy\<close> reads \<open>sizeof(T)\<close> bytes of the frame.\<close>

fun vec_objects :: "EElementType \<Rightarrow> bool \<Rightarrow> frame list \<Rightarrow> (element list \<times> frame list) res" where
  "vec_objects t False fs = Inr ([], fs)"
| "vec_objects t True [] = Inl WouldBlock"
| "vec_objects t True ((d, rcvmore) # fs) =
     (if length d < elem_size t then Inl OutOfBounds
      else rbind (vec_objects t rcvmore fs) (\<lambda>(xs, rest). Inr (dec_elem t d # xs, rest)))"

definition recvVecObject :: "EElementType \<Rightarrow> DispatcherService \<Rightarrow> (element list \<times> DispatcherService) res" where
  "recvVecObject t s =
     rbind (vec_objects t (bindMore s) (bindIn s)) (\<lambda>(xs, rest). Inr (xs, s\<lparr>bindIn := rest, bindMore := False\<rparr>))"

fun vec_filters :: "bool \<Rightarrow> frame list \<Rightarrow> (ColumnFilter list \<times> frame list) res" where
  "vec_filters False fs = Inr ([], fs)"
| "vec_filters True ((d1, more1) # (d2, rcvmore) # fs) =
     rbind (vec_filters rcvmore fs) (\<lambda>(xs, rest). Inr (\<lparr>ColName = d1, ColVal = d2\<rparr> # xs, rest))"
| "vec_filters True fs = Inl WouldBlock"

definition recvFilters :: "DispatcherService \<Rightarrow> (ColumnFilter list \<times> DispatcherService) res" where
  "recvFilters s =
     rbind (vec_filters (bindMore s) (bindIn s)) (\<lambda>(xs, rest). Inr (xs, s\<lparr>bindIn := rest, bindMore := False\<rparr>))"

fun skip_frames :: "bool \<Rightarrow> frame list \<Rightarrow> frame list res" where
  "skip_frames False fs = Inr fs"
| "skip_frames True [] = Inl WouldBlock"
| "skip_frames True ((d, rcvmore) # fs) = skip_frames rcvmore fs"

definition skipRemainMFrame :: "DispatcherService \<Rightarrow> DispatcherService res" where
  "skipRemainMFrame s =
     rbind (skip_frames (bindMore s) (bindIn s)) (\<lambda>rest. Inr (s\<lparr>bindIn := rest, bindMore := False\<rparr>))"

section \<open>Responses\<close>

definition response :: "bytes \<Rightarrow> EResponseErrType \<Rightarrow> string \<Rightarrow> i32 \<Rightarrow> i32 \<Rightarrow> ReqResponse res" where
  "response u err msg reqid cmd =
     rbind (strcpy u (lit msg)) (\<lambda>m.
     Inr \<lparr>ErrorID = err_code err, ErrMsg = m, RequestID = reqid, CmdType = cmd\<rparr>)"

definition send_response :: "bytes \<Rightarrow> ReqResponse \<Rightarrow> DispatcherService \<Rightarrow> DispatcherService" where
  "send_response strRouter rsp s =
     innerSendMsg (enc_rsp rsp) False
       (innerSendMsg (enc_i32 (pattern_code TPassiveResponse)) True (innerSendMsg strRouter True s))"

definition onReqLogin :: "bytes \<Rightarrow> bytes \<Rightarrow> DispatcherClient \<Rightarrow> DispatcherService \<Rightarrow> DispatcherService res" where
  "onReqLogin u strid client s =
     rbind (recvPodObject s) (\<lambda>(reqid, s1).
     if m_bLogin client
     then rbind (response u TReplicatedLogin ''Replicated Login'' reqid (cmd_code TLogin)) (\<lambda>rsp.
          Inr (send_response (m_strRouter client) rsp s1))
     else rbind (response u TSuccess ''Login Successfully'' reqid (cmd_code TLogin)) (\<lambda>rsp.
          Inr (send_response (m_strRouter client) rsp (set_client strid (client\<lparr>m_bLogin := True\<rparr>) s1))))"

definition onReqLogout :: "bytes \<Rightarrow> bytes \<Rightarrow> DispatcherClient \<Rightarrow> DispatcherService \<Rightarrow> DispatcherService res" where
  "onReqLogout u strid client s =
     rbind (recvPodObject s) (\<lambda>(reqid, s1).
     rbind (response u TSuccess ''Logout Successfully'' reqid (cmd_code TLogout)) (\<lambda>rsp.
     Inr (send_response (m_strRouter client) rsp (set_client strid (client\<lparr>m_bLogin := False\<rparr>) s1))))"

definition onKeepAlive :: "int \<Rightarrow> bytes \<Rightarrow> DispatcherClient \<Rightarrow> DispatcherService \<Rightarrow> DispatcherService" where
  "onKeepAlive now strid client s = set_client strid (client\<lparr>m_tLastRead := now\<rparr>) s"

section \<open>Requests\<close>

text \<open>The statement text is built with \<open>sprintf\<close> in \<open>char ch[64]\<close>; \<open>%s\<close> of a string ends at its first zero.\<close>

definition table_name :: "i32 \<Rightarrow> string res" where
  "table_name eletype =
     (let i = sint eletype in
      if 0 \<le> i \<and> i < int (length AllTableNames) then Inr (AllTableNames ! nat i) else Inl OutOfBounds)"

definition filter_text :: "ColumnFilter \<Rightarrow> bytes" where
  "filter_text f = lit '' and '' @ cstr (ColName f) @ lit ''='' @ [34] @ cstr (ColVal f) @ [34]"

fun filters_sql :: "ColumnFilter list \<Rightarrow> bytes res" where
  "filters_sql [] = Inr []"
| "filters_sql (f # fs) = rbind (sprintf_fits 64 (filter_text f)) (\<lambda>ch. rbind (filters_sql fs) (\<lambda>r. Inr (ch @ r)))"

definition build_sql :: "string \<Rightarrow> i32 \<Rightarrow> ColumnFilter list \<Rightarrow> bytes res" where
  "build_sql verb eletype fs =
     rbind (table_name eletype) (\<lambda>tab.
     rbind (sprintf_fits 64 (lit verb @ lit tab @ lit '' where 1=1'')) (\<lambda>ch.
     rbind (filters_sql fs) (\<lambda>r. Inr (ch @ r @ lit '';''))))"

definition submit :: "task \<Rightarrow> DispatcherService \<Rightarrow> DispatcherService" where
  "submit t s = s\<lparr>threadPool := threadPool s @ [t]\<rparr>"

text \<open>The three commands that carry objects share their shape.\<close>

definition recv_objects_cmd ::
  "(EElementType \<Rightarrow> element list \<Rightarrow> i32 \<Rightarrow> DispatcherService \<Rightarrow> DispatcherService) \<Rightarrow> DispatcherService \<Rightarrow> DispatcherService res" where
  "recv_objects_cmd act s =
     rbind (recvPodObject s) (\<lambda>(reqid, s1).
     rbind (recvPodObject s1) (\<lambda>(eletype, s2).
     case ele_of eletype of
       Some t \<Rightarrow> rbind (recvVecObject t s2) (\<lambda>(objVec, s3). Inr (act t objVec reqid s3))
     | None \<Rightarrow> skipRemainMFrame s2))"

definition recv_filter_cmd ::
  "string \<Rightarrow> (bytes \<Rightarrow> EElementType \<Rightarrow> i32 \<Rightarrow> task) \<Rightarrow> DispatcherService \<Rightarrow> DispatcherService res" where
  "recv_filter_cmd verb mk s =
     rbind (recvPodObject s) (\<lambda>(reqid, s1).
     rbind (recvPodObject s1) (\<lambda>(eletype, s2).
     rbind (recvFilters s2) (\<lambda>(colFilterVec, s3).
     rbind (build_sql verb eletype colFilterVec) (\<lambda>sql.
     Inr (case ele_of eletype of Some t \<Rightarrow> submit (mk sql t reqid) s3 | None \<Rightarrow> s3)))))"

definition onRecvCmd ::
  "int \<Rightarrow> bytes \<Rightarrow> i32 \<Rightarrow> bytes \<Rightarrow> DispatcherClient \<Rightarrow> DispatcherService \<Rightarrow> DispatcherService res" where
  "onRecvCmd now u cmd strid client s =
     (case cmd_of cmd of
        Some TLogin \<Rightarrow> onReqLogin u strid client s
      | Some TLogout \<Rightarrow> onReqLogout u strid client s
      | Some TKeepAlive \<Rightarrow> Inr (onKeepAlive now strid client s)
      | Some TQuery \<Rightarrow> recv_filter_cmd ''select * from '' (TaskQryBySql strid) s
      | Some TDelByCol \<Rightarrow> recv_filter_cmd ''delete from '' (TaskDelBySql strid) s
      | Some TDelete \<Rightarrow>
          recv_objects_cmd (\<lambda>t objVec reqid. submit (TaskDelByObjects strid t objVec reqid)) s
      | Some TInsert \<Rightarrow>
          recv_objects_cmd (\<lambda>t objVec reqid s1.
            submit (TaskInsByObjects strid t objVec reqid)
              (if t = TManageUser then s1\<lparr>m_bUpdManagerCache := True\<rparr> else s1)) s
      | Some TUpdate \<Rightarrow>
          recv_objects_cmd (\<lambda>t objVec reqid. submit (TaskUpdByObjects strid t objVec reqid)) s
      | _ \<Rightarrow> skipRemainMFrame s)"

text \<open>A rejected request: the request id is read when the message has more frames.\<close>

definition reject ::
  "bytes \<Rightarrow> EResponseErrType \<Rightarrow> string \<Rightarrow> i32 \<Rightarrow> bytes \<Rightarrow> i32 \<times> DispatcherService \<Rightarrow> DispatcherService res" where
  "reject u err msg cmd strRouter p =
     (case p of (reqid, s) \<Rightarrow>
        rbind (response u err msg reqid cmd) (\<lambda>rsp. Inr (send_response strRouter rsp s)))"

definition recv_reqid :: "DispatcherService \<Rightarrow> (i32 \<times> DispatcherService) res" where
  "recv_reqid s = (if bindMore s then recvPodObject s else Inr (0, s))"

definition recv_reqid_unchecked :: "DispatcherService \<Rightarrow> (i32 \<times> DispatcherService) res" where
  "recv_reqid_unchecked s =
     (if bindMore s
      then rbind (recv_bind s) (\<lambda>(d, s1). if length d < 4 then Inl OutOfBounds else Inr (dec_i32 d, s1))
      else Inr (0, s))"

text \<open>The clock readings of one round, in the order of the code.\<close>

record poll_times =
  t_check :: int
  t_ka :: int
  t_write :: int
  t_recount :: int
  t_client :: int
  t_read :: int
  t_keep :: int

definition find_client :: "int \<Rightarrow> bytes \<Rightarrow> DispatcherService \<Rightarrow> DispatcherClient \<times> DispatcherService" where
  "find_client now strIdentity s =
     (case map_of (m_mapClients s) strIdentity of
        Some client \<Rightarrow> (client, s)
      | None \<Rightarrow> (let client = (new_DispatcherClient now)\<lparr>m_strIdentify := strIdentity\<rparr>
                 in (client, set_client strIdentity client s)))"

definition dispatch :: "poll_times \<Rightarrow> bytes \<Rightarrow> bytes \<Rightarrow> bytes \<Rightarrow> i32 \<Rightarrow> DispatcherService \<Rightarrow> DispatcherService res" where
  "dispatch T u strRouter strIdentity cmd s =
     (if \<not> identifyUser strIdentity s
      then rbind (recv_reqid_unchecked s) (reject u TIdentifyErr ''Identify Error'' cmd strRouter)
      else
        let (client, s1) = find_client (t_client T) strIdentity s in
        if \<not> m_bLogin client \<and> cmd \<noteq> cmd_code TLogin \<and> cmd \<noteq> cmd_code TKeepAlive
        then rbind (recv_reqid s1) (reject u TNoLogin ''No-Login Error'' cmd strRouter)
        else if m_bLogin client \<and> m_strRouter client \<noteq> strRouter
        then rbind (recv_reqid s1) (reject u TMultiLogin ''Multi-Login Error'' cmd strRouter)
        else
          let client1 = client\<lparr>m_strRouter := strRouter, m_tLastRead := t_read T\<rparr>
          in onRecvCmd (t_keep T) u cmd strIdentity client1 (set_client strIdentity client1 s1))"

definition recv_request :: "poll_times \<Rightarrow> bytes \<Rightarrow> DispatcherService \<Rightarrow> DispatcherService res" where
  "recv_request T u s =
     rbind (recv_bind s) (\<lambda>(strRouter, s1).
     rbind (recv_bind s1) (\<lambda>(strIdentity, s2).
     rbind (recv_bind s2) (\<lambda>(d, s3).
     if length d < 4 then Inl OutOfBounds
     else rbind (dispatch T u strRouter strIdentity (dec_i32 d) s3) skipRemainMFrame)))"

section \<open>The poll thread\<close>

definition updManagerCache :: "sqlite3 \<Rightarrow> nat \<Rightarrow> DispatcherService \<Rightarrow> DispatcherService res" where
  "updManagerCache E fuel s =
     rbind (sprintf_fits 128 (lit ''select * from ManageUser where 1=1'')) (\<lambda>sql.
     rbind (run_db 0 (qryManageUserBySql E fuel sql) s) (\<lambda>(vc, s1).
     rfold (\<lambda>x s2. case x of
              ElManageUser c \<Rightarrow> rbind (c_string (mu_ManagerName c)) (\<lambda>n. Inr (s2\<lparr>m_setManagerCache := insert n (m_setManagerCache s2)\<rparr>))
            | _ \<Rightarrow> Inr s2) vc (s1\<lparr>m_setManagerCache := {}\<rparr>)))"

text \<open>\<open>chrono::minutes(1)\<close>. The map is walked in the order of insertion.\<close>

definition one_minute :: int where "one_minute = milliseconds 60000"

definition keepalive_client :: "int \<Rightarrow> int \<Rightarrow> bytes \<times> DispatcherClient \<Rightarrow> DispatcherService \<Rightarrow> DispatcherService" where
  "keepalive_client tnow twrite it s =
     (case it of (strid, client) \<Rightarrow>
        if m_tLastRead client + one_minute < tnow then set_client strid (client\<lparr>m_bLogin := False\<rparr>) s
        else innerSendMsg (enc_i32 (cmd_code TKeepAlive)) False
               (innerSendMsg (enc_i32 (pattern_code TActivePush)) True
                 (innerSendMsg (m_strRouter client) True (set_client strid (client\<lparr>m_tLastWrite := twrite\<rparr>) s))))"

definition katimeHandle :: "int \<Rightarrow> int \<Rightarrow> DispatcherService \<Rightarrow> DispatcherService" where
  "katimeHandle tnow twrite s = fold (keepalive_client tnow twrite) (m_mapClients s) s"

definition callback :: "poll_times \<Rightarrow> DispatcherService \<Rightarrow> DispatcherService" where
  "callback T s = (if fHandle (m_timerKA s) then katimeHandle (t_ka T) (t_write T) s else s)"

definition check_timer :: "poll_times \<Rightarrow> DispatcherService \<Rightarrow> DispatcherService" where
  "check_timer T s =
     (if timeout (t_check T) (m_timerKA s)
      then (let s1 = callback T s in s1\<lparr>m_timerKA := recount (t_recount T) (m_timerKA s1)\<rparr>)
      else s)"

fun forward_frames :: "frame list \<Rightarrow> (frame list \<times> frame list) res" where
  "forward_frames [] = Inl WouldBlock"
| "forward_frames ((d, rcvmore) # fs) =
     (if rcvmore then rbind (forward_frames fs) (\<lambda>(fwd, rest). Inr ((d, True) # fwd, rest)) else Inr ([(d, False)], fs))"

definition forward_answer :: "DispatcherService \<Rightarrow> DispatcherService res" where
  "forward_answer s =
     rbind (forward_frames (drop 1 (inprocIn s))) (\<lambda>(fwd, rest).
     Inr (s\<lparr>bindOut := bindOut s @ fwd, inprocIn := rest\<rparr>))"

definition pollFunc :: "sqlite3 \<Rightarrow> nat \<Rightarrow> poll_times \<Rightarrow> bytes \<Rightarrow> DispatcherService \<Rightarrow> DispatcherService res" where
  "pollFunc E fuel T u s =
     rbind (if m_bUpdManagerCache s then updManagerCache E fuel (s\<lparr>m_bUpdManagerCache := False\<rparr>) else Inr s) (\<lambda>s1.
     let s2 = check_timer T s1; in0 = inprocIn s2 \<noteq> []; in1 = bindIn s2 \<noteq> [] in
     rbind (if in0 then forward_answer s2 else Inr s2) (\<lambda>s3.
     if in1 then recv_request T u s3 else Inr s3))"

section \<open>The workers\<close>

text \<open>The answer of a worker arrives at the in-process ROUTER socket as one message behind the identity
  \<open>rid\<close> of the worker's socket.\<close>

definition outerSendMsg :: "bytes \<Rightarrow> bytes list \<Rightarrow> DispatcherService \<Rightarrow> DispatcherService" where
  "outerSendMsg rid ds s = s\<lparr>inprocIn := inprocIn s @ multipart (rid # ds)\<rparr>"

definition storeCacheBool :: "EElementType \<Rightarrow> DispatcherService \<Rightarrow> DispatcherService" where
  "storeCacheBool t s = (if t = TManageUser then s\<lparr>m_bUpdManagerCache := True\<rparr> else s)"

definition client_router :: "bytes \<Rightarrow> DispatcherService \<Rightarrow> bytes res" where
  "client_router strid s =
     (case map_of (m_mapClients s) strid of Some c \<Rightarrow> Inr (m_strRouter c) | None \<Rightarrow> Inl NullDeref)"

definition onQryBySql ::
  "sqlite3 \<Rightarrow> nat \<Rightarrow> nat \<Rightarrow> bytes \<Rightarrow> bytes \<Rightarrow> bytes \<Rightarrow> EElementType \<Rightarrow> i32 \<Rightarrow> DispatcherService \<Rightarrow> DispatcherService res" where
  "onQryBySql E fuel k rid strid sql t requestId s =
     rbind (run_db k (qryDataBySql t E fuel sql) s) (\<lambda>(qryObjs, s1).
     rbind (client_router strid s1) (\<lambda>router.
     rbind (if threadMsg s1 k = [] then strcpy (replicate 64 0) (lit ''Query Successfully'')
            else strncpy (replicate 64 0) (threadMsg s1 k) 63) (\<lambda>msg.
     let rsp = \<lparr>ErrorID = err_code (if threadMsg s1 k = [] then TSuccess else TDbError), ErrMsg = msg,
                RequestID = requestId, CmdType = cmd_code TQuery\<rparr>
     in Inr (outerSendMsg rid ([router, enc_i32 (pattern_code TPassiveResponse), enc_rsp rsp, enc_i32 (ele_code t)] @ map enc_elem qryObjs) s1))))"

text \<open>What the other four handlers share: run, answer with the result, mark the manager cache stale.\<close>

definition on_change ::
  "(dbst \<Rightarrow> (int \<times> dbst) res) \<Rightarrow> ECommandType \<Rightarrow> string \<Rightarrow> nat \<Rightarrow> bytes \<Rightarrow> bytes \<Rightarrow> EElementType \<Rightarrow> i32 \<Rightarrow> DispatcherService \<Rightarrow> DispatcherService res" where
  "on_change f cmd okmsg k rid strid t requestId s =
     rbind (run_db k f s) (\<lambda>(r, s1).
     rbind (client_router strid s1) (\<lambda>router.
     rbind (if r < 0 then strncpy (replicate 64 0) (threadMsg s1 k) 63 else strcpy (replicate 64 0) (lit okmsg)) (\<lambda>msg.
     let rsp = \<lparr>ErrorID = err_code (if r < 0 then TDbError else TSuccess), ErrMsg = msg, RequestID = requestId, CmdType = cmd_code cmd\<rparr>;
         s2 = (if r < 0 then s1 else storeCacheBool t s1)
     in Inr (outerSendMsg rid [router, enc_i32 (pattern_code TPassiveResponse), enc_rsp rsp] s2))))"

definition onDelBySql where
  "onDelBySql E k rid strid sql t requestId s =
     on_change (delBySql E sql) TDelByCol ''Delete Successfully'' k rid strid t requestId s"

definition onInsByObjects where
  "onInsByObjects E k rid strid t objVec requestId s =
     on_change (insByObjects t E objVec) TInsert ''Insert Successfully'' k rid strid t requestId s"

definition onDelByObjects where
  "onDelByObjects E k rid strid t objVec requestId s =
     on_change (delByObjects t E objVec) TDelete ''Delete Successfully'' k rid strid t requestId s"

definition onUpdByObjects where
  "onUpdByObjects E k rid strid t objVec requestId s =
     on_change (updByObjects t E objVec) TUpdate ''Update Successfully'' k rid strid t requestId s"

fun run_task :: "sqlite3 \<Rightarrow> nat \<Rightarrow> nat \<Rightarrow> bytes \<Rightarrow> task \<Rightarrow> DispatcherService \<Rightarrow> DispatcherService res" where
  "run_task E fuel k rid (TaskQryBySql strid sql t requestId) s = onQryBySql E fuel k rid strid sql t requestId s"
| "run_task E fuel k rid (TaskDelBySql strid sql t requestId) s = onDelBySql E k rid strid sql t requestId s"
| "run_task E fuel k rid (TaskInsByObjects strid t objVec requestId) s = onInsByObjects E k rid strid t objVec requestId s"
| "run_task E fuel k rid (TaskDelByObjects strid t objVec requestId) s = onDelByObjects E k rid strid t objVec requestId s"
| "run_task E fuel k rid (TaskUpdByObjects strid t objVec requestId) s = onUpdByObjects E k rid strid t objVec requestId s"

text \<open>Worker \<open>k\<close> takes the oldest task and runs it.\<close>

definition svc_worker :: "sqlite3 \<Rightarrow> nat \<Rightarrow> nat \<Rightarrow> bytes \<Rightarrow> DispatcherService \<Rightarrow> DispatcherService res" where
  "svc_worker E fuel k rid s =
     (case threadPool s of [] \<Rightarrow> Inr s | t # ts \<Rightarrow> run_task E fuel k rid t (s\<lparr>threadPool := ts\<rparr>))"

section \<open>Lemmas: what the receive operations leave alone\<close>

lemma recv_bind_Inr:
  "recv_bind s = Inr (d, s1) \<longleftrightarrow> (\<exists>b fs. bindIn s = (d, b) # fs \<and> s1 = s\<lparr>bindIn := fs, bindMore := b\<rparr>)"
  by (auto simp: recv_bind_def split: list.splits)

text \<open>Two states that differ at most in the input socket.\<close>

definition same_but_input :: "DispatcherService \<Rightarrow> DispatcherService \<Rightarrow> bool" where
  "same_but_input s s1 \<longleftrightarrow> (\<exists>fs b. s1 = s\<lparr>bindIn := fs, bindMore := b\<rparr>)"

lemma same_but_input_trans: "same_but_input s s1 \<Longrightarrow> same_but_input s1 s2 \<Longrightarrow> same_but_input s s2"
  unfolding same_but_input_def
proof (elim exE)
  fix fs b fs' b'
  assume "s1 = s\<lparr>bindIn := fs, bindMore := b\<rparr>" "s2 = s1\<lparr>bindIn := fs', bindMore := b'\<rparr>"
  then have "s2 = s\<lparr>bindIn := fs', bindMore := b'\<rparr>" by simp
  then show "\<exists>fs b. s2 = s\<lparr>bindIn := fs, bindMore := b\<rparr>" by blast
qed

lemma same_but_input_refl [simp]: "same_but_input s s"
  unfolding same_but_input_def by (rule exI [of _ "bindIn s"], rule exI [of _ "bindMore s"]) simp

lemma same_but_inputD:
  assumes "same_but_input s s1"
  shows "threadPool s1 = threadPool s" "m_mapClients s1 = m_mapClients s" "m_setManagerCache s1 = m_setManagerCache s"
    "bindOut s1 = bindOut s" "m_timerKA s1 = m_timerKA s" "m_bUpdManagerCache s1 = m_bUpdManagerCache s"
  using assms by (auto simp: same_but_input_def)

lemma recv_bind_same: "recv_bind s = Inr (d, s1) \<Longrightarrow> same_but_input s s1"
  unfolding recv_bind_Inr same_but_input_def by blast

lemma recvPodObject_same: "recvPodObject s = Inr (x, s1) \<Longrightarrow> same_but_input s s1"
  by (auto simp: recvPodObject_def rbind_Inr split: if_splits dest: recv_bind_same)

lemma recvVecObject_same: "recvVecObject t s = Inr (x, s1) \<Longrightarrow> same_but_input s s1"
  unfolding recvVecObject_def rbind_Inr same_but_input_def by (auto simp del: DispatcherService.update_convs)

lemma recvFilters_same: "recvFilters s = Inr (x, s1) \<Longrightarrow> same_but_input s s1"
  unfolding recvFilters_def rbind_Inr same_but_input_def by (auto simp del: DispatcherService.update_convs)

lemma skipRemainMFrame_same: "skipRemainMFrame s = Inr s1 \<Longrightarrow> same_but_input s s1"
  unfolding skipRemainMFrame_def rbind_Inr same_but_input_def by (auto simp del: DispatcherService.update_convs)

lemma recv_reqid_same: "recv_reqid s = Inr (x, s1) \<Longrightarrow> same_but_input s s1"
  by (auto simp: recv_reqid_def split: if_splits dest: recvPodObject_same)

lemma recv_reqid_unchecked_same: "recv_reqid_unchecked s = Inr (x, s1) \<Longrightarrow> same_but_input s s1"
  by (auto simp: recv_reqid_unchecked_def rbind_Inr split: if_splits dest: recv_bind_same)

lemmas recv_same = recv_bind_same recvPodObject_same recvVecObject_same recvFilters_same
  skipRemainMFrame_same recv_reqid_same recv_reqid_unchecked_same

lemma send_response_frame [simp]:
  "threadPool (send_response r x s) = threadPool s" "m_mapClients (send_response r x s) = m_mapClients s"
  "m_setManagerCache (send_response r x s) = m_setManagerCache s" "m_timerKA (send_response r x s) = m_timerKA s"
  "bindOut (send_response r x s) = bindOut s @ multipart [r, enc_i32 (pattern_code TPassiveResponse), enc_rsp x]"
  by (simp_all add: send_response_def innerSendMsg_def)

lemma set_client_frame [simp]:
  "threadPool (set_client i c s) = threadPool s" "m_setManagerCache (set_client i c s) = m_setManagerCache s"
  "bindOut (set_client i c s) = bindOut s" "m_timerKA (set_client i c s) = m_timerKA s"
  "bindIn (set_client i c s) = bindIn s" "bindMore (set_client i c s) = bindMore s"
  "map_of (m_mapClients (set_client i c s)) = (map_of (m_mapClients s))(i \<mapsto> c)"
  by (simp_all add: set_client_def update_conv')

lemma submit_frame [simp]:
  "threadPool (submit t s) = threadPool s @ [t]" "m_mapClients (submit t s) = m_mapClients s"
  "m_setManagerCache (submit t s) = m_setManagerCache s" "bindOut (submit t s) = bindOut s"
  "bindIn (submit t s) = bindIn s" "bindMore (submit t s) = bindMore s" "m_timerKA (submit t s) = m_timerKA s"
  by (simp_all add: submit_def)

section \<open>Sessions: the abstract view of the clients\<close>

text \<open>Which identity is logged in from which peer.\<close>

type_synonym sessions = "bytes \<rightharpoonup> bytes"

definition session_of :: "DispatcherClient option \<Rightarrow> bytes option" where
  "session_of x = (case x of Some c \<Rightarrow> (if m_bLogin c then Some (m_strRouter c) else None) | None \<Rightarrow> None)"

definition sessions :: "DispatcherService \<Rightarrow> sessions" where
  "sessions s = (\<lambda>i. session_of (map_of (m_mapClients s) i))"

text \<open>What a request of peer \<open>r\<close> under identity \<open>i\<close> promises to do to the sessions.\<close>

definition session_spec :: "bool \<Rightarrow> bytes \<Rightarrow> bytes \<Rightarrow> i32 \<Rightarrow> sessions \<Rightarrow> sessions" where
  "session_spec known r i cmd \<sigma> =
     (if \<not> known then \<sigma>
      else case \<sigma> i of
        None \<Rightarrow> (if cmd = cmd_code TLogin then \<sigma>(i \<mapsto> r) else \<sigma>)
      | Some r' \<Rightarrow> (if r' = r \<and> cmd = cmd_code TLogout then \<sigma>(i := None) else \<sigma>))"

fun task_client :: "task \<Rightarrow> bytes" where
  "task_client (TaskQryBySql i _ _ _) = i" | "task_client (TaskDelBySql i _ _ _) = i"
| "task_client (TaskInsByObjects i _ _ _) = i" | "task_client (TaskDelByObjects i _ _ _) = i"
| "task_client (TaskUpdByObjects i _ _ _) = i"

text \<open>A task on behalf of an identity; the objects it carries are well-formed and of the class it names.\<close>

fun task_ok :: "task \<Rightarrow> bool" where
  "task_ok (TaskInsByObjects _ t xs _) = list_all (\<lambda>x. elem_ok x \<and> elem_type x = t) xs"
| "task_ok (TaskDelByObjects _ t xs _) = list_all (\<lambda>x. elem_ok x \<and> elem_type x = t) xs"
| "task_ok (TaskUpdByObjects _ t xs _) = list_all (\<lambda>x. elem_ok x \<and> elem_type x = t) xs"
| "task_ok _ = True"

definition task_for :: "bytes \<Rightarrow> task \<Rightarrow> bool" where
  "task_for i t \<longleftrightarrow> task_client t = i \<and> task_ok t"

lemma task_for_simps [simp]:
  "task_for i (TaskQryBySql j q t r) \<longleftrightarrow> i = j" "task_for i (TaskDelBySql j q t r) \<longleftrightarrow> i = j"
  "task_for i (TaskInsByObjects j t xs r) \<longleftrightarrow> i = j \<and> list_all (\<lambda>x. elem_ok x \<and> elem_type x = t) xs"
  "task_for i (TaskDelByObjects j t xs r) \<longleftrightarrow> i = j \<and> list_all (\<lambda>x. elem_ok x \<and> elem_type x = t) xs"
  "task_for i (TaskUpdByObjects j t xs r) \<longleftrightarrow> i = j \<and> list_all (\<lambda>x. elem_ok x \<and> elem_type x = t) xs"
  by (auto simp: task_for_def)

lemma elem_ok_dec: "elem_size t \<le> length d \<Longrightarrow> elem_ok (dec_elem t d)"
  by (cases t) (simp_all add: arr_def)

lemma vec_objects_ok:
  "vec_objects t b fs = Inr (xs, rest) \<Longrightarrow> list_all (\<lambda>x. elem_ok x \<and> elem_type x = t) xs"
  by (induction t b fs arbitrary: xs rest rule: vec_objects.induct)
    (auto simp: rbind_Inr elem_ok_dec split: if_splits)

lemma recvVecObject_ok:
  "recvVecObject t s = Inr (xs, s1) \<Longrightarrow> list_all (\<lambda>x. elem_ok x \<and> elem_type x = t) xs"
  by (auto simp: recvVecObject_def rbind_Inr dest: vec_objects_ok)

lemma sessions_cong: "m_mapClients s1 = m_mapClients s \<Longrightarrow> sessions s1 = sessions s"
  by (simp add: sessions_def)

lemma same_but_input_sessions: "same_but_input s s1 \<Longrightarrow> sessions s1 = sessions s"
  by (rule sessions_cong) (rule same_but_inputD)

lemma sessions_set_client: "sessions (set_client i c s) = (sessions s)(i := session_of (Some c))"
  by (auto simp: sessions_def)

lemma recv_filter_cmd_effect:
  assumes "recv_filter_cmd verb mk s = Inr s1" and "\<And>q t r. task_for i (mk q t r)"
  shows "m_mapClients s1 = m_mapClients s \<and> m_setManagerCache s1 = m_setManagerCache s \<and> bindOut s1 = bindOut s \<and>
    (threadPool s1 = threadPool s \<or> (\<exists>t. threadPool s1 = threadPool s @ [t] \<and> task_for i t))"
  using assms
  by (auto simp: recv_filter_cmd_def rbind_Inr same_but_inputD dest!: recv_same split: option.splits)

lemma recv_objects_cmd_effect:
  assumes "recv_objects_cmd act s = Inr s1"
    and "\<And>t xs r z. list_all (\<lambda>x. elem_ok x \<and> elem_type x = t) xs \<Longrightarrow>
      m_mapClients (act t xs r z) = m_mapClients z \<and> m_setManagerCache (act t xs r z) = m_setManagerCache z \<and>
      bindOut (act t xs r z) = bindOut z \<and> (\<exists>k. threadPool (act t xs r z) = threadPool z @ [k] \<and> task_for i k)"
  shows "m_mapClients s1 = m_mapClients s \<and> m_setManagerCache s1 = m_setManagerCache s \<and> bindOut s1 = bindOut s \<and>
    (threadPool s1 = threadPool s \<or> (\<exists>t. threadPool s1 = threadPool s @ [t] \<and> task_for i t))"
  using assms(1) 
proof (cases "\<exists>reqid z1 ety z2. recvPodObject s = Inr (reqid, z1) \<and> recvPodObject z1 = Inr (ety, z2)")
  case True
  then obtain reqid z1 ety z2 where z: "recvPodObject s = Inr (reqid, z1)" "recvPodObject z1 = Inr (ety, z2)" by blast
  have same: "same_but_input s z2" using z by (blast intro: same_but_input_trans recvPodObject_same)
  show ?thesis
  proof (cases "ele_of ety")
    case None
    then have "skipRemainMFrame z2 = Inr s1" using assms(1) z by (simp add: recv_objects_cmd_def)
    then show ?thesis using same skipRemainMFrame_same same_but_input_trans same_but_inputD by metis
  next
    case (Some t)
    then obtain xs z3 where z3: "recvVecObject t z2 = Inr (xs, z3)" "s1 = act t xs reqid z3"
      using assms(1) z by (auto simp: recv_objects_cmd_def rbind_Inr)
    have "same_but_input s z3" using same z3(1) by (blast intro: same_but_input_trans recvVecObject_same)
    then show ?thesis using assms(2) [OF recvVecObject_ok [OF z3(1)], of reqid z3] z3(2) by (simp add: same_but_inputD)
  qed
qed (use assms(1) in \<open>auto simp: recv_objects_cmd_def rbind_Inr\<close>)

text \<open>One handled command: its effect on the sessions and the thread pool.\<close>

lemma response_Inr: "length u = 64 \<Longrightarrow> length msg < 64 \<Longrightarrow> \<exists>x. response u e msg q c = Inr x"
  using length_cstr_le [of "lit msg"] by (simp add: response_def strcpy_fits)

lemma onReqLogin_effect:
  assumes "onReqLogin u i c s = Inr s1" and "map_of (m_mapClients s) i = Some c"
  shows "threadPool s1 = threadPool s" "m_setManagerCache s1 = m_setManagerCache s"
    "sessions s1 = (sessions s)(i \<mapsto> m_strRouter c)"
  using assms
  by (auto simp: onReqLogin_def rbind_Inr sessions_def session_of_def fun_eq_iff same_but_inputD split: if_splits
      dest!: recv_same)

lemma onReqLogout_effect:
  assumes "onReqLogout u i c s = Inr s1"
  shows "threadPool s1 = threadPool s" "m_setManagerCache s1 = m_setManagerCache s"
    "sessions s1 = (sessions s)(i := None)"
  using assms
  by (auto simp: onReqLogout_def rbind_Inr sessions_def session_of_def fun_eq_iff same_but_inputD dest!: recv_same)

lemma onKeepAlive_effect:
  assumes "map_of (m_mapClients s) i = Some c"
  shows "threadPool (onKeepAlive n i c s) = threadPool s"
    "sessions (onKeepAlive n i c s) = sessions s"
  using assms by (auto simp: onKeepAlive_def sessions_def session_of_def fun_eq_iff)

lemma onRecvCmd_data_effect:
  assumes "onRecvCmd n u cmd i c s = Inr s1"
    and "cmd \<noteq> cmd_code TLogin" "cmd \<noteq> cmd_code TLogout" "cmd \<noteq> cmd_code TKeepAlive"
  shows "m_mapClients s1 = m_mapClients s"
    "threadPool s1 = threadPool s \<or> (\<exists>t. threadPool s1 = threadPool s @ [t] \<and> task_for i t)"
proof -
  have skip: "skipRemainMFrame s = Inr s1 \<Longrightarrow>
      m_mapClients s1 = m_mapClients s \<and> (threadPool s1 = threadPool s \<or> (\<exists>t. threadPool s1 = threadPool s @ [t] \<and> task_for i t))"
    by (auto simp: same_but_inputD dest!: recv_same)
  have "m_mapClients s1 = m_mapClients s \<and>
    (threadPool s1 = threadPool s \<or> (\<exists>t. threadPool s1 = threadPool s @ [t] \<and> task_for i t))"
  proof (cases "cmd_of cmd")
    case None
    then show ?thesis using assms(1) skip by (simp add: onRecvCmd_def)
  next
    case (Some k)
    have k: "cmd = cmd_code k" using Some by (rule cmd_of_Some)
    show ?thesis
    proof (cases k)
      case TQuery
      then have "recv_filter_cmd ''select * from '' (TaskQryBySql i) s = Inr s1" using assms(1) Some by (simp add: onRecvCmd_def)
      from recv_filter_cmd_effect [OF this, of i] show ?thesis by auto
    next
      case TDelByCol
      then have "recv_filter_cmd ''delete from '' (TaskDelBySql i) s = Inr s1" using assms(1) Some by (simp add: onRecvCmd_def)
      from recv_filter_cmd_effect [OF this, of i] show ?thesis by auto
    next
      case TInsert
      then have "recv_objects_cmd (\<lambda>t objVec reqid s1. submit (TaskInsByObjects i t objVec reqid)
          (if t = TManageUser then s1\<lparr>m_bUpdManagerCache := True\<rparr> else s1)) s = Inr s1"
        using assms(1) Some by (simp add: onRecvCmd_def)
      from recv_objects_cmd_effect [OF this, of i] show ?thesis by auto
    next
      case TDelete
      then have "recv_objects_cmd (\<lambda>t objVec reqid. submit (TaskDelByObjects i t objVec reqid)) s = Inr s1"
        using assms(1) Some by (simp add: onRecvCmd_def)
      from recv_objects_cmd_effect [OF this, of i] show ?thesis by auto
    next
      case TUpdate
      then have "recv_objects_cmd (\<lambda>t objVec reqid. submit (TaskUpdByObjects i t objVec reqid)) s = Inr s1"
        using assms(1) Some by (simp add: onRecvCmd_def)
      from recv_objects_cmd_effect [OF this, of i] show ?thesis by auto
    qed (use assms k Some skip in \<open>simp_all add: onRecvCmd_def\<close>)
  qed
  then show "m_mapClients s1 = m_mapClients s"
    "threadPool s1 = threadPool s \<or> (\<exists>t. threadPool s1 = threadPool s @ [t] \<and> task_for i t)" by blast+
qed

lemma onRecvCmd_sessions:
  assumes "onRecvCmd n u cmd i c s = Inr s1" and "map_of (m_mapClients s) i = Some c"
    and "m_bLogin c \<or> cmd = cmd_code TLogin \<or> cmd = cmd_code TKeepAlive"
  shows "sessions s1 = session_spec True (m_strRouter c) i cmd (sessions s)"
    "threadPool s1 = threadPool s \<or>
     (m_bLogin c \<and> (\<exists>t. threadPool s1 = threadPool s @ [t] \<and> task_for i t))"
proof -
  have ses: "sessions s i = (if m_bLogin c then Some (m_strRouter c) else None)"
    using assms(2) by (simp add: sessions_def session_of_def)
  consider "cmd = cmd_code TLogin" | "cmd = cmd_code TLogout" | "cmd = cmd_code TKeepAlive"
    | "cmd \<noteq> cmd_code TLogin" "cmd \<noteq> cmd_code TLogout" "cmd \<noteq> cmd_code TKeepAlive" by blast
  then have "sessions s1 = session_spec True (m_strRouter c) i cmd (sessions s) \<and>
    (threadPool s1 = threadPool s \<or> (m_bLogin c \<and> (\<exists>t. threadPool s1 = threadPool s @ [t] \<and> task_for i t)))"
  proof cases
    case 1
    then have "onReqLogin u i c s = Inr s1" using assms(1) by (simp add: onRecvCmd_def del: cmd_code.simps)
    from onReqLogin_effect [OF this assms(2)] 1 ses show ?thesis by (auto simp: session_spec_def)
  next
    case 2
    then have "onReqLogout u i c s = Inr s1" using assms(1) by (simp add: onRecvCmd_def del: cmd_code.simps)
    from onReqLogout_effect [OF this] 2 ses assms(3) show ?thesis by (auto simp: session_spec_def)
  next
    case 3
    then have "s1 = onKeepAlive n i c s" using assms(1) by (simp add: onRecvCmd_def del: cmd_code.simps)
    with onKeepAlive_effect [OF assms(2)] 3 ses show ?thesis by (auto simp: session_spec_def)
  next
    case 4
    note eff = onRecvCmd_data_effect [OF assms(1) 4]
    have "sessions s1 = sessions s" using eff(1) by (rule sessions_cong)
    moreover have "session_spec True (m_strRouter c) i cmd (sessions s) = sessions s"
      using 4 by (simp add: session_spec_def split: option.split)
    ultimately show ?thesis using eff(2) 4 assms(3) by simp
  qed
  then show "sessions s1 = session_spec True (m_strRouter c) i cmd (sessions s)"
    "threadPool s1 = threadPool s \<or>
     (m_bLogin c \<and> (\<exists>t. threadPool s1 = threadPool s @ [t] \<and> task_for i t))" by blast+
qed

lemma find_client_effect:
  assumes "find_client n i s = (c, s1)"
  shows "map_of (m_mapClients s1) i = Some c" "threadPool s1 = threadPool s" "sessions s1 = sessions s"
    "session_of (Some c) = sessions s i" "bindIn s1 = bindIn s" "bindMore s1 = bindMore s" "bindOut s1 = bindOut s"
proof -
  show "sessions s1 = sessions s" "session_of (Some c) = sessions s i"
    using assms sessions_set_client [of i c s]
    by (auto simp: find_client_def Let_def sessions_def session_of_def new_DispatcherClient_def split: option.splits)
qed (use assms in \<open>auto simp: find_client_def Let_def split: option.splits\<close>)

lemma reject_effect:
  assumes "reject u e msg cmd r (q, s) = Inr s1"
  shows "threadPool s1 = threadPool s" "sessions s1 = sessions s"
  using assms by (auto simp: reject_def rbind_Inr sessions_def)

lemma dispatch_sessions:
  assumes "dispatch T u r i cmd s = Inr s1"
  shows "sessions s1 = session_spec (identifyUser i s) r i cmd (sessions s) \<and>
    (threadPool s1 = threadPool s \<or>
     (identifyUser i s \<and> sessions s i = Some r \<and> (\<exists>t. threadPool s1 = threadPool s @ [t] \<and> task_for i t)))"
proof (cases "identifyUser i s")
  case False
  then obtain q z where z: "recv_reqid_unchecked s = Inr (q, z)" "reject u TIdentifyErr ''Identify Error'' cmd r (q, z) = Inr s1"
    using assms by (auto simp: dispatch_def rbind_Inr)
  have "same_but_input s z" using z(1) by (rule recv_reqid_unchecked_same)
  then have "sessions z = sessions s" "threadPool z = threadPool s"
    by (rule same_but_input_sessions, rule same_but_inputD)
  with reject_effect [OF z(2)] False show ?thesis by (simp add: session_spec_def)
next
  case True
  obtain c z where c: "find_client (t_client T) i s = (c, z)" by (cases "find_client (t_client T) i s")
  note fc = find_client_effect [OF c]
  have rej: "rbind (recv_reqid z) (reject u e msg cmd r) = Inr s1 \<Longrightarrow> sessions s1 = sessions s \<and> threadPool s1 = threadPool s" for e msg
  proof -
    assume "rbind (recv_reqid z) (reject u e msg cmd r) = Inr s1"
    then obtain q w where w: "recv_reqid z = Inr (q, w)" "reject u e msg cmd r (q, w) = Inr s1" by (auto simp: rbind_Inr)
    have "same_but_input z w" using w(1) by (rule recv_reqid_same)
    then have "sessions w = sessions z" "threadPool w = threadPool z"
      by (rule same_but_input_sessions, rule same_but_inputD)
    with reject_effect [OF w(2)] fc(2,3) show ?thesis by simp
  qed
  let ?c1 = "c\<lparr>m_strRouter := r, m_tLastRead := t_read T\<rparr>"
  consider "\<not> m_bLogin c" "cmd \<noteq> cmd_code TLogin" "cmd \<noteq> cmd_code TKeepAlive" | "m_bLogin c" "m_strRouter c \<noteq> r"
    | "m_bLogin c \<longrightarrow> m_strRouter c = r" "m_bLogin c \<or> cmd = cmd_code TLogin \<or> cmd = cmd_code TKeepAlive" by blast
  then show ?thesis
  proof cases
    case 1
    then have "rbind (recv_reqid z) (reject u TNoLogin ''No-Login Error'' cmd r) = Inr s1"
      using assms True c by (simp add: dispatch_def del: cmd_code.simps)
    from rej [OF this] 1 fc(4) True show ?thesis
      by (simp add: session_spec_def session_of_def del: cmd_code.simps split: option.splits)
  next
    case 2
    then have "rbind (recv_reqid z) (reject u TMultiLogin ''Multi-Login Error'' cmd r) = Inr s1"
      using assms True c by (simp add: dispatch_def del: cmd_code.simps)
    from rej [OF this] 2 fc(4) True show ?thesis
      by (auto simp: session_spec_def session_of_def split: option.splits)
  next
    case 3
    then have run: "onRecvCmd (t_keep T) u cmd i ?c1 (set_client i ?c1 z) = Inr s1"
      using assms True c by (auto simp: dispatch_def Let_def simp del: cmd_code.simps split: if_splits)
    have ses: "sessions (set_client i ?c1 z) = sessions s"
      using 3(1) fc(3,4) by (auto simp: sessions_set_client session_of_def fun_upd_idem_iff)
    have "sessions s i = (if m_bLogin c then Some r else None)"
      using 3(1) fc(4) by (auto simp: session_of_def)
    moreover note onRecvCmd_sessions [OF run, unfolded ses]
    ultimately show ?thesis using 3(2) True fc(2) by (auto simp del: cmd_code.simps)
  qed
qed

lemma recv_request_sessions:
  assumes "bindIn s = (r, b1) # (i, b2) # (d, b3) # fs" and "recv_request T u s = Inr s1"
  shows "sessions s1 = session_spec (identifyUser i s) r i (dec_i32 d) (sessions s) \<and>
    (threadPool s1 = threadPool s \<or>
     (identifyUser i s \<and> sessions s i = Some r \<and> (\<exists>t. threadPool s1 = threadPool s @ [t] \<and> task_for i t)))"
proof -
  let ?z = "s\<lparr>bindIn := fs, bindMore := b3\<rparr>"
  obtain w where w: "dispatch T u r i (dec_i32 d) ?z = Inr w" "skipRemainMFrame w = Inr s1"
    using assms by (auto simp: recv_request_def recv_bind_def rbind_Inr split: if_splits)
  have "same_but_input w s1" using w(2) by (rule skipRemainMFrame_same)
  then have "sessions s1 = sessions w" "threadPool s1 = threadPool w"
    by (rule same_but_input_sessions, rule same_but_inputD)
  moreover have "sessions ?z = sessions s" "identifyUser i ?z = identifyUser i s" by (simp_all add: sessions_def identifyUser_def)
  ultimately show ?thesis using dispatch_sessions [OF w(1)] by simp
qed

text \<open>C7: Refinement of the session contract: whatever a peer \<open>r\<close> sends under an identity \<open>i\<close>, a handled
  request changes the sessions exactly as specified. Only a login of a known user who has no session
  opens one, only a logout from the peer of the session closes it, and every other identity keeps its
  session.\<close>

theorem service_refines_sessions:
  assumes "bindIn s = (r, b1) # (i, b2) # (d, b3) # fs" and "recv_request T u s = Inr s1"
  shows "sessions s1 = session_spec (i \<in> m_setManagerCache s) r i (dec_i32 d) (sessions s)"
  using recv_request_sessions [OF assms] by (simp add: identifyUser_def)

text \<open>C9: Access control: a request that makes the service submit work to the thread pool comes from a
  known user, under an identity that is logged in from the very peer that sent the request; it submits
  exactly one task, on behalf of that identity and with well-formed objects.\<close>

theorem tasks_need_session:
  assumes "bindIn s = (r, b1) # (i, b2) # (d, b3) # fs" and "recv_request T u s = Inr s1"
    and "threadPool s1 \<noteq> threadPool s"
  shows "i \<in> m_setManagerCache s \<and> sessions s i = Some r \<and>
    (\<exists>t. threadPool s1 = threadPool s @ [t] \<and> task_for i t)"
  using recv_request_sessions [OF assms(1,2)] assms(3) by (auto simp: identifyUser_def)

section \<open>A demonstration state\<close>

definition demo_times :: poll_times where
  "demo_times = \<lparr>t_check = 0, t_ka = 0, t_write = 0, t_recount = 0, t_client = 0, t_read = 0, t_keep = 0\<rparr>"

text \<open>The known user \<open>[65]\<close>, with or without a session from the peer \<open>[1]\<close>.\<close>

definition demo_service :: "bool \<Rightarrow> DispatcherService" where
  "demo_service b = (new_DispatcherService 0 0 5555)\<lparr>m_setManagerCache := {[65]},
     m_mapClients := [([65], (new_DispatcherClient 0)\<lparr>m_strRouter := [1], m_strIdentify := [65], m_bLogin := b\<rparr>)]\<rparr>"

definition zeros :: bytes where "zeros = replicate 64 0"

theorem service_refines_sessions_witness:
  "\<exists>s1. recv_request demo_times zeros (demo_service False\<lparr>bindIn := multipart [[2], [65], enc_i32 1, enc_i32 7]\<rparr>) = Inr s1 \<and>
     sessions s1 = [[65] \<mapsto> [2]]"
proof -
  let ?s = "demo_service False\<lparr>bindIn := multipart [[2], [65], enc_i32 1, enc_i32 7]\<rparr>"
  have b: "bindIn ?s = ([2], True) # ([65], True) # (enc_i32 1, True) # [(enc_i32 7, False)]" by simp
  have "isl (recv_request demo_times zeros ?s) = False" by code_simp
  then obtain s1 where s1: "recv_request demo_times zeros ?s = Inr s1" by (cases "recv_request demo_times zeros ?s") auto
  have "sessions ?s = Map.empty"
    by (simp add: sessions_def session_of_def demo_service_def new_DispatcherClient_def fun_eq_iff)
  then have "sessions s1 = [[65] \<mapsto> [2]]"
    using service_refines_sessions [OF b s1] by (simp add: session_spec_def demo_service_def)
  with s1 show ?thesis by blast
qed

theorem tasks_need_session_witness:
  "\<exists>s1. recv_request demo_times zeros (demo_service True\<lparr>bindIn := multipart [[1], [65], enc_i32 4, enc_i32 7, enc_i32 0]\<rparr>) = Inr s1 \<and>
     threadPool s1 \<noteq> [] \<and> sessions (demo_service True) [65] = Some [1]"
proof -
  let ?s = "demo_service True\<lparr>bindIn := multipart [[1], [65], enc_i32 4, enc_i32 7, enc_i32 0]\<rparr>"
  have b: "bindIn ?s = ([1], True) # ([65], True) # (enc_i32 4, True) # [(enc_i32 7, True), (enc_i32 0, False)]" by simp
  have "case_sum (\<lambda>_. False) (\<lambda>s1. threadPool s1 \<noteq> []) (recv_request demo_times zeros ?s)" by code_simp
  then obtain s1 where s1: "recv_request demo_times zeros ?s = Inr s1" "threadPool s1 \<noteq> []"
    by (cases "recv_request demo_times zeros ?s") auto
  have "threadPool ?s = []" by (simp add: demo_service_def new_DispatcherService_def)
  then have "threadPool s1 \<noteq> threadPool ?s" using s1 by simp
  from tasks_need_session [OF b s1(1) this] s1 show ?thesis by (auto simp: sessions_def)
qed

section \<open>The keep-alive timer\<close>

definition idle_client :: "int \<Rightarrow> DispatcherClient \<Rightarrow> bool" where
  "idle_client tnow c \<longleftrightarrow> m_tLastRead c + one_minute < tnow"

definition after_ka :: "int \<Rightarrow> int \<Rightarrow> DispatcherClient \<Rightarrow> DispatcherClient" where
  "after_ka tnow w c = (if idle_client tnow c then c\<lparr>m_bLogin := False\<rparr> else c\<lparr>m_tLastWrite := w\<rparr>)"

definition ka_push :: "int \<Rightarrow> DispatcherClient \<Rightarrow> frame list" where
  "ka_push tnow c = (if idle_client tnow c then []
     else multipart [m_strRouter c, enc_i32 (pattern_code TActivePush), enc_i32 (cmd_code TKeepAlive)])"

lemma update_middle: "k \<notin> fst ` set pre \<Longrightarrow> AList.update k v (pre @ (k, c) # post) = pre @ (k, v) # post"
  by (induction pre) auto

lemma keepalive_client_middle:
  assumes "m_mapClients s = pre @ (i, c) # post" "i \<notin> fst ` set pre"
  shows "keepalive_client tnow w (i, c) s =
    s\<lparr>m_mapClients := pre @ (i, after_ka tnow w c) # post, bindOut := bindOut s @ ka_push tnow c\<rparr>"
  using assms
  by (simp add: keepalive_client_def set_client_def update_middle after_ka_def ka_push_def idle_client_def innerSendMsg_def)

lemma fold_keepalive:
  assumes "m_mapClients s = pre @ xs" "distinct (map fst (pre @ xs))"
  shows "fold (keepalive_client tnow w) xs s =
    s\<lparr>m_mapClients := pre @ map (\<lambda>(i, c). (i, after_ka tnow w c)) xs,
       bindOut := bindOut s @ concat (map (\<lambda>(i, c). ka_push tnow c) xs)\<rparr>"
  using assms
proof (induction xs arbitrary: pre s)
  case (Cons x xs)
  obtain i c where x: "x = (i, c)" by (cases x)
  let ?s1 = "s\<lparr>m_mapClients := pre @ (i, after_ka tnow w c) # xs, bindOut := bindOut s @ ka_push tnow c\<rparr>"
  have s1: "keepalive_client tnow w x s = ?s1"
    unfolding x by (rule keepalive_client_middle) (use Cons.prems x in auto)
  have "fold (keepalive_client tnow w) xs ?s1 =
    ?s1\<lparr>m_mapClients := (pre @ [(i, after_ka tnow w c)]) @ map (\<lambda>(i, c). (i, after_ka tnow w c)) xs,
       bindOut := bindOut ?s1 @ concat (map (\<lambda>(i, c). ka_push tnow c) xs)\<rparr>"
    by (rule Cons.IH) (use Cons.prems x in auto)
  then show ?case using s1 x by simp
qed simp

lemma katimeHandle_eq:
  assumes "distinct (map fst (m_mapClients s))"
  shows "katimeHandle tnow w s = s\<lparr>m_mapClients := map (\<lambda>(i, c). (i, after_ka tnow w c)) (m_mapClients s),
       bindOut := bindOut s @ concat (map (\<lambda>(i, c). ka_push tnow c) (m_mapClients s))\<rparr>"
  unfolding katimeHandle_def using fold_keepalive [of s "[]" "m_mapClients s"] assms by simp

lemma map_of_after_ka: "map_of (map (\<lambda>(i, c). (i, after_ka tnow w c)) xs) i = map_option (after_ka tnow w) (map_of xs i)"
  by (induction xs) auto

lemma session_of_after_ka:
  "session_of (map_option (after_ka tnow w) x) = (case x of Some c \<Rightarrow> if idle_client tnow c then None else session_of x | None \<Rightarrow> None)"
  by (auto simp: session_of_def after_ka_def split: option.split)

text \<open>C23: The keep-alive timer: a session whose peer was silent for more than a minute ends, every other
  client gets exactly one keep-alive push addressed to its peer and keeps its session, and no client is
  added or removed.\<close>

theorem katimeHandle_effect:
  assumes "distinct (map fst (m_mapClients s))"
  shows "sessions (katimeHandle tnow w s) =
      (\<lambda>i. case map_of (m_mapClients s) i of Some c \<Rightarrow> if idle_client tnow c then None else sessions s i | None \<Rightarrow> None) \<and>
    bindOut (katimeHandle tnow w s) = bindOut s @ concat (map (\<lambda>(i, c). ka_push tnow c) (m_mapClients s)) \<and>
    map fst (m_mapClients (katimeHandle tnow w s)) = map fst (m_mapClients s)"
proof (intro conjI ext)
  fix i
  show "sessions (katimeHandle tnow w s) i =
      (case map_of (m_mapClients s) i of Some c \<Rightarrow> if idle_client tnow c then None else sessions s i | None \<Rightarrow> None)"
    by (simp add: katimeHandle_eq [OF assms] sessions_def map_of_after_ka session_of_after_ka split: option.split)
qed (simp_all add: katimeHandle_eq [OF assms] case_prod_unfold comp_def)

theorem katimeHandle_effect_witness:
  "sessions (katimeHandle (one_minute + 1) 5 (demo_service True)) [65] = None \<and>
   sessions (katimeHandle one_minute 5 (demo_service True)) [65] = Some [1]"
proof -
  have d: "distinct (map fst (m_mapClients (demo_service True)))" by (simp add: demo_service_def)
  show ?thesis
    using katimeHandle_effect [OF d, of "one_minute + 1" 5] katimeHandle_effect [OF d, of one_minute 5]
    by (simp add: demo_service_def new_DispatcherClient_def idle_client_def sessions_def session_of_def)
qed

section \<open>The statement buffer\<close>

lemma table_name_code: "table_name (ele_code t) = Inr (AllTableNames ! nat (sint (ele_code t)))"
  by (cases t) (simp_all add: table_name_def AllTableNames_def)

lemma table_name_short: "table_name e = Inr n \<Longrightarrow> length n \<le> 14"
  unfolding table_name_def Let_def
  by (auto simp: AllTableNames_def nth_Cons' split: if_splits)

lemma table_name_known: "(\<exists>n. table_name e = Inr n) \<longleftrightarrow> ele_of e \<noteq> None"
proof
  assume "ele_of e \<noteq> None"
  then obtain t where "e = ele_code t" using ele_of_Some by blast
  then show "\<exists>n. table_name e = Inr n" by (simp add: table_name_code)
next
  have val: "sint e = k \<Longrightarrow> e = of_int k" for k by (drule sym) simp
  assume "\<exists>n. table_name e = Inr n"
  then have "0 \<le> sint e" "sint e < 5" by (auto simp: table_name_def AllTableNames_def Let_def split: if_splits)
  then have "sint e = 0 \<or> sint e = 1 \<or> sint e = 2 \<or> sint e = 3 \<or> sint e = 4" by linarith
  then have "e = 0 \<or> e = 1 \<or> e = 2 \<or> e = 3 \<or> e = 4"
    by (elim disjE) (drule val, simp)+
  then show "ele_of e \<noteq> None" by (auto simp: ele_of_def all_elements_def)
qed

lemma filters_sql_fits:
  "filters_sql fs = (if \<forall>f\<in>set fs. length (filter_text f) < 64 then Inr (concat (map filter_text fs)) else Inl OutOfBounds)"
  by (induction fs) (auto simp: sprintf_fits_def)

definition sql_text :: "string \<Rightarrow> i32 \<Rightarrow> ColumnFilter list \<Rightarrow> bytes" where
  "sql_text verb e fs =
     lit verb @ lit (AllTableNames ! nat (sint e)) @ lit '' where 1=1'' @ concat (map filter_text fs) @ lit '';''"

definition sql_fits :: "i32 \<Rightarrow> ColumnFilter list \<Rightarrow> bool" where
  "sql_fits e fs \<longleftrightarrow>
     ele_of e \<noteq> None \<and> list_all (\<lambda>f. length (cstr (ColName f)) + length (cstr (ColVal f)) \<le> 55) fs"

lemma filter_text_fits: "length (filter_text f) < 64 \<longleftrightarrow> length (cstr (ColName f)) + length (cstr (ColVal f)) \<le> 55"
  by (auto simp: filter_text_def)

lemma build_sql_eq:
  assumes "length verb \<le> 14"
  shows "build_sql verb e fs = (if sql_fits e fs then Inr (sql_text verb e fs) else Inl OutOfBounds)"
proof (cases "table_name e")
  case (Inl x)
  then have "x = OutOfBounds" by (auto simp: table_name_def Let_def split: if_splits)
  with Inl table_name_known [of e] show ?thesis by (auto simp: build_sql_def sql_fits_def)
next
  case (Inr n)
  have n: "n = AllTableNames ! nat (sint e)" using Inr by (auto simp: table_name_def Let_def split: if_splits)
  have "length n \<le> 14" using Inr by (rule table_name_short)
  then show ?thesis using Inr table_name_known [of e] n assms
    by (auto simp: build_sql_def sql_fits_def sql_text_def sprintf_fits_def filters_sql_fits list_all_iff filter_text_fits)
qed

text \<open>C34: Bounds of the statement buffer: the text of a query or of a deletion by columns is built inside
  its 64-byte buffer exactly when the element type of the request names a table and every filter has at
  most 55 characters in name and value together; then the text is the concatenation of its parts. In
  every other case the service writes or reads outside an array.\<close>

theorem build_sql_bounds:
  "build_sql ''select * from '' e fs = (if sql_fits e fs then Inr (sql_text ''select * from '' e fs) else Inl OutOfBounds) \<and>
   build_sql ''delete from '' e fs = (if sql_fits e fs then Inr (sql_text ''delete from '' e fs) else Inl OutOfBounds)"
  by (simp add: build_sql_eq)

section \<open>The service as a transition system\<close>

inductive svc_init :: "DispatcherService \<Rightarrow> bool" where
  "svc_init (new_DispatcherService t0 t1 port)"

text \<open>A round of the poll thread, a task run by a worker, and a message of a peer \<open>r\<close>.\<close>

inductive svc_step :: "sqlite3 \<Rightarrow> DispatcherService \<Rightarrow> DispatcherService \<Rightarrow> bool" for E where
  poll: "pollFunc E fuel T u s = Inr s1 \<Longrightarrow> svc_step E s s1"
| work: "svc_worker E fuel k rid s = Inr s1 \<Longrightarrow> svc_step E s s1"
| arrive: "svc_step E s (s\<lparr>bindIn := bindIn s @ multipart (r # ds)\<rparr>)"

definition svc_wf :: "DispatcherService \<Rightarrow> bool" where
  "svc_wf s \<longleftrightarrow> distinct (map fst (m_mapClients s)) \<and>
     list_all (\<lambda>(i, c). m_strIdentify c = i) (m_mapClients s) \<and>
     list_all (\<lambda>t. task_ok t \<and> task_client t \<in> fst ` set (m_mapClients s)) (threadPool s)"

lemma svc_wf_cong: "m_mapClients s1 = m_mapClients s \<Longrightarrow> threadPool s1 = threadPool s \<Longrightarrow> svc_wf s1 \<longleftrightarrow> svc_wf s"
  by (simp add: svc_wf_def)

lemma same_but_input_wf: "same_but_input s s1 \<Longrightarrow> svc_wf s1 \<longleftrightarrow> svc_wf s"
  by (rule svc_wf_cong) (simp_all add: same_but_inputD)

lemma set_client_wf:
  assumes "svc_wf s" "m_strIdentify c = i"
  shows "svc_wf (set_client i c s)"
proof -
  have "\<forall>(j, b) \<in> set (AList.update i c xs). (j, b) \<in> set xs \<or> (j, b) = (i, c)" for xs
    by (induction xs) auto
  then have "\<forall>(j, b) \<in> set (AList.update i c (m_mapClients s)). m_strIdentify b = j"
    using assms by (fastforce simp: svc_wf_def list_all_iff)
  then show ?thesis using assms
    by (auto simp: svc_wf_def set_client_def distinct_update list_all_iff dom_update)
qed

lemma svc_wf_lookup: "svc_wf s \<Longrightarrow> map_of (m_mapClients s) i = Some c \<Longrightarrow> m_strIdentify c = i"
  by (auto simp: svc_wf_def list_all_iff dest!: map_of_SomeD)

lemma svc_wf_submitted:
  assumes "svc_wf s" "m_mapClients s1 = m_mapClients s" "map_of (m_mapClients s) i = Some c"
    "threadPool s1 = threadPool s \<or> (\<exists>t. threadPool s1 = threadPool s @ [t] \<and> task_for i t)"
  shows "svc_wf s1"
proof -
  have "i \<in> fst ` set (m_mapClients s)" using assms(3) by (force dest: map_of_SomeD)
  then show ?thesis using assms(1,2,4) unfolding svc_wf_def task_for_def
    by (elim disjE exE conjE) simp_all
qed

lemma onReqLogin_wf:
  assumes "onReqLogin u i c s = Inr s1" "svc_wf s" "m_strIdentify c = i"
  shows "svc_wf s1"
proof -
  obtain q z where z: "recvPodObject s = Inr (q, z)"
    and s1: "\<exists>x. s1 = send_response (m_strRouter c) x z \<or> s1 = send_response (m_strRouter c) x (set_client i (c\<lparr>m_bLogin := True\<rparr>) z)"
    using assms(1) by (auto simp: onReqLogin_def rbind_Inr split: if_splits)
  have "svc_wf z" using recvPodObject_same [OF z] assms(2) same_but_input_wf by blast
  moreover from this have "svc_wf (set_client i (c\<lparr>m_bLogin := True\<rparr>) z)" by (rule set_client_wf) (use assms in simp)
  ultimately show ?thesis using s1 by (auto simp: svc_wf_cong [of "send_response _ _ _"])
qed

lemma onReqLogout_wf:
  assumes "onReqLogout u i c s = Inr s1" "svc_wf s" "m_strIdentify c = i"
  shows "svc_wf s1"
proof -
  obtain q z x where z: "recvPodObject s = Inr (q, z)"
    and s1: "s1 = send_response (m_strRouter c) x (set_client i (c\<lparr>m_bLogin := False\<rparr>) z)"
    using assms(1) by (auto simp: onReqLogout_def rbind_Inr)
  have "svc_wf z" using recvPodObject_same [OF z] assms(2) same_but_input_wf by blast
  then have "svc_wf (set_client i (c\<lparr>m_bLogin := False\<rparr>) z)" by (rule set_client_wf) (use assms in simp)
  then show ?thesis using s1 by (simp add: svc_wf_cong [of "send_response _ _ _"])
qed

lemma onRecvCmd_wf:
  assumes "onRecvCmd n u cmd i c s = Inr s1" "svc_wf s" "map_of (m_mapClients s) i = Some c"
  shows "svc_wf s1"
proof -
  have id: "m_strIdentify c = i" using assms(2,3) by (rule svc_wf_lookup)
  consider "cmd = cmd_code TLogin" | "cmd = cmd_code TLogout" | "cmd = cmd_code TKeepAlive"
    | "cmd \<noteq> cmd_code TLogin" "cmd \<noteq> cmd_code TLogout" "cmd \<noteq> cmd_code TKeepAlive" by blast
  then show ?thesis
  proof cases
    case 1
    then have "onReqLogin u i c s = Inr s1" using assms(1) by (simp add: onRecvCmd_def del: cmd_code.simps)
    then show ?thesis using assms(2) id by (rule onReqLogin_wf)
  next
    case 2
    then have "onReqLogout u i c s = Inr s1" using assms(1) by (simp add: onRecvCmd_def del: cmd_code.simps)
    then show ?thesis using assms(2) id by (rule onReqLogout_wf)
  next
    case 3
    then have "s1 = onKeepAlive n i c s" using assms(1) by (simp add: onRecvCmd_def del: cmd_code.simps)
    then show ?thesis using assms(2) id by (simp add: onKeepAlive_def set_client_wf)
  next
    case 4
    show ?thesis by (rule svc_wf_submitted [OF assms(2) onRecvCmd_data_effect(1) [OF assms(1) 4] assms(3)
          onRecvCmd_data_effect(2) [OF assms(1) 4]])
  qed
qed

lemma reject_wf: "rbind r (reject u e msg cmd p) = Inr s1 \<Longrightarrow> (\<And>q z. r = Inr (q, z) \<Longrightarrow> svc_wf z) \<Longrightarrow> svc_wf s1"
  by (auto simp: rbind_Inr reject_def svc_wf_cong [of "send_response _ _ _"])

lemma find_client_wf: "find_client n i s = (c, s1) \<Longrightarrow> svc_wf s \<Longrightarrow> svc_wf s1"
  by (auto simp: find_client_def Let_def set_client_wf split: option.splits)

lemma dispatch_wf:
  assumes "dispatch T u r i cmd s = Inr s1" "svc_wf s"
  shows "svc_wf s1"
proof (cases "identifyUser i s")
  case False
  then have "rbind (recv_reqid_unchecked s) (reject u TIdentifyErr ''Identify Error'' cmd r) = Inr s1"
    using assms(1) by (simp add: dispatch_def)
  then show ?thesis by (rule reject_wf) (use recv_reqid_unchecked_same same_but_input_wf assms(2) in blast)
next
  case True
  obtain c z where c: "find_client (t_client T) i s = (c, z)" by (cases "find_client (t_client T) i s")
  have wf: "svc_wf z" using c assms(2) by (rule find_client_wf)
  let ?c1 = "c\<lparr>m_strRouter := r, m_tLastRead := t_read T\<rparr>"
  have "m_strIdentify c = i" using svc_wf_lookup [OF wf find_client_effect(1) [OF c]] .
  then have wf1: "svc_wf (set_client i ?c1 z)" using wf by (simp add: set_client_wf)
  have "(\<exists>e msg. rbind (recv_reqid z) (reject u e msg cmd r) = Inr s1) \<or>
      onRecvCmd (t_keep T) u cmd i ?c1 (set_client i ?c1 z) = Inr s1"
    using assms(1) True c unfolding dispatch_def Let_def by (auto simp del: cmd_code.simps split: if_splits)
  then show ?thesis
  proof
    assume "\<exists>e msg. rbind (recv_reqid z) (reject u e msg cmd r) = Inr s1"
    then obtain e msg where "rbind (recv_reqid z) (reject u e msg cmd r) = Inr s1" by blast
    then show ?thesis by (rule reject_wf) (use recv_reqid_same same_but_input_wf wf in blast)
  next
    assume "onRecvCmd (t_keep T) u cmd i ?c1 (set_client i ?c1 z) = Inr s1"
    then show ?thesis using wf1 by (rule onRecvCmd_wf) simp
  qed
qed

lemma recv_request_wf:
  assumes "recv_request T u s = Inr s1" "svc_wf s"
  shows "svc_wf s1"
proof -
  obtain r z1 i z2 d z3 w where z: "recv_bind s = Inr (r, z1)" "recv_bind z1 = Inr (i, z2)" "recv_bind z2 = Inr (d, z3)"
    and w: "dispatch T u r i (dec_i32 d) z3 = Inr w" "skipRemainMFrame w = Inr s1"
    using assms(1) by (auto simp: recv_request_def rbind_Inr split: if_splits)
  have "same_but_input s z3" using z by (blast intro: same_but_input_trans recv_bind_same)
  then have "svc_wf z3" using assms(2) same_but_input_wf by blast
  with w(1) have "svc_wf w" by (rule dispatch_wf)
  then show ?thesis using skipRemainMFrame_same [OF w(2)] same_but_input_wf by blast
qed

lemma katimeHandle_wf: "svc_wf s \<Longrightarrow> svc_wf (katimeHandle tnow w s)"
  by (auto simp: svc_wf_def katimeHandle_eq list_all_iff after_ka_def image_image case_prod_unfold comp_def)

lemma check_timer_wf: "svc_wf s \<Longrightarrow> svc_wf (check_timer T s)"
proof -
  assume wf: "svc_wf s"
  have "svc_wf (callback T s)" using wf by (simp add: callback_def katimeHandle_wf)
  then have "svc_wf ((callback T s)\<lparr>m_timerKA := x\<rparr>)" for x by (subst svc_wf_cong) simp_all
  with wf show ?thesis by (simp add: check_timer_def Let_def)
qed

lemma run_db_frame:
  "run_db k f s = Inr (x, s1) \<Longrightarrow> m_mapClients s1 = m_mapClients s \<and> threadPool s1 = threadPool s \<and> inprocIn s1 = inprocIn s"
  by (auto simp: run_db_def rbind_Inr)

lemma updManagerCache_frame:
  assumes "updManagerCache E fuel s = Inr s1"
  shows "m_mapClients s1 = m_mapClients s \<and> threadPool s1 = threadPool s"
proof -
  obtain q vc z where z: "run_db 0 (qryManageUserBySql E fuel q) s = Inr (vc, z)"
    and f: "rfold (\<lambda>x s2. case x of
              ElManageUser c \<Rightarrow> rbind (c_string (mu_ManagerName c)) (\<lambda>n. Inr (s2\<lparr>m_setManagerCache := insert n (m_setManagerCache s2)\<rparr>))
            | _ \<Rightarrow> Inr s2) vc (z\<lparr>m_setManagerCache := {}\<rparr>) = Inr s1"
    using assms by (auto simp: updManagerCache_def rbind_Inr)
  show ?thesis
    by (rule rfold_invariant [OF f]) (use run_db_frame [OF z] in \<open>auto simp: rbind_Inr split: element.splits\<close>)
qed

lemma forward_answer_frame:
  "forward_answer s = Inr s1 \<Longrightarrow> m_mapClients s1 = m_mapClients s \<and> threadPool s1 = threadPool s"
  by (auto simp: forward_answer_def rbind_Inr)

lemma pollFunc_wf:
  assumes "pollFunc E fuel T u s = Inr s1" "svc_wf s"
  shows "svc_wf s1"
proof -
  obtain z where z: "(if m_bUpdManagerCache s then updManagerCache E fuel (s\<lparr>m_bUpdManagerCache := False\<rparr>) else Inr s) = Inr z"
    and r: "rbind (if inprocIn (check_timer T z) \<noteq> [] then forward_answer (check_timer T z) else Inr (check_timer T z)) (\<lambda>s3.
      if bindIn (check_timer T z) \<noteq> [] then recv_request T u s3 else Inr s3) = Inr s1"
    using assms(1) unfolding pollFunc_def Let_def rbind_Inr by blast
  have "m_mapClients z = m_mapClients s \<and> threadPool z = threadPool s"
    using z by (auto split: if_splits dest: updManagerCache_frame)
  then have "svc_wf z" using assms(2) svc_wf_cong by blast
  then have wf: "svc_wf (check_timer T z)" by (rule check_timer_wf)
  obtain w where w: "(if inprocIn (check_timer T z) \<noteq> [] then forward_answer (check_timer T z) else Inr (check_timer T z)) = Inr w"
    and s1: "(if bindIn (check_timer T z) \<noteq> [] then recv_request T u w else Inr w) = Inr s1"
    using r unfolding rbind_Inr by blast
  have "svc_wf w" using w wf forward_answer_frame svc_wf_cong by (metis sum.inject(2))
  with s1 show ?thesis by (auto split: if_splits intro: recv_request_wf)
qed

lemma worker_frame:
  "m_mapClients (outerSendMsg rid ds s) = m_mapClients s" "threadPool (outerSendMsg rid ds s) = threadPool s"
  "m_mapClients (storeCacheBool t s) = m_mapClients s" "threadPool (storeCacheBool t s) = threadPool s"
  by (simp_all add: outerSendMsg_def storeCacheBool_def)

lemma on_change_frame:
  assumes "on_change f cmd m k rid i t q s = Inr s1"
  shows "m_mapClients s1 = m_mapClients s \<and> threadPool s1 = threadPool s"
proof (cases "run_db k f s")
  case (Inl e)
  with assms show ?thesis by (simp add: on_change_def)
next
  case (Inr p)
  obtain r z where p: "p = (r, z)" by (cases p)
  then obtain ds where "s1 = outerSendMsg rid ds (if r < 0 then z else storeCacheBool t z)"
    using assms Inr by (auto simp: on_change_def rbind_Inr Let_def simp del: if_split)
  then show ?thesis using run_db_frame [of k f s r z] Inr p by (simp add: worker_frame)
qed

lemma onQryBySql_frame:
  assumes "onQryBySql E fuel k rid i q ty r s = Inr s1"
  shows "m_mapClients s1 = m_mapClients s \<and> threadPool s1 = threadPool s"
proof (cases "run_db k (qryDataBySql ty E fuel q) s")
  case (Inl e)
  with assms show ?thesis by (simp add: onQryBySql_def)
next
  case (Inr p)
  obtain xs z where p: "p = (xs, z)" by (cases p)
  then obtain ds where "s1 = outerSendMsg rid ds z"
    using assms Inr by (auto simp: onQryBySql_def rbind_Inr Let_def simp del: if_split)
  then show ?thesis using run_db_frame [of k _ s xs z] Inr p by (simp add: worker_frame)
qed

lemma run_task_frame:
  assumes "run_task E fuel k rid t s = Inr s1"
  shows "m_mapClients s1 = m_mapClients s \<and> threadPool s1 = threadPool s"
  using assms
  by (cases t) (auto simp: onDelBySql_def onInsByObjects_def onDelByObjects_def onUpdByObjects_def dest: on_change_frame onQryBySql_frame)

lemma svc_worker_wf:
  assumes "svc_worker E fuel k rid s = Inr s1" "svc_wf s"
  shows "svc_wf s1"
proof (cases "threadPool s")
  case Nil
  with assms show ?thesis by (simp add: svc_worker_def)
next
  case (Cons t ts)
  then have "run_task E fuel k rid t (s\<lparr>threadPool := ts\<rparr>) = Inr s1" using assms(1) by (simp add: svc_worker_def)
  from run_task_frame [OF this] have "svc_wf s1 \<longleftrightarrow> svc_wf (s\<lparr>threadPool := ts\<rparr>)" by (intro svc_wf_cong) simp_all
  moreover have "svc_wf (s\<lparr>threadPool := ts\<rparr>)" using assms(2) Cons by (simp add: svc_wf_def)
  ultimately show ?thesis by simp
qed

interpretation svc: invariant_system svc_init "svc_step E" svc_wf
proof (unfold_locales, goal_cases)
  case (1 s)
  then show ?case by (auto simp: svc_init.simps new_DispatcherService_def svc_wf_def)
next
  case (2 s t)
  from 2(2) show ?case
  proof (cases rule: svc_step.cases)
    case (poll fuel T u)
    then show ?thesis using 2(1) by (rule pollFunc_wf)
  next
    case (work fuel k rid)
    then show ?thesis using 2(1) by (rule svc_worker_wf)
  next
    case (arrive r ds)
    then show ?thesis using 2(1) by (simp add: svc_wf_cong [of "s\<lparr>bindIn := _\<rparr>" s])
  qed
qed



end
