(* ===== verification/DispWire.thy ===== *)
theory DispWire
  imports DispManager DispService
begin

text \<open>
  The deployer's client and service together: a request as \<open>DispatcherManager\<close> sends it, as the
  service reads it, the task it becomes, and the answer as the client hands it to its callbacks. Between
  the two the ROUTER socket of the service prepends the identity of the peer to a request and strips it
  from an answer, as documented for ZeroMQ.
\<close>

section \<open>Reading back what the client sends\<close>

lemma vec_filters_multipart:
  "vec_filters (fs \<noteq> []) (multipart (concat (map (\<lambda>f. [ColName f, ColVal f]) fs))) = Inr (fs, [])"
proof (induction fs)
  case (Cons f fs)
  then show ?case by (cases "fs = []") (simp_all add: multipart_Cons)
qed simp

lemma vec_objects_multipart:
  assumes "list_all (\<lambda>x. elem_ok x \<and> elem_type x = t) xs"
  shows "vec_objects t (xs \<noteq> []) (multipart (map enc_elem xs)) = Inr (xs, [])"
  using assms
proof (induction xs)
  case (Cons x xs)
  then have x: "elem_ok x \<and> elem_type x = t" and IH: "vec_objects t (xs \<noteq> []) (multipart (map enc_elem xs)) = Inr (xs, [])" by auto
  from IH elem_codec.length_enc [OF x] elem_codec.dec_enc [OF x] show ?case
    by (cases "xs = []") (simp_all add: multipart_Cons)
qed simp

lemma recv_bind_Cons: "bindIn s = (d, b) # fs \<Longrightarrow> recv_bind s = Inr (d, s\<lparr>bindIn := fs, bindMore := b\<rparr>)"
  by (simp add: recv_bind_def)

text \<open>A request of a client with a session reaches the handler of its command.\<close>

lemma session_client:
  "sessions s i = Some r \<Longrightarrow> \<exists>c. map_of (m_mapClients s) i = Some c \<and> m_bLogin c \<and> m_strRouter c = r"
  by (auto simp: sessions_def session_of_def split: option.splits if_splits)

lemma recv_request_session:
  assumes "i \<in> m_setManagerCache s" and "map_of (m_mapClients s) i = Some c" "m_bLogin c" "m_strRouter c = r"
    and "bindIn s = (r, True) # (i, True) # (enc_i32 cmd, b) # fs"
  shows "recv_request T u s =
    rbind (let c1 = c\<lparr>m_tLastRead := t_read T\<rparr>
           in onRecvCmd (t_keep T) u cmd i c1 (set_client i c1 (s\<lparr>bindIn := fs, bindMore := b\<rparr>))) skipRemainMFrame"
  using assms
  by (auto simp: recv_request_def recv_bind_Cons dispatch_def identifyUser_def find_client_def Let_def simp del: cmd_code.simps)

lemma recvPodObject_enc: "bindIn s = (enc_i32 w, b) # fs \<Longrightarrow> recvPodObject s = Inr (w, s\<lparr>bindIn := fs, bindMore := b\<rparr>)"
  by (simp add: recvPodObject_def recv_bind_Cons)

lemma recv_filter_cmd_request:
  assumes "bindIn s = multipart (enc_i32 q # enc_i32 (ele_code t) # concat (map (\<lambda>f. [ColName f, ColVal f]) fs))"
    and "length verb \<le> 14" and "sql_fits (ele_code t) fs"
  shows "recv_filter_cmd verb mk s =
    Inr (submit (mk (sql_text verb (ele_code t) fs) t q) (s\<lparr>bindIn := [], bindMore := False\<rparr>))"
proof -
  let ?fs = "multipart (concat (map (\<lambda>f. [ColName f, ColVal f]) fs))"
  have ne: "concat (map (\<lambda>f. [ColName f, ColVal f]) fs) \<noteq> [] \<longleftrightarrow> fs \<noteq> []" by (cases fs) simp_all
  have "bindIn s = (enc_i32 q, True) # (enc_i32 (ele_code t), fs \<noteq> []) # ?fs"
    using assms(1) ne by (simp add: multipart_Cons)
  then show ?thesis
    using assms(2,3) vec_filters_multipart [of fs]
    by (simp add: recv_filter_cmd_def recvPodObject_enc recvFilters_def build_sql_eq del: ele_code.simps)
qed

lemma recv_objects_cmd_request:
  assumes "bindIn s = multipart (enc_i32 q # enc_i32 (ele_code t) # map enc_elem xs)"
    and "list_all (\<lambda>x. elem_ok x \<and> elem_type x = t) xs"
  shows "recv_objects_cmd act s = Inr (act t xs q (s\<lparr>bindIn := [], bindMore := False\<rparr>))"
proof -
  have "bindIn s = (enc_i32 q, True) # (enc_i32 (ele_code t), xs \<noteq> []) # multipart (map enc_elem xs)"
    using assms(1) by (simp add: multipart_Cons)
  then show ?thesis
    using vec_objects_multipart [OF assms(2)]
    by (simp add: recv_objects_cmd_def recvPodObject_enc recvVecObject_def del: ele_code.simps)
qed

lemma skip_done: "bindMore s = False \<Longrightarrow> skipRemainMFrame s = Inr (s\<lparr>bindMore := False\<rparr>)"
  by (simp add: skipRemainMFrame_def)

section \<open>The answer on its way back\<close>

lemma forward_multipart: "ds \<noteq> [] \<Longrightarrow> forward_frames (multipart ds @ rest) = Inr (multipart ds, rest)"
proof (induction ds)
  case (Cons d ds)
  then show ?case by (cases "ds = []") (simp_all add: multipart_Cons)
qed simp

lemma forward_answer_sent:
  assumes "inprocIn s = []" and "ds \<noteq> []"
  shows "forward_answer (outerSendMsg rid ds s) = Inr (s\<lparr>bindOut := bindOut s @ multipart ds, inprocIn := []\<rparr>)"
proof -
  have "drop 1 (multipart (rid # ds)) = multipart ds" using assms(2) by (simp add: multipart_Cons)
  then show ?thesis using assms forward_multipart [OF assms(2), of "[]"] by (simp add: forward_answer_def outerSendMsg_def)
qed

lemma recv_empty_query_answer:
  assumes "stateMachine m = StatInit" "rsp_ok r" "CmdType r = cmd_code TQuery"
  shows "\<exists>m'. recv_frames (multipart [enc_i32 (pattern_code TPassiveResponse), enc_rsp r, enc_i32 (ele_code t)]) m =
    Inr (m', [OnRspQry t r None (RequestID r) True]) \<and> stateMachine m' = StatInit"
  using assms rsp_codec.length_enc [OF assms(2)] rsp_codec.dec_enc [OF assms(2)]
  by (simp add: recvHandle_def onReqRsp_data_def del: cmd_code.simps ele_code.simps)

text \<open>What the client's callbacks see of a query answer with the rows \<open>xs\<close>.\<close>

definition query_calls :: "EElementType \<Rightarrow> ReqResponse \<Rightarrow> element list \<Rightarrow> mgr_call list" where
  "query_calls t r xs =
     (if xs = [] then [OnRspQry t r None (RequestID r) True] else qry_calls t r (map enc_elem xs))"

lemma recv_query_rows:
  assumes "stateMachine m = StatInit" "rsp_ok r" "CmdType r = cmd_code TQuery"
  shows "\<exists>m'. recv_frames (multipart ([enc_i32 (pattern_code TPassiveResponse), enc_rsp r, enc_i32 (ele_code t)] @ map enc_elem xs)) m =
    Inr (m', query_calls t r xs) \<and> stateMachine m' = StatInit"
proof (cases "xs = []")
  case True
  with recv_empty_query_answer [OF assms, of t] show ?thesis by (simp add: query_calls_def)
next
  case False
  with recv_query_answer [OF assms, of "map enc_elem xs" t] show ?thesis
    by (simp add: query_calls_def multipart_Cons)
qed

section \<open>Running the task\<close>

definition ok_response :: "string \<Rightarrow> i32 \<Rightarrow> ECommandType \<Rightarrow> ReqResponse" where
  "ok_response msg q cmd =
     \<lparr>ErrorID = err_code TSuccess, ErrMsg = lit msg @ replicate (64 - length msg) 0, RequestID = q, CmdType = cmd_code cmd\<rparr>"

lemma strcpy_lit:
  assumes "length msg < 64" "0 \<notin> set (lit msg)"
  shows "strcpy (replicate 64 0) (lit msg) = Inr (lit msg @ replicate (64 - length msg) 0)"
proof -
  have "cstr (lit msg) = lit msg" using assms(2) by (rule cstr_id)
  moreover have "64 - length msg = Suc (63 - length msg)" using assms(1) by arith
  ultimately show ?thesis using assms(1) by (simp add: strcpy_fits)
qed

lemma onQryBySql_answers:
  assumes "qryDataBySql t E fuel sql \<lparr>hist = dbHistory s, sqlite_error_msg = threadMsg s k\<rparr> = Inr (xs, d)"
    and "sqlite_error_msg d = []" and "map_of (m_mapClients s) i = Some c"
  shows "onQryBySql E fuel k rid i sql t q s =
    Inr (outerSendMsg rid ([m_strRouter c, enc_i32 (pattern_code TPassiveResponse),
           enc_rsp (ok_response ''Query Successfully'' q TQuery), enc_i32 (ele_code t)] @ map enc_elem xs)
         (s\<lparr>dbHistory := hist d, threadMsg := (threadMsg s)(k := [])\<rparr>))"
proof -
  have "strcpy (replicate 64 0) (lit ''Query Successfully'') = Inr (lit ''Query Successfully'' @ replicate 46 0)"
    by (subst strcpy_lit) (simp_all add: bytes_of_string_def)
  then show ?thesis using assms
    by (simp add: onQryBySql_def run_db_def client_router_def ok_response_def)
qed

lemma svc_worker_submit:
  assumes "threadPool z = []"
  shows "svc_worker E fuel k rid (submit t z) = run_task E fuel k rid t z"
proof -
  have "z\<lparr>threadPool := []\<rparr> = z" using assms by (cases z) simp
  moreover have "svc_worker E fuel k rid (submit t z) = run_task E fuel k rid t (z\<lparr>threadPool := []\<rparr>)"
    using assms by (simp add: svc_worker_def submit_def)
  ultimately show ?thesis by (simp only:)
qed

lemma query_request_received:
  assumes "IsConnected (azmqApi m)" and "m_strIdentity m = i"
    and "i \<in> m_setManagerCache s" and "map_of (m_mapClients s) i = Some c" "m_bLogin c" "m_strRouter c = r"
    and "sql_fits (ele_code t) fs"
  shows "recv_request T u (s\<lparr>bindIn := (r, True) # snd (ReqQryByColumnFilter fs (ele_code t) q m)\<rparr>) =
    Inr (submit (TaskQryBySql i (sql_text ''select * from '' (ele_code t) fs) t q)
          (set_client i (c\<lparr>m_tLastRead := t_read T\<rparr>) (s\<lparr>bindIn := [], bindMore := False\<rparr>)))"
proof -
  let ?rest = "multipart (enc_i32 q # enc_i32 (ele_code t) # concat (map (\<lambda>f. [ColName f, ColVal f]) fs))"
  let ?s = "s\<lparr>bindIn := (r, True) # snd (ReqQryByColumnFilter fs (ele_code t) q m)\<rparr>"
  let ?c1 = "c\<lparr>m_tLastRead := t_read T\<rparr>"
  have fr: "bindIn ?s = (r, True) # (i, True) # (enc_i32 (cmd_code TQuery), True) # ?rest"
    using ReqQryByColumnFilter_frames [OF assms(1), of fs "ele_code t" q] assms(2) by (simp add: multipart_Cons)
  let ?z = "set_client i ?c1 (?s\<lparr>bindIn := ?rest, bindMore := True\<rparr>)"
  have "recv_request T u ?s = rbind (onRecvCmd (t_keep T) u (cmd_code TQuery) i ?c1 ?z) skipRemainMFrame"
    using recv_request_session [OF _ _ assms(5,6) fr] assms(3,4) by (simp add: Let_def)
  moreover have "onRecvCmd (t_keep T) u (cmd_code TQuery) i ?c1 ?z =
      Inr (submit (TaskQryBySql i (sql_text ''select * from '' (ele_code t) fs) t q) (?z\<lparr>bindIn := [], bindMore := False\<rparr>))"
    using recv_filter_cmd_request [of ?z q t fs "''select * from ''" "TaskQryBySql i"] assms(7)
    by (simp add: onRecvCmd_def del: cmd_code.simps ele_code.simps)
  ultimately show ?thesis by (simp add: skip_done submit_def set_client_def)
qed


text \<open>A client connected as the known user of the demonstration state.\<close>

definition demo_client :: DispatcherManager where
  "demo_client = (let m = new_DispatcherManager 0 (ok_response [] 0 TQuery)
     in m\<lparr>m_strIdentity := [65], azmqApi := (azmqApi m)\<lparr>m_bTcpConnected := True\<rparr>\<rparr>)"


section \<open>Changes: insert, delete and update of objects\<close>

fun change_task :: "ECommandType \<Rightarrow> bytes \<Rightarrow> EElementType \<Rightarrow> element list \<Rightarrow> i32 \<Rightarrow> task" where
  "change_task TInsert i t xs q = TaskInsByObjects i t xs q"
| "change_task TDelete i t xs q = TaskDelByObjects i t xs q"
| "change_task _ i t xs q = TaskUpdByObjects i t xs q"

fun change_op :: "ECommandType \<Rightarrow> EElementType \<Rightarrow> sqlite3 \<Rightarrow> element list \<Rightarrow> dbst \<Rightarrow> (int \<times> dbst) res" where
  "change_op TInsert = insByObjects" | "change_op TDelete = delByObjects" | "change_op _ = updByObjects"

definition change_cmd :: "ECommandType \<Rightarrow> bool" where
  "change_cmd cmd \<longleftrightarrow> cmd \<in> {TInsert, TDelete, TUpdate}"

lemma change_request_received:
  assumes "IsConnected (azmqApi m)" and "m_strIdentity m = i" "xs \<noteq> []" "list_all (\<lambda>x. elem_ok x \<and> elem_type x = t) xs"
    and "change_cmd cmd" "i \<in> m_setManagerCache s" and "map_of (m_mapClients s) i = Some c" "m_bLogin c" "m_strRouter c = r"
  shows "\<exists>b. recv_request T u (s\<lparr>bindIn := (r, True) # snd (ReqInsUpdDelByEletype xs (ele_code t) q cmd m)\<rparr>) =
    Inr (submit (change_task cmd i t xs q)
          (set_client i (c\<lparr>m_tLastRead := t_read T\<rparr>) (s\<lparr>bindIn := [], bindMore := False, m_bUpdManagerCache := b\<rparr>)))"
proof -
  let ?rest = "multipart (enc_i32 q # enc_i32 (ele_code t) # map enc_elem xs)"
  let ?s = "s\<lparr>bindIn := (r, True) # snd (ReqInsUpdDelByEletype xs (ele_code t) q cmd m)\<rparr>"
  let ?c1 = "c\<lparr>m_tLastRead := t_read T\<rparr>"
  have fr: "bindIn ?s = (r, True) # (i, True) # (enc_i32 (cmd_code cmd), True) # ?rest"
    using ReqInsUpdDelByEletype_frames [OF assms(1,3), of "ele_code t" q cmd] assms(2) by (simp add: multipart_Cons)
  let ?z = "set_client i ?c1 (?s\<lparr>bindIn := ?rest, bindMore := True\<rparr>)"
  have rq: "recv_request T u ?s = rbind (onRecvCmd (t_keep T) u (cmd_code cmd) i ?c1 ?z) skipRemainMFrame"
    using recv_request_session [OF _ _ assms(8,9) fr] assms(6,7) by (simp add: Let_def)
  have act: "recv_objects_cmd act ?z = Inr (act t xs q (?z\<lparr>bindIn := [], bindMore := False\<rparr>))" for act
    by (rule recv_objects_cmd_request) (use assms(4) in simp_all)
  have "\<exists>b. onRecvCmd (t_keep T) u (cmd_code cmd) i ?c1 ?z =
      Inr (submit (change_task cmd i t xs q) (?z\<lparr>bindIn := [], bindMore := False, m_bUpdManagerCache := b\<rparr>))"
  proof (cases cmd)
    case TInsert
    then show ?thesis using act by (auto simp: onRecvCmd_def simp del: cmd_code.simps split: if_splits
        intro: exI [of _ True] exI [of _ "m_bUpdManagerCache s"] simp: set_client_def)
  next
    case TDelete
    then show ?thesis using act by (auto simp: onRecvCmd_def set_client_def simp del: cmd_code.simps
        intro: exI [of _ "m_bUpdManagerCache s"])
  next
    case TUpdate
    then show ?thesis using act by (auto simp: onRecvCmd_def set_client_def simp del: cmd_code.simps
        intro: exI [of _ "m_bUpdManagerCache s"])
  qed (use assms(5) in \<open>simp_all add: change_cmd_def\<close>)
  then obtain b where "onRecvCmd (t_keep T) u (cmd_code cmd) i ?c1 ?z =
      Inr (submit (change_task cmd i t xs q) (?z\<lparr>bindIn := [], bindMore := False, m_bUpdManagerCache := b\<rparr>))" by blast
  then have "recv_request T u ?s = Inr (submit (change_task cmd i t xs q)
      (set_client i ?c1 (s\<lparr>bindIn := [], bindMore := False, m_bUpdManagerCache := b\<rparr>)))"
    using rq by (simp add: skip_done submit_def set_client_def)
  then show ?thesis by blast
qed

lemma strncpy_length: "strncpy (replicate 64 0) msg 63 = Inr d \<Longrightarrow> length d = 64"
  by (auto simp: strncpy_def Let_def dest: mem_write_length)

lemma strncpy_fits: "\<exists>d. strncpy (replicate 64 0) msg 63 = Inr d"
  by (simp add: strncpy_def Let_def mem_write_def)

lemma on_change_answers:
  assumes "f \<lparr>hist = dbHistory s, sqlite_error_msg = threadMsg s k\<rparr> = Inr (r, d)" and "map_of (m_mapClients s) i = Some c"
    and "length okm < 64"
  shows "\<exists>rsp b. on_change f cmd okm k rid i t q s =
    Inr (outerSendMsg rid [m_strRouter c, enc_i32 (pattern_code TPassiveResponse), enc_rsp rsp]
      (s\<lparr>dbHistory := hist d, threadMsg := (threadMsg s)(k := sqlite_error_msg d), m_bUpdManagerCache := b\<rparr>)) \<and>
    rsp_ok rsp \<and> RequestID rsp = q \<and> CmdType rsp = cmd_code cmd \<and> ErrorID rsp = err_code (if r < 0 then TDbError else TSuccess)"
proof -
  let ?s1 = "s\<lparr>dbHistory := hist d, threadMsg := (threadMsg s)(k := sqlite_error_msg d)\<rparr>"
  obtain msg where msg: "(if r < 0 then strncpy (replicate 64 0) (sqlite_error_msg d) 63 else strcpy (replicate 64 0) (lit okm)) = Inr msg"
    using strncpy_fits [of "sqlite_error_msg d"] assms(3) length_cstr_le [of "lit okm"]
    by (cases "r < 0") (auto simp: strcpy_fits)
  have len: "length msg = 64"
    using msg strcpy_reads_back [of "replicate 64 0" "lit okm" msg] by (auto split: if_splits dest: strncpy_length)
  let ?rsp = "\<lparr>ErrorID = err_code (if r < 0 then TDbError else TSuccess), ErrMsg = msg, RequestID = q, CmdType = cmd_code cmd\<rparr>"
  let ?b = "if r < 0 then m_bUpdManagerCache s else t = TManageUser \<or> m_bUpdManagerCache s"
  have "on_change f cmd okm k rid i t q s =
      Inr (outerSendMsg rid [m_strRouter c, enc_i32 (pattern_code TPassiveResponse), enc_rsp ?rsp]
        (if r < 0 then ?s1 else storeCacheBool t ?s1))"
    using assms(1,2) msg by (simp add: on_change_def run_db_def client_router_def split: if_splits)
  moreover have "(if r < 0 then ?s1 else storeCacheBool t ?s1) = ?s1\<lparr>m_bUpdManagerCache := ?b\<rparr>"
    by (simp add: storeCacheBool_def)
  moreover have "rsp_ok ?rsp" using len by (simp add: rsp_ok_def)
  ultimately show ?thesis by (intro exI [of _ ?rsp] exI [of _ ?b]) simp
qed

lemma run_change_task:
  assumes "change_cmd cmd"
  shows "\<exists>okm. length okm < 64 \<and>
    run_task E fuel k rid (change_task cmd i t xs q) s = on_change (change_op cmd t E xs) cmd okm k rid i t q s"
  using assms
  by (auto simp: change_cmd_def onInsByObjects_def onDelByObjects_def onUpdByObjects_def intro: exI [of _ "''Insert Successfully''"]
      exI [of _ "''Delete Successfully''"] exI [of _ "''Update Successfully''"])



end
