(* ===== verification/QuickSort.thy ===== *)
theory QuickSort
  imports Prelude "HOL-Library.Multiset"
begin

text \<open>
  \<^verbatim>\<open>test/quickSort.cpp\<close> and \<^verbatim>\<open>test/topk.cpp\<close>: in-place quick sort and quick select on a vector.
  Indices are C \<open>int\<close>s, every access to the vector is in range or the fault \<open>OutOfBounds\<close>, and the three
  nested loops are recursive functions with termination proofs. The vector has fewer than \<open>2^31\<close> elements.
\<close>

section \<open>Vectors\<close>

definition vswap :: "'a list \<Rightarrow> int \<Rightarrow> int \<Rightarrow> 'a list res" where
  "vswap xs i j =
     rbind (vget xs i) (\<lambda>a. rbind (vget xs j) (\<lambda>b. Inr (xs[nat i := b, nat j := a])))"

section \<open>The partition\<close>

text \<open>The two inner loops: \<open>j\<close> runs down over elements not below the pivot, \<open>i\<close> up over elements not
  above it.\<close>

function scan_down :: "'a::linorder \<Rightarrow> 'a list \<Rightarrow> int \<Rightarrow> int \<Rightarrow> int res" where
  "scan_down p xs i j =
     (if i < j then rbind (vget xs j) (\<lambda>v. if p \<le> v then scan_down p xs i (j - 1) else Inr j) else Inr j)"
  by pat_completeness auto
termination by (relation "measure (\<lambda>(p, xs, i, j). nat (j - i))") auto

function scan_up :: "'a::linorder \<Rightarrow> 'a list \<Rightarrow> int \<Rightarrow> int \<Rightarrow> int res" where
  "scan_up p xs i j =
     (if i < j then rbind (vget xs i) (\<lambda>v. if v \<le> p then scan_up p xs (i + 1) j else Inr i) else Inr i)"
  by pat_completeness auto
termination by (relation "measure (\<lambda>(p, xs, i, j). nat (j - i))") auto

declare scan_down.simps [simp del] scan_up.simps [simp del]

lemma scan_down_bounds: "scan_down p xs i j = Inr j' \<Longrightarrow> i \<le> j \<Longrightarrow> i \<le> j' \<and> j' \<le> j"
proof (induction p xs i j rule: scan_down.induct)
  case (1 p xs i j)
  show ?case
  proof (cases "i < j")
    case True
    then obtain v where v: "vget xs j = Inr v" "(if p \<le> v then scan_down p xs i (j - 1) else Inr j) = Inr j'"
      using 1(2) by (subst (asm) scan_down.simps) (auto simp: rbind_Inr)
    show ?thesis using 1(1) [OF True v(1)] v True by (cases "p \<le> v") auto
  qed (use 1(2,3) in \<open>subst (asm) scan_down.simps, simp\<close>)
qed

lemma scan_up_bounds: "scan_up p xs i j = Inr i' \<Longrightarrow> i \<le> j \<Longrightarrow> i \<le> i' \<and> i' \<le> j"
proof (induction p xs i j rule: scan_up.induct)
  case (1 p xs i j)
  show ?case
  proof (cases "i < j")
    case True
    then obtain v where v: "vget xs i = Inr v" "(if v \<le> p then scan_up p xs (i + 1) j else Inr i) = Inr i'"
      using 1(2) by (subst (asm) scan_up.simps) (auto simp: rbind_Inr)
    show ?thesis using 1(1) [OF True v(1)] v True by (cases "v \<le> p") auto
  qed (use 1(2,3) in \<open>subst (asm) scan_up.simps, simp\<close>)
qed

lemma scan_down_stops:
  "scan_down p xs i j = Inr j' \<Longrightarrow> i < j' \<Longrightarrow> \<exists>v. vget xs j' = Inr v \<and> v < p"
proof (induction p xs i j rule: scan_down.induct)
  case (1 p xs i j)
  show ?case
  proof (cases "i < j")
    case True
    then obtain v where v: "vget xs j = Inr v" "(if p \<le> v then scan_down p xs i (j - 1) else Inr j) = Inr j'"
      using 1(2) by (subst (asm) scan_down.simps) (auto simp: rbind_Inr)
    show ?thesis using 1(1) [OF True v(1)] v 1(3) by (cases "p \<le> v") auto
  qed (use 1(2,3) in \<open>subst (asm) scan_down.simps, simp\<close>)
qed

lemma scan_up_stops:
  "scan_up p xs i j = Inr i' \<Longrightarrow> i' < j \<Longrightarrow> \<exists>v. vget xs i' = Inr v \<and> p < v"
proof (induction p xs i j rule: scan_up.induct)
  case (1 p xs i j)
  show ?case
  proof (cases "i < j")
    case True
    then obtain v where v: "vget xs i = Inr v" "(if v \<le> p then scan_up p xs (i + 1) j else Inr i) = Inr i'"
      using 1(2) by (subst (asm) scan_up.simps) (auto simp: rbind_Inr)
    show ?thesis using 1(1) [OF True v(1)] v 1(3) by (cases "v \<le> p") auto
  qed (use 1(2,3) in \<open>subst (asm) scan_up.simps, simp\<close>)
qed

lemma vswap_Inr:
  "vswap xs i j = Inr ys \<longleftrightarrow> 0 \<le> i \<and> i < int (length xs) \<and> 0 \<le> j \<and> j < int (length xs) \<and>
     ys = xs[nat i := xs ! nat j, nat j := xs ! nat i]"
  by (auto simp: vswap_def rbind_Inr vget_Inr)

text \<open>A round that moves neither index swaps an inverted pair, so that the next one moves.\<close>

function partition_loop :: "'a::linorder \<Rightarrow> 'a list \<Rightarrow> int \<Rightarrow> int \<Rightarrow> ('a list \<times> int) res" where
  "partition_loop p xs i j =
     (if i < j then
        rbind (scan_down p xs i j) (\<lambda>j1.
        rbind (scan_up p xs i j1) (\<lambda>i1.
        rbind (vswap xs i1 j1) (\<lambda>ys. partition_loop p ys i1 j1)))
      else Inr (xs, i))"
  by pat_completeness auto

lemma partition_round_decreases:
  assumes "i < j" "scan_down p xs i j = Inr j1" "scan_up p xs i j1 = Inr i1" "vswap xs i1 j1 = Inr ys"
  shows "2 * nat (j1 - i1) + (if p < ys ! nat i1 then 1 else 0) < 2 * nat (j - i) + (if p < xs ! nat i then 1 else (0 :: nat))"
proof -
  have j1: "i \<le> j1" "j1 \<le> j" using scan_down_bounds [OF assms(2)] assms(1) by auto
  have i1: "i \<le> i1" "i1 \<le> j1" using scan_up_bounds [OF assms(3) j1(1)] by auto
  show ?thesis
  proof (cases "j1 = j \<and> i1 = i")
    case True
    have b: "xs ! nat j < p" "p < xs ! nat i"
      using scan_down_stops [OF assms(2)] scan_up_stops [OF assms(3)] True assms(1) by (auto simp: vget_Inr)
    have "ys ! nat i = xs ! nat j" using assms(1,4) True by (auto simp: vswap_Inr nth_list_update)
    with b True show ?thesis by auto
  next
    case False
    then have "nat (j1 - i1) < nat (j - i)" using i1 j1 assms(1) by auto
    then show ?thesis by auto
  qed
qed

termination partition_loop
  by (relation "measure (\<lambda>(p, xs, i, j). 2 * nat (j - i) + (if p < xs ! nat i then 1 else 0))")
    (auto dest: partition_round_decreases)

declare partition_loop.simps [simp del]

section \<open>Sorting and selection\<close>

function quickSort :: "'a::linorder list \<Rightarrow> int \<Rightarrow> int \<Rightarrow> 'a list res" where
  "quickSort nums left right =
     (if left < right then
        rbind (vget nums left) (\<lambda>p.
        rbind (partition_loop p nums left right) (\<lambda>(nums1, i).
        rbind (vswap nums1 left i) (\<lambda>nums2.
        rbind (quickSort nums2 left (i - 1)) (\<lambda>nums3. quickSort nums3 (i + 1) right))))
      else Inr nums)"
  by pat_completeness auto

function topkhelper :: "'a::linorder list \<Rightarrow> int \<Rightarrow> int \<Rightarrow> int \<Rightarrow> 'a list res" where
  "topkhelper input k left right =
     (if left < right then
        rbind (vget input left) (\<lambda>p.
        rbind (partition_loop p input left right) (\<lambda>(input1, i).
        rbind (vswap input1 left i) (\<lambda>input2.
        if i < k then topkhelper input2 k (i + 1) right
        else if k < i then topkhelper input2 k left (i - 1)
        else Inr input2)))
      else Inr input)"
  by pat_completeness auto

lemma partition_loop_bounds: "partition_loop p xs i j = Inr (ys, l) \<Longrightarrow> i \<le> j \<Longrightarrow> i \<le> l \<and> l \<le> j"
proof (induction p xs i j rule: partition_loop.induct)
  case (1 p xs i j)
  show ?case
  proof (cases "i < j")
    case True
    then obtain j1 i1 zs where r: "scan_down p xs i j = Inr j1" "scan_up p xs i j1 = Inr i1" "vswap xs i1 j1 = Inr zs"
      "partition_loop p zs i1 j1 = Inr (ys, l)"
      using 1(2) by (subst (asm) partition_loop.simps) (auto simp: rbind_Inr)
    have "i \<le> j1" "j1 \<le> j" using scan_down_bounds [OF r(1)] True by auto
    moreover have "i \<le> i1" "i1 \<le> j1" using scan_up_bounds [OF r(2)] calculation by auto
    ultimately show ?thesis using 1(1) [OF True r] by auto
  qed (use 1(2,3) in \<open>subst (asm) partition_loop.simps, simp\<close>)
qed

termination quickSort
  by (relation "measure (\<lambda>(xs, l, r). nat (r - l))") (auto dest: partition_loop_bounds)

termination topkhelper
  by (relation "measure (\<lambda>(xs, k, l, r). nat (r - l))") (auto dest: partition_loop_bounds)

declare quickSort.simps [simp del] topkhelper.simps [simp del]

text \<open>\<open>topK\<close> reorders its argument and copies its first \<open>k\<close> elements.\<close>

fun copy_front :: "'a list \<Rightarrow> int \<Rightarrow> nat \<Rightarrow> 'a list res" where
  "copy_front input i 0 = Inr []"
| "copy_front input i (Suc n) = rbind (vget input i) (\<lambda>v. rbind (copy_front input (i + 1) n) (\<lambda>vs. Inr (v # vs)))"

definition topK :: "'a::linorder list \<Rightarrow> int \<Rightarrow> ('a list \<times> 'a list) res" where
  "topK input k =
     rbind (topkhelper input (k - 1) 0 (int (length input) - 1)) (\<lambda>input1.
     rbind (copy_front input1 0 (nat k)) (\<lambda>ans. Inr (ans, input1)))"

section \<open>Correctness of the partition\<close>

lemma scan_down_total:
  "0 \<le> i \<Longrightarrow> i \<le> j \<Longrightarrow> j < int (length xs) \<Longrightarrow>
   \<exists>j'. scan_down p xs i j = Inr j' \<and> (\<forall>l. j' < l \<and> l \<le> j \<longrightarrow> p \<le> xs ! nat l)"
proof (induction p xs i j rule: scan_down.induct)
  case (1 p xs i j)
  show ?case
  proof (cases "i < j \<and> p \<le> xs ! nat j")
    case True
    then obtain j' where "scan_down p xs i (j - 1) = Inr j'" "\<forall>l. j' < l \<and> l \<le> j - 1 \<longrightarrow> p \<le> xs ! nat l"
      using 1(1) [of "xs ! nat j"] 1(2-) by (auto simp: vget_Inr)
    then show ?thesis using True 1(2-)
      by (subst scan_down.simps) (auto simp: vget_def, metis linorder_neqE not_less order_antisym zle_diff1_eq)
  next
    case False
    then show ?thesis using 1(2-) by (subst scan_down.simps) (auto simp: vget_def)
  qed
qed

lemma scan_up_total:
  "0 \<le> i \<Longrightarrow> i \<le> j \<Longrightarrow> j < int (length xs) \<Longrightarrow>
   \<exists>i'. scan_up p xs i j = Inr i' \<and> (\<forall>l. i \<le> l \<and> l < i' \<longrightarrow> xs ! nat l \<le> p)"
proof (induction p xs i j rule: scan_up.induct)
  case (1 p xs i j)
  show ?case
  proof (cases "i < j \<and> xs ! nat i \<le> p")
    case True
    then obtain i' where "scan_up p xs (i + 1) j = Inr i'" "\<forall>l. i + 1 \<le> l \<and> l < i' \<longrightarrow> xs ! nat l \<le> p"
      using 1(1) [of "xs ! nat i"] 1(2-) by (auto simp: vget_Inr)
    then show ?thesis using True 1(2-)
      by (subst scan_up.simps) (auto simp: vget_def, metis order_le_less zless_imp_add1_zle)
  next
    case False
    then show ?thesis using 1(2-) by (subst scan_up.simps) (auto simp: vget_def)
  qed
qed

definition part_inv :: "int \<Rightarrow> int \<Rightarrow> 'a::linorder \<Rightarrow> 'a list \<Rightarrow> int \<Rightarrow> int \<Rightarrow> bool" where
  "part_inv lo hi p xs i j \<longleftrightarrow> 0 \<le> lo \<and> lo \<le> i \<and> i \<le> j \<and> j \<le> hi \<and> hi < int (length xs) \<and> xs ! nat lo = p \<and>
     (\<forall>l. lo \<le> l \<and> l \<le> i \<longrightarrow> xs ! nat l \<le> p) \<and> (\<forall>l. j < l \<and> l \<le> hi \<longrightarrow> p \<le> xs ! nat l)"

text \<open>\<open>ys\<close> is \<open>xs\<close> with the elements between \<open>lo\<close> and \<open>hi\<close> rearranged.\<close>

definition rearranged :: "int \<Rightarrow> int \<Rightarrow> 'a list \<Rightarrow> 'a list \<Rightarrow> bool" where
  "rearranged lo hi xs ys \<longleftrightarrow> length ys = length xs \<and> mset ys = mset xs \<and>
     (\<forall>m < length xs. int m < lo \<or> hi < int m \<longrightarrow> ys ! m = xs ! m)"

lemma rearranged_trans: "rearranged lo hi xs ys \<Longrightarrow> rearranged lo hi ys zs \<Longrightarrow> rearranged lo hi xs zs"
  by (auto simp: rearranged_def)

lemma rearranged_refl [simp]: "rearranged lo hi xs xs"
  by (simp add: rearranged_def)

lemma vswap_rearranged:
  assumes "vswap xs i j = Inr ys" "lo \<le> i" "i \<le> hi" "lo \<le> j" "j \<le> hi"
  shows "rearranged lo hi xs ys"
  using assms by (auto simp: rearranged_def vswap_Inr mset_swap nth_list_update)

lemma partition_round:
  assumes inv: "part_inv lo hi p xs i j" and "i < j"
  shows "\<exists>j1 i1 ys. scan_down p xs i j = Inr j1 \<and> scan_up p xs i j1 = Inr i1 \<and> vswap xs i1 j1 = Inr ys \<and>
    part_inv lo hi p ys i1 j1 \<and> rearranged lo hi xs ys"
proof -
  note I = inv [unfolded part_inv_def]
  obtain j1 where j1: "scan_down p xs i j = Inr j1" "\<forall>l. j1 < l \<and> l \<le> j \<longrightarrow> p \<le> xs ! nat l"
    using scan_down_total [of i j xs p] I by auto
  have bj: "i \<le> j1" "j1 \<le> j" using scan_down_bounds [OF j1(1)] I by auto
  obtain i1 where i1: "scan_up p xs i j1 = Inr i1" "\<forall>l. i \<le> l \<and> l < i1 \<longrightarrow> xs ! nat l \<le> p"
    using scan_up_total [of i j1 xs p] I bj by auto
  have bi: "i \<le> i1" "i1 \<le> j1" using scan_up_bounds [OF i1(1) bj(1)] by auto
  let ?ys = "xs[nat i1 := xs ! nat j1, nat j1 := xs ! nat i1]"
  have sw: "vswap xs i1 j1 = Inr ?ys" using I bi bj by (auto simp: vswap_Inr)
  have below: "xs ! nat l \<le> p" if "lo \<le> l" "l < i1" for l
    using that I i1(2) by (cases "l \<le> i") auto
  have above: "p \<le> xs ! nat l" if "j1 < l" "l \<le> hi" for l
    using that I j1(2) by (cases "l \<le> j") auto
  have at_j1: "xs ! nat j1 \<le> p"
    using scan_down_stops [OF j1(1)] I bj(1) by (cases "i < j1") (auto simp: vget_Inr)
  have at_i1: "p < xs ! nat i1" if "i1 < j1"
    using scan_up_stops [OF i1(1) that] by (auto simp: vget_Inr)
  have lo: "lo \<noteq> i1" if "i1 < j1" using at_i1 [OF that] I by auto
  have nth: "?ys ! nat l = (if l = j1 then xs ! nat i1 else if l = i1 then xs ! nat j1 else xs ! nat l)"
    if "0 \<le> l" for l
    using that I bi bj by (auto simp: nth_list_update nat_eq_iff)
  have "part_inv lo hi p ?ys i1 j1"
    unfolding part_inv_def
  proof (intro conjI allI impI)
    show "?ys ! nat lo = p" using nth [of lo] I lo bi bj by (cases "i1 = j1") auto
    show "?ys ! nat l \<le> p" if "lo \<le> l \<and> l \<le> i1" for l
      using that nth [of l] below [of l] at_j1 I bi by (cases "l = i1") auto
    show "p \<le> ?ys ! nat l" if "j1 < l \<and> l \<le> hi" for l
      using that nth [of l] above [of l] I bi by auto
  qed (use I bi bj in auto)
  moreover have "rearranged lo hi xs ?ys" by (rule vswap_rearranged [OF sw]) (use I bi bj in auto)
  ultimately show ?thesis using j1(1) i1(1) sw by blast
qed

lemma partition_loop_correct:
  "part_inv lo hi p xs i j \<Longrightarrow>
   \<exists>ys l. partition_loop p xs i j = Inr (ys, l) \<and> part_inv lo hi p ys l l \<and> rearranged lo hi xs ys"
proof (induction p xs i j rule: partition_loop.induct)
  case (1 p xs i j)
  show ?case
  proof (cases "i < j")
    case True
    obtain j1 i1 zs where r: "scan_down p xs i j = Inr j1" "scan_up p xs i j1 = Inr i1" "vswap xs i1 j1 = Inr zs"
      "part_inv lo hi p zs i1 j1" "rearranged lo hi xs zs"
      using partition_round [OF 1(2) True] by blast
    obtain ys l where ys: "partition_loop p zs i1 j1 = Inr (ys, l)" "part_inv lo hi p ys l l" "rearranged lo hi zs ys"
      using 1(1) [OF True r(1-3) r(4)] by blast
    have "partition_loop p xs i j = Inr (ys, l)" using True r ys by (subst partition_loop.simps) simp
    then show ?thesis using ys(2) rearranged_trans [OF r(5) ys(3)] by blast
  next
    case False
    then have "i = j" using 1(2) by (auto simp: part_inv_def)
    then show ?thesis using 1(2) by (subst partition_loop.simps) auto
  qed
qed

text \<open>A vector whose elements between \<open>lo\<close> and \<open>hi\<close> are rearranged, as a concatenation.\<close>

lemma rearranged_middle:
  assumes "rearranged (int (length pre)) (int (length pre + length seg) - 1) (pre @ seg @ post) ys"
  shows "\<exists>seg'. ys = pre @ seg' @ post \<and> mset seg' = mset seg"
proof -
  let ?n = "length pre" and ?m = "length pre + length seg"
  have len: "length ys = ?m + length post" using assms by (simp add: rearranged_def)
  have "take ?n ys = pre"
    by (rule nth_equalityI) (use assms len in \<open>auto simp: rearranged_def nth_append\<close>)
  moreover have "drop ?m ys = post"
  proof (rule nth_equalityI)
    fix k assume "k < length (drop ?m ys)"
    then have k: "k < length post" using len by simp
    have "ys ! (?m + k) = (pre @ seg @ post) ! (?m + k)"
      using assms k unfolding rearranged_def by (auto simp del: nth_append_length_plus)
    also have "\<dots> = post ! k" by (simp add: nth_append)
    finally show "drop ?m ys ! k = post ! k" using len k by simp
  qed (use len in simp)
  moreover have "ys = take ?n ys @ take (length seg) (drop ?n ys) @ drop ?m ys"
    by (metis append_take_drop_id drop_drop add.commute)
  ultimately have ys: "ys = pre @ take (length seg) (drop ?n ys) @ post" by simp
  have "mset ys = mset (pre @ seg @ post)" using assms by (simp add: rearranged_def)
  then have "mset (take (length seg) (drop ?n ys)) = mset seg" using ys by (metis add_left_cancel add_right_cancel mset_append)
  then show ?thesis using ys by blast
qed

lemma partition_step:
  assumes "seg = p # rest" "rest \<noteq> []"
  shows "\<exists>xs1 i A B. partition_loop p (pre @ seg @ post) (int (length pre)) (int (length pre + length seg) - 1) = Inr (xs1, i) \<and>
    vswap xs1 (int (length pre)) i = Inr (pre @ (A @ p # B) @ post) \<and> i = int (length pre + length A) \<and>
    mset (A @ p # B) = mset seg \<and> (\<forall>a\<in>set A. a \<le> p) \<and> (\<forall>b\<in>set B. p \<le> b)"
proof -
  let ?lo = "int (length pre)" and ?hi = "int (length pre + length seg) - 1" and ?xs = "pre @ seg @ post"
  have "part_inv ?lo ?hi p ?xs ?lo ?hi"
    using assms by (auto simp: part_inv_def nth_append)
  then obtain ys i where ys: "partition_loop p ?xs ?lo ?hi = Inr (ys, i)" "part_inv ?lo ?hi p ys i i" "rearranged ?lo ?hi ?xs ys"
    using partition_loop_correct by blast
  note I = ys(2) [unfolded part_inv_def]
  have low: "ys ! m \<le> p" if "length pre \<le> m" "int m \<le> i" for m
    using I that spec [where x = "int m"] by (metis nat_int of_nat_le_iff)
  have high: "p \<le> ys ! m" if "i < int m" "m < length pre + length seg" for m
  proof -
    have "int m \<le> ?hi" using that(2) by linarith
    then show ?thesis using I that(1) by (metis nat_int)
  qed
  let ?zs = "ys[nat ?lo := ys ! nat i, nat i := ys ! nat ?lo]"
  have sw: "vswap ys ?lo i = Inr ?zs" using I by (auto simp: vswap_Inr)
  have "rearranged ?lo ?hi ?xs ?zs"
    by (rule rearranged_trans [OF ys(3) vswap_rearranged [OF sw]]) (use I in auto)
  then obtain sg where sg: "?zs = pre @ sg @ post" "mset sg = mset seg" using rearranged_middle by blast
  have lsg: "length sg = length seg" using sg(2) by (metis size_mset)
  let ?k = "nat i - length pre"
  have k: "?k < length sg" "nat i = length pre + ?k" using I lsg assms by auto
  have at: "sg ! m = ?zs ! (length pre + m)" if "m < length sg" for m using that sg(1) by (simp add: nth_append)
  have zs: "?zs ! m = (if m = nat i then p else if m = length pre then ys ! nat i else ys ! m)" if "m < length ys" for m
    using that I by (auto simp: nth_list_update)
  have lys: "length ys = length pre + length sg + length post" using ys(3) lsg by (simp add: rearranged_def)
  have "sg ! ?k = p" using at [OF k(1)] zs [of "nat i"] k lys by simp
  then have split: "sg = take ?k sg @ p # drop (Suc ?k) sg" using k(1) by (metis id_take_nth_drop)
  have A: "a \<le> p" if a: "a \<in> set (take ?k sg)" for a
  proof -
    obtain m where m: "m < ?k" "m < length sg" "a = sg ! m" using a by (auto simp: in_set_conv_nth)
    have "ys ! nat i \<le> p" "ys ! (length pre + m) \<le> p"
      using low [of "nat i"] low [of "length pre + m"] m k I by auto
    then show ?thesis using m k lys at [OF m(2)] zs [of "length pre + m"] by auto
  qed
  have B: "p \<le> b" if b: "b \<in> set (drop (Suc ?k) sg)" for b
  proof -
    obtain m where m: "m < length sg - Suc ?k" "b = sg ! (Suc ?k + m)" using b by (auto simp: in_set_conv_nth)
    have "p \<le> ys ! (length pre + (Suc ?k + m))"
      by (rule high) (use m k lsg in auto)
    then show ?thesis using m k lys at [of "Suc ?k + m"] zs [of "length pre + (Suc ?k + m)"] by auto
  qed
  have "i = int (length pre + length (take ?k sg))" using k I by auto
  then show ?thesis using ys(1) sw sg split A B by (intro exI [of _ ys] exI [of _ i] exI [of _ "take ?k sg"] exI [of _ "drop (Suc ?k) sg"]) auto
qed

section \<open>Correctness of sorting and selection\<close>

lemma sort_partition:
  assumes "mset (A @ p # B) = mset seg" "\<forall>a\<in>set A. a \<le> p" "\<forall>b\<in>set B. p \<le> b"
  shows "sort seg = sort A @ p # sort B"
proof (rule properties_for_sort [symmetric, THEN sym])
  show "mset (sort A @ p # sort B) = mset seg" using assms(1) by simp
  show "sorted (sort A @ p # sort B)" using assms(2,3) by (force simp: sorted_append)
qed

lemma pivot_lengths: "mset (A @ p # B) = mset seg \<Longrightarrow> length A + length B + 1 = length seg"
  by (metis add.commute add_Suc_right length_Cons length_append plus_1_eq_Suc size_mset)

lemma quickSort_segment:
  "quickSort (pre @ seg @ post) (int (length pre)) (int (length pre + length seg) - 1) = Inr (pre @ sort seg @ post)"
proof (induction "length seg" arbitrary: pre seg post rule: less_induct)
  case less
  show ?case
  proof (cases "length seg \<le> 1")
    case True
    then have "sort seg = seg" by (cases seg) auto
    with True show ?thesis by (subst quickSort.simps) simp
  next
    case False
    then obtain p rest where seg: "seg = p # rest" "rest \<noteq> []" by (cases seg) auto
    from partition_step [OF seg, of pre post] obtain xs1 i A B where
      part: "partition_loop p (pre @ seg @ post) (int (length pre)) (int (length pre + length seg) - 1) = Inr (xs1, i)"
      and sw: "vswap xs1 (int (length pre)) i = Inr (pre @ (A @ p # B) @ post)"
      and i: "i = int (length pre + length A)"
      and AB: "mset (A @ p # B) = mset seg" "\<forall>a\<in>set A. a \<le> p" "\<forall>b\<in>set B. p \<le> b" by blast
    note len = pivot_lengths [OF AB(1)]
    have "quickSort (pre @ A @ (p # B @ post)) (int (length pre)) (int (length pre + length A) - 1) = Inr (pre @ sort A @ (p # B @ post))"
      by (rule less) (use len in simp)
    then have 1: "quickSort (pre @ (A @ p # B) @ post) (int (length pre)) (i - 1) = Inr ((pre @ sort A @ [p]) @ B @ post)"
      using i by simp
    have "quickSort ((pre @ sort A @ [p]) @ B @ post) (int (length (pre @ sort A @ [p]))) (int (length (pre @ sort A @ [p]) + length B) - 1) =
        Inr ((pre @ sort A @ [p]) @ sort B @ post)"
      by (rule less) (use len in simp)
    moreover have e: "int (length (pre @ sort A @ [p])) = i + 1" "int (length (pre @ sort A @ [p]) + length B) - 1 = int (length pre + length seg) - 1"
      using i len by simp_all
    ultimately have "quickSort ((pre @ sort A @ [p]) @ B @ post) (i + 1) (int (length pre + length seg) - 1) =
        Inr ((pre @ sort A @ [p]) @ sort B @ post)" by (simp only: e)
    then have 2: "quickSort ((pre @ sort A @ [p]) @ B @ post) (i + 1) (int (length pre + length seg) - 1) = Inr (pre @ sort seg @ post)"
      using sort_partition [OF AB] by simp
    have "vget (pre @ seg @ post) (int (length pre)) = Inr p" using seg by (simp add: vget_def nth_append)
    then show ?thesis using part sw 1 2 False by (subst quickSort.simps) simp
  qed
qed

text \<open>C20: Quick sort is sorting: called on a whole vector it returns, without any access outside the
  vector, exactly the sorted permutation of its elements.\<close>

theorem quickSort_is_sort:
  "quickSort nums 0 (int (length nums) - 1) = Inr (sort nums)"
  using quickSort_segment [of "[]" nums "[]"] by simp

text \<open>The element \<open>k\<close> of the vector is in its place: nothing larger before it, nothing smaller behind it.\<close>

definition selected :: "'a::linorder list \<Rightarrow> nat \<Rightarrow> bool" where
  "selected xs k \<longleftrightarrow> (\<forall>a\<in>set (take k xs). a \<le> xs ! k) \<and> (\<forall>b\<in>set (drop (Suc k) xs). xs ! k \<le> b)"

lemma selected_right:
  assumes "\<forall>a\<in>set A. a \<le> p" "\<forall>b\<in>set B. p \<le> b" "selected B m" "m < length B"
  shows "selected (A @ p # B) (length A + Suc m)"
proof -
  have "p \<le> B ! m" using assms(2,4) by simp
  moreover have "\<forall>a\<in>set A. a \<le> B ! m" using assms(1) calculation by force
  ultimately show ?thesis using assms(3) unfolding selected_def by (auto simp: nth_append)
qed

lemma selected_left:
  assumes "\<forall>a\<in>set A. a \<le> p" "\<forall>b\<in>set B. p \<le> b" "selected A m" "m < length A"
  shows "selected (A @ p # B) m"
proof -
  have "A ! m \<le> p" using assms(1,4) by simp
  moreover have "\<forall>b\<in>set B. A ! m \<le> b" using assms(2) calculation by force
  ultimately show ?thesis using assms(3,4) unfolding selected_def by (auto simp: nth_append)
qed

text \<open>One call of the helper: the pivot \<open>p\<close> lands between \<open>A\<close> and \<open>B\<close>.\<close>

lemma topkhelper_unfold:
  assumes "1 < length seg"
  shows "\<exists>A p B. mset (A @ p # B) = mset seg \<and> (\<forall>a\<in>set A. a \<le> p) \<and> (\<forall>b\<in>set B. p \<le> b) \<and>
    topkhelper (pre @ seg @ post) k (int (length pre)) (int (length pre + length seg) - 1) =
      (let i = int (length pre + length A) in
       if i < k then topkhelper ((pre @ A @ [p]) @ B @ post) k (int (length (pre @ A @ [p]))) (int (length (pre @ A @ [p]) + length B) - 1)
       else if k < i then topkhelper (pre @ A @ (p # B @ post)) k (int (length pre)) (int (length pre + length A) - 1)
       else Inr (pre @ (A @ p # B) @ post))"
proof -
  obtain p rest where seg: "seg = p # rest" "rest \<noteq> []" using assms by (cases seg) auto
  from partition_step [OF seg, of pre post] obtain xs1 i A B where
    part: "partition_loop p (pre @ seg @ post) (int (length pre)) (int (length pre + length seg) - 1) = Inr (xs1, i)"
    and sw: "vswap xs1 (int (length pre)) i = Inr (pre @ (A @ p # B) @ post)"
    and i: "i = int (length pre + length A)"
    and AB: "mset (A @ p # B) = mset seg" "\<forall>a\<in>set A. a \<le> p" "\<forall>b\<in>set B. p \<le> b" by blast
  have e: "int (length (pre @ A @ [p])) = i + 1" "int (length (pre @ A @ [p]) + length B) - 1 = int (length pre + length seg) - 1"
    using i pivot_lengths [OF AB(1)] by simp_all
  have "vget (pre @ seg @ post) (int (length pre)) = Inr p" using seg by (simp add: vget_def nth_append)
  then have "topkhelper (pre @ seg @ post) k (int (length pre)) (int (length pre + length seg) - 1) =
      (let i = int (length pre + length A) in
       if i < k then topkhelper ((pre @ A @ [p]) @ B @ post) k (int (length (pre @ A @ [p]))) (int (length (pre @ A @ [p]) + length B) - 1)
       else if k < i then topkhelper (pre @ A @ (p # B @ post)) k (int (length pre)) (int (length pre + length A) - 1)
       else Inr (pre @ (A @ p # B) @ post))"
    using part sw assms unfolding e i [symmetric] by (subst topkhelper.simps) (simp add: Let_def)
  with AB show ?thesis by blast
qed

lemma topkhelper_segment:
  "\<exists>seg'. topkhelper (pre @ seg @ post) k (int (length pre)) (int (length pre + length seg) - 1) = Inr (pre @ seg' @ post) \<and>
     mset seg' = mset seg \<and>
     (int (length pre) \<le> k \<and> k < int (length pre + length seg) \<longrightarrow> selected seg' (nat k - length pre))"
proof (induction "length seg" arbitrary: pre seg post rule: less_induct)
  case less
  show ?case
  proof (cases "length seg \<le> 1")
    case True
    have "selected seg (nat k - length pre)" if "int (length pre) \<le> k" "k < int (length pre + length seg)"
    proof -
      have "nat k - length pre = 0" using that True by linarith
      then show ?thesis using True by (cases seg) (auto simp: selected_def)
    qed
    with True show ?thesis by (subst topkhelper.simps) auto
  next
    case False
    then obtain A p B where AB: "mset (A @ p # B) = mset seg" "\<forall>a\<in>set A. a \<le> p" "\<forall>b\<in>set B. p \<le> b"
      and unf: "topkhelper (pre @ seg @ post) k (int (length pre)) (int (length pre + length seg) - 1) =
      (let i = int (length pre + length A) in
       if i < k then topkhelper ((pre @ A @ [p]) @ B @ post) k (int (length (pre @ A @ [p]))) (int (length (pre @ A @ [p]) + length B) - 1)
       else if k < i then topkhelper (pre @ A @ (p # B @ post)) k (int (length pre)) (int (length pre + length A) - 1)
       else Inr (pre @ (A @ p # B) @ post))"
      using topkhelper_unfold [of seg pre post k] by auto
    note len = pivot_lengths [OF AB(1)]
    consider "int (length pre + length A) < k" | "k < int (length pre + length A)" | "k = int (length pre + length A)" by linarith
    then show ?thesis
    proof cases
      case 1
      obtain B' where B': "topkhelper ((pre @ A @ [p]) @ B @ post) k (int (length (pre @ A @ [p]))) (int (length (pre @ A @ [p]) + length B) - 1) =
          Inr ((pre @ A @ [p]) @ B' @ post)" "mset B' = mset B"
        "k < int (length (pre @ A @ [p]) + length B) \<longrightarrow> selected B' (nat k - length (pre @ A @ [p]))"
        using less [of B "pre @ A @ [p]" post] len 1 by auto
      have "selected (A @ p # B') (nat k - length pre)" if "k < int (length pre + length seg)"
      proof -
        have "nat k - length pre = length A + Suc (nat k - length (pre @ A @ [p]))" using 1 by simp
        moreover have "\<forall>b\<in>set B'. p \<le> b" "length B' = length B" using AB(3) B'(2) by (metis set_mset_mset, metis size_mset)
        moreover have "selected B' (nat k - length (pre @ A @ [p]))" "nat k - length (pre @ A @ [p]) < length B"
          using B'(3) that 1 len by simp_all
        ultimately show ?thesis using selected_right [OF AB(2)] by metis
      qed
      then show ?thesis using unf 1 B'(1,2) AB(1) by (intro exI [of _ "A @ p # B'"]) auto
    next
      case 2
      obtain A' where A': "topkhelper (pre @ A @ (p # B @ post)) k (int (length pre)) (int (length pre + length A) - 1) = Inr (pre @ A' @ p # B @ post)"
          "mset A' = mset A" "int (length pre) \<le> k \<longrightarrow> selected A' (nat k - length pre)"
        using less [of A pre "p # B @ post"] len 2 by auto
      have "selected (A' @ p # B) (nat k - length pre)" if "int (length pre) \<le> k"
      proof -
        have "\<forall>a\<in>set A'. a \<le> p" "length A' = length A" using AB(2) A'(2) by (metis set_mset_mset, metis size_mset)
        then show ?thesis using selected_left [OF _ AB(3)] A'(3) that 2 by simp
      qed
      then show ?thesis using unf 2 A'(1,2) AB(1) by (intro exI [of _ "A' @ p # B"]) auto
    next
      case 3
      have "selected (A @ p # B) (nat k - length pre)" using 3 AB(2,3) by (simp add: selected_def nat_add_distrib)
      then show ?thesis using unf 3 AB(1) by (intro exI [of _ "A @ p # B"]) auto
    qed
  qed
qed

lemma selected_take:
  assumes "selected xs m" "m < length xs"
  shows "mset (take (Suc m) xs) = mset (take (Suc m) (sort xs))"
proof -
  have split: "xs = take m xs @ xs ! m # drop (Suc m) xs" using assms(2) by (rule id_take_nth_drop)
  have "sort xs = sort (take m xs) @ xs ! m # sort (drop (Suc m) xs)"
    by (rule sort_partition) (use split assms(1) in \<open>simp_all add: selected_def flip: split\<close>)
  then have "take (Suc m) (sort xs) = sort (take m xs) @ [xs ! m]" using assms(2) by simp
  moreover have "take (Suc m) xs = take m xs @ [xs ! m]" using assms(2) by (simp add: take_Suc_conv_app_nth)
  ultimately show ?thesis by simp
qed

lemma copy_front_take:
  "copy_front xs (int i) n = (if i + n \<le> length xs \<or> n = 0 then Inr (take n (drop i xs)) else Inl OutOfBounds)"
proof (induction n arbitrary: i)
  case (Suc n)
  have "take (Suc n) (drop i xs) = xs ! i # take n (drop (Suc i) xs)" if "i < length xs"
    using that by (simp flip: Cons_nth_drop_Suc)
  with Suc [of "Suc i"] show ?case by (auto simp: vget_def add.commute)
qed simp

text \<open>Selection: for \<open>k\<close> up to the length of the vector, \<open>topK\<close> returns, without an access outside the
  vector, \<open>k\<close> elements that are as a multiset the \<open>k\<close> smallest ones, and leaves its argument a permutation
  of what it was; for a larger \<open>k\<close> it reads past the end.\<close>

theorem topK_selects:
  assumes "0 < k"
  shows "(k \<le> length xs \<longrightarrow> (\<exists>ans ys. topK xs (int k) = Inr (ans, ys) \<and> length ans = k \<and>
      mset ans = mset (take k (sort xs)) \<and> mset ys = mset xs)) \<and>
    (length xs < k \<longrightarrow> topK xs (int k) = Inl OutOfBounds)"
proof -
  from topkhelper_segment [of "[]" xs "[]" "int k - 1"] obtain ys where
    ys: "topkhelper xs (int k - 1) 0 (int (length xs) - 1) = Inr ys" "mset ys = mset xs"
      "k \<le> length xs \<longrightarrow> selected ys (k - 1)"
    using assms by (auto simp: nat_diff_distrib)
  have len: "length ys = length xs" using ys(2) by (metis size_mset)
  have cp: "copy_front ys 0 k = (if k \<le> length xs then Inr (take k ys) else Inl OutOfBounds)"
    using copy_front_take [of ys 0 k] assms len by simp
  have "mset (take k ys) = mset (take k (sort xs))" if "k \<le> length xs"
  proof -
    have "sort ys = sort xs" using ys(2) by (metis mset_sort properties_for_sort sorted_sort)
    then show ?thesis using selected_take [of ys "k - 1"] ys(3) that assms len by simp
  qed
  then show ?thesis using ys cp len by (auto simp: topK_def)
qed

theorem topK_selects_witness:
  "\<exists>ans ys. topK [3, 0, 1, 5, 4, 7, 2, 9 :: int] 5 = Inr (ans, ys) \<and> mset ans = {#0, 1, 2, 3, 4#}"
  using topK_selects [of 5 "[3, 0, 1, 5, 4, 7, 2, 9 :: int]"] by (auto simp: add.commute)

end
