(* ===== verification/StockTree.thy ===== *)
theory StockTree
  imports Prelude
begin

text \<open>
  \<^verbatim>\<open>trivials/stock_tree_trivial.cpp\<close>: a prefix tree for stock codes and the benchmark that compares it
  with a hash map and with a table indexed by the number of a code. The nodes own their children, so the
  tree is a datatype; an index outside the ten children is the fault \<open>OutOfBounds\<close>. The three containers
  share an interface, a locale interpreted for each of them.
\<close>

section \<open>The tree\<close>

datatype StockPrefixNode = StockPrefixNode (children: "StockPrefixNode option list") (realVal: "bytes option")

definition new_StockPrefixNode :: StockPrefixNode where
  "new_StockPrefixNode = StockPrefixNode (replicate 10 None) None"

text \<open>\<open>*p - '0'\<close> as an index into \<open>children[10]\<close>; \<open>char\<close> is signed.\<close>

definition child_index :: "byte \<Rightarrow> nat res" where
  "child_index c = (let k = sint c - 48 in if 0 \<le> k \<and> k < 10 then Inr (nat k) else Inl OutOfBounds)"

text \<open>The rest \<open>p\<close> of the code ends where the terminator is.\<close>

fun find_node :: "StockPrefixNode \<Rightarrow> bytes \<Rightarrow> bool res" where
  "find_node node [] = Inr (realVal node \<noteq> None)"
| "find_node node (c # p) =
     rbind (child_index c) (\<lambda>k. case children node ! k of Some n \<Rightarrow> find_node n p | None \<Rightarrow> Inr False)"

fun insert_node :: "bytes \<Rightarrow> StockPrefixNode \<Rightarrow> bytes \<Rightarrow> StockPrefixNode res" where
  "insert_node code node [] =
     Inr (if code \<noteq> [] then StockPrefixNode (children node) (Some code) else node)"
| "insert_node code node (c # p) =
     rbind (child_index c) (\<lambda>k.
     rbind (insert_node code (case children node ! k of Some n \<Rightarrow> n | None \<Rightarrow> new_StockPrefixNode) p) (\<lambda>n.
     Inr (StockPrefixNode ((children node)[k := Some n]) (realVal node))))"

definition tree_find :: "StockPrefixNode \<Rightarrow> bytes \<Rightarrow> bool res" where
  "tree_find head code = find_node head (cstr code)"

definition tree_insert :: "bytes \<Rightarrow> StockPrefixNode \<Rightarrow> StockPrefixNode res" where
  "tree_insert code head = insert_node (cstr code) head (cstr code)"

section \<open>The benchmark\<close>

text \<open>Six digits chosen with the values of \<open>rand()\<close>.\<close>

definition alpha :: bytes where "alpha = map (\<lambda>i. 48 + word_of_nat i) [0..<10]"

definition genStockCode :: "(nat \<Rightarrow> nat) \<Rightarrow> bytes" where
  "genStockCode rand = map (\<lambda>i. alpha ! (rand i mod 10)) [0..<6]"

text \<open>\<open>atoi\<close> of a string of digits.\<close>

fun atoi :: "bytes \<Rightarrow> nat \<Rightarrow> nat" where
  "atoi [] acc = acc"
| "atoi (c # p) acc = atoi p (10 * acc + (unat c - 48))"

definition vec_insert :: "bytes \<Rightarrow> bool list \<Rightarrow> bool list res" where
  "vec_insert code v = (if atoi code 0 < length v then Inr (v[atoi code 0 := True]) else Inl OutOfBounds)"

definition vec_find :: "bool list \<Rightarrow> bytes \<Rightarrow> bool res" where
  "vec_find v code = (if atoi code 0 < length v then Inr (v ! atoi code 0) else Inl OutOfBounds)"

definition map_insert :: "bytes \<Rightarrow> (bytes \<rightharpoonup> bool) \<Rightarrow> (bytes \<rightharpoonup> bool) res" where
  "map_insert code m = Inr (m(code \<mapsto> True))"

definition map_find :: "(bytes \<rightharpoonup> bool) \<Rightarrow> bytes \<Rightarrow> bool res" where
  "map_find m code = Inr (m code \<noteq> None)"

text \<open>The loop that counts the codes a container has.\<close>

fun nfind :: "('c \<Rightarrow> bytes \<Rightarrow> bool res) \<Rightarrow> 'c \<Rightarrow> bytes list \<Rightarrow> nat res" where
  "nfind fnd c [] = Inr 0"
| "nfind fnd c (q # qs) = rbind (fnd c q) (\<lambda>b. rbind (nfind fnd c qs) (\<lambda>n. Inr (if b then Suc n else n)))"

section \<open>The interface of a container of stock codes\<close>

definition digit :: "byte \<Rightarrow> bool" where
  "digit c \<longleftrightarrow> 48 \<le> unat c \<and> unat c < 58"

text \<open>A stock code: six digits.\<close>

definition stock_code :: "bytes \<Rightarrow> bool" where
  "stock_code code \<longleftrightarrow> length code = 6 \<and> list_all digit code"

locale code_container =
  fixes empty :: 'c and ins :: "bytes \<Rightarrow> 'c \<Rightarrow> 'c res" and fnd :: "'c \<Rightarrow> bytes \<Rightarrow> bool res"
    and inv :: "'c \<Rightarrow> bool" and has :: "'c \<Rightarrow> bytes \<Rightarrow> bool"
  assumes inv_empty: "inv empty"
    and has_empty: "stock_code q \<Longrightarrow> \<not> has empty q"
    and ins_ok: "inv c \<Longrightarrow> stock_code code \<Longrightarrow> \<exists>c'. ins code c = Inr c' \<and> inv c' \<and>
      (\<forall>q. stock_code q \<longrightarrow> has c' q = (q = code \<or> has c q))"
    and fnd_has: "inv c \<Longrightarrow> stock_code q \<Longrightarrow> fnd c q = Inr (has c q)"
begin

lemma fill:
  "list_all stock_code codes \<Longrightarrow> inv c \<Longrightarrow>
   \<exists>c'. rfold ins codes c = Inr c' \<and> inv c' \<and> (\<forall>q. stock_code q \<longrightarrow> has c' q = (q \<in> set codes \<or> has c q))"
proof (induction codes arbitrary: c)
  case (Cons code codes)
  then obtain c1 where "ins code c = Inr c1" "inv c1" "\<forall>q. stock_code q \<longrightarrow> has c1 q = (q = code \<or> has c q)"
    using ins_ok by fastforce
  moreover then obtain c2 where "rfold ins codes c1 = Inr c2" "inv c2" "\<forall>q. stock_code q \<longrightarrow> has c2 q = (q \<in> set codes \<or> has c1 q)"
    using Cons by fastforce
  ultimately show ?case by auto
qed simp

lemma count:
  "inv c \<Longrightarrow> list_all stock_code qs \<Longrightarrow> nfind fnd c qs = Inr (length (filter (has c) qs))"
  by (induction qs) (auto simp: fnd_has)

text \<open>The number found is the number of queries among the inserted codes.\<close>

lemma found_count:
  assumes "list_all stock_code codes" "list_all stock_code qs"
  shows "rbind (rfold ins codes empty) (\<lambda>c. nfind fnd c qs) = Inr (length (filter (\<lambda>q. q \<in> set codes) qs))"
proof -
  obtain c where c: "rfold ins codes empty = Inr c" "inv c" "\<forall>q. stock_code q \<longrightarrow> has c q = (q \<in> set codes \<or> has empty q)"
    using fill [OF assms(1) inv_empty] by blast
  have "filter (has c) qs = filter (\<lambda>q. q \<in> set codes) qs"
    by (rule filter_cong) (use c(3) has_empty assms(2) in \<open>auto simp: list_all_iff\<close>)
  with c count [OF c(2) assms(2)] show ?thesis by simp
qed

end

section \<open>The tree as a container\<close>

inductive node_ok :: "StockPrefixNode \<Rightarrow> bool" where
  "length cs = 10 \<Longrightarrow> (\<And>n. Some n \<in> set cs \<Longrightarrow> node_ok n) \<Longrightarrow> node_ok (StockPrefixNode cs v)"

inductive_simps node_ok_simp: "node_ok (StockPrefixNode cs v)"

lemma node_okD:
  assumes "node_ok node"
  shows "length (children node) = 10" "k < 10 \<Longrightarrow> children node ! k = Some n \<Longrightarrow> node_ok n"
  using assms by (cases node; force simp: node_ok_simp in_set_conv_nth)+

lemma child_index_digit: "digit c \<Longrightarrow> child_index c = Inr (unat c - 48) \<and> unat c - 48 < 10"
proof -
  assume d: "digit c"
  have u: "uint c = int (unat c)" by simp
  have lt: "uint c < 58" using d u unfolding digit_def by linarith
  have "sint c = signed_take_bit 7 (uint c)" by (simp add: sint_uint)
  also have "\<dots> = uint c"
  proof (rule signed_take_bit_int_eq_self)
    show "- (2 ^ 7) \<le> uint c" by (rule order_trans [OF _ uint_nonnegative]) simp
    show "uint c < 2 ^ 7" using lt by simp
  qed
  also note u
  finally have s: "sint c = int (unat c)" .
  define n where "n = unat c"
  show ?thesis using d s unfolding child_index_def digit_def n_def [symmetric] by auto
qed

lemma digit_index_inj: "digit c \<Longrightarrow> digit d \<Longrightarrow> unat c - 48 = unat d - 48 \<longleftrightarrow> c = d"
  by (auto simp: digit_def word_unat_eq_iff)

lemma new_node_ok: "node_ok new_StockPrefixNode"
  by (simp add: new_StockPrefixNode_def node_ok_simp)

lemma find_new: "list_all digit q \<Longrightarrow> find_node new_StockPrefixNode q = Inr False"
  using child_index_digit by (cases q) (auto simp: new_StockPrefixNode_def)

lemma find_total: "list_all digit q \<Longrightarrow> node_ok node \<Longrightarrow> \<exists>b. find_node node q = Inr b"
proof (induction q arbitrary: node)
  case (Cons c q)
  note k = child_index_digit [of c] and ok = node_okD [OF Cons.prems(2)]
  show ?case
  proof (cases "children node ! (unat c - 48)")
    case (Some n)
    then have "node_ok n" using k ok(2) Cons.prems(1) by auto
    then show ?thesis using Some Cons k by simp
  qed (use Cons k in auto)
qed simp

lemma find_Cons:
  assumes "digit c"
  shows "find_node (StockPrefixNode cs v) (c # q) =
    (case cs ! (unat c - 48) of Some n \<Rightarrow> find_node n q | None \<Rightarrow> Inr False)"
  using child_index_digit [OF assms] by simp

text \<open>Inserting the code with the rest \<open>p\<close> below a node changes the answer for \<open>p\<close> only.\<close>

lemma insert_node_spec:
  "node_ok node \<Longrightarrow> list_all digit p \<Longrightarrow> code \<noteq> [] \<Longrightarrow>
   \<exists>n'. insert_node code node p = Inr n' \<and> node_ok n' \<and>
     (\<forall>q. list_all digit q \<longrightarrow> find_node n' q = (if q = p then Inr True else find_node node q))"
proof (induction p arbitrary: node)
  case Nil
  obtain cs v where node: "node = StockPrefixNode cs v" by (cases node)
  have "find_node (StockPrefixNode cs (Some code)) q = (if q = [] then Inr True else find_node node q)" for q
    by (cases q) (simp_all add: node)
  with Nil show ?case by (simp add: node node_ok_simp)
next
  case (Cons c p)
  obtain cs v where node: "node = StockPrefixNode cs v" by (cases node)
  let ?k = "unat c - 48"
  have c: "digit c" "child_index c = Inr ?k" "?k < 10" using Cons.prems(2) child_index_digit by auto
  have len: "length cs = 10" using Cons.prems(1) by (simp add: node node_ok_simp)
  let ?old = "case cs ! ?k of Some n \<Rightarrow> n | None \<Rightarrow> new_StockPrefixNode"
  have "node_ok ?old" using node_okD(2) [OF Cons.prems(1) c(3)] by (simp add: node new_node_ok split: option.split)
  then obtain n where n: "insert_node code ?old p = Inr n" "node_ok n"
    "\<forall>q. list_all digit q \<longrightarrow> find_node n q = (if q = p then Inr True else find_node ?old q)"
    using Cons.IH Cons.prems by auto
  let ?new = "StockPrefixNode (cs[?k := Some n]) v"
  have ok: "node_ok ?new"
    using Cons.prems(1) n(2) by (auto simp: node node_ok_simp dest!: set_update_subset_insert [THEN subsetD])
  have "find_node ?new q = (if q = c # p then Inr True else find_node node q)" if q: "list_all digit q" for q
  proof (cases q)
    case (Cons d r)
    have d: "digit d" "list_all digit r" "unat d - 48 < 10" using q Cons child_index_digit by auto
    show ?thesis
    proof (cases "d = c")
      case True
      have "find_node node (c # r) = find_node ?old r"
        using c(1) d(2) find_new by (simp only: node find_Cons) (auto split: option.split)
      then show ?thesis using True Cons n(3) d(2) len c by (simp add: find_Cons [OF c(1)] del: find_node.simps)
    next
      case False
      then have "unat d - 48 \<noteq> ?k" using digit_index_inj [OF d(1) c(1)] by simp
      then show ?thesis using False Cons d(1) by (simp add: node find_Cons del: find_node.simps)
    qed
  qed (simp add: node)
  then show ?case using c n(1) ok by (simp add: node)
qed

lemma stock_code_digits: "stock_code q \<Longrightarrow> list_all digit q \<and> cstr q = q \<and> q \<noteq> []"
proof -
  assume q: "stock_code q"
  then have "0 \<notin> set q" by (auto simp: stock_code_def list_all_iff digit_def)
  with q show ?thesis by (auto simp: stock_code_def cstr_id)
qed

interpretation tree: code_container new_StockPrefixNode tree_insert tree_find node_ok "\<lambda>n q. find_node n q = Inr True"
proof (unfold_locales, goal_cases)
  case 1
  show ?case by (rule new_node_ok)
next
  case (2 q)
  then show ?case using find_new stock_code_digits by simp
next
  case (3 node code)
  have d: "list_all digit code" "cstr code = code" "code \<noteq> []" using stock_code_digits [OF 3(2)] by auto
  from insert_node_spec [OF 3(1) d(1,3)] obtain n where n: "insert_node code node code = Inr n" "node_ok n"
    "\<forall>q. list_all digit q \<longrightarrow> find_node n q = (if q = code then Inr True else find_node node q)" by blast
  have "tree_insert code node = Inr n" using n(1) d(2) by (simp add: tree_insert_def)
  then show ?case using n(2,3) stock_code_digits by auto
next
  case (4 node q)
  then show ?case using find_total [of q node] stock_code_digits [of q] by (auto simp: tree_find_def)
qed

section \<open>The map and the table as containers\<close>

interpretation hash: code_container Map.empty map_insert map_find "\<lambda>_. True" "\<lambda>m q. m q \<noteq> None"
  by unfold_locales (auto simp: map_insert_def map_find_def)

lemma atoi_snoc: "atoi (q @ [c]) acc = 10 * atoi q acc + (unat c - 48)"
  by (induction q arbitrary: acc) simp_all

lemma atoi_bound: "list_all digit q \<Longrightarrow> atoi q 0 < 10 ^ length q"
proof (induction q rule: rev_induct)
  case (snoc c q)
  then have "atoi q 0 < 10 ^ length q" "unat c - 48 \<le> 9" by (auto simp: digit_def)
  then show ?case by (simp add: atoi_snoc)
qed simp

lemma digits_inj: "10 * a + x = 10 * b + y \<Longrightarrow> x < 10 \<Longrightarrow> y < 10 \<Longrightarrow> a = b \<and> x = (y :: nat)"
  by arith

lemma atoi_inj:
  "length p = length q \<Longrightarrow> list_all digit p \<Longrightarrow> list_all digit q \<Longrightarrow> atoi p 0 = atoi q 0 \<Longrightarrow> p = q"
proof (induction p arbitrary: q rule: rev_induct)
  case (snoc c p)
  then obtain d r where q: "q = r @ [d]" by (cases q rule: rev_cases) auto
  have c: "digit c" and d: "digit d" using snoc.prems by (simp_all add: q)
  have eq: "10 * atoi p 0 + (unat c - 48) = 10 * atoi r 0 + (unat d - 48)" using snoc.prems(4) by (simp add: q atoi_snoc)
  have "unat c - 48 < 10" "unat d - 48 < 10" using c d by (auto simp: digit_def)
  then have "atoi p 0 = atoi r 0" "unat c - 48 = unat d - 48" using digits_inj [OF eq] by blast+
  then show ?case using snoc digit_index_inj [OF c d] by (simp add: q)
qed simp

text \<open>\<open>gBoolVec\<close> has ten million entries.\<close>

interpretation table: code_container "replicate 10000000 False" vec_insert vec_find "\<lambda>v. length v = 10000000" "\<lambda>v q. v ! atoi q 0"
proof (unfold_locales, goal_cases)
  case 1
  show ?case by (rule length_replicate)
next
  case (2 q)
  then have "atoi q 0 < 10000000" using atoi_bound [of q] by (simp add: stock_code_def)
  then show ?case by (simp add: nth_replicate)
next
  case (3 v code)
  have b: "atoi q 0 < 10000000" if "stock_code q" for q using that atoi_bound [of q] by (simp add: stock_code_def)
  have inj: "atoi q 0 = atoi code 0 \<longleftrightarrow> q = code" if "stock_code q" for q
    using that 3(2) atoi_inj [of q code] by (auto simp: stock_code_def)
  have "vec_insert code v = Inr (v[atoi code 0 := True])" using b [OF 3(2)] 3(1) by (simp add: vec_insert_def)
  moreover have "v[atoi code 0 := True] ! atoi q 0 = (q = code \<or> v ! atoi q 0)" if "stock_code q" for q
    using 3(1) b [OF that] inj [OF that] by (auto simp: nth_list_update)
  ultimately show ?case using 3(1) by simp
next
  case (4 v q)
  then have "atoi q 0 < 10000000" using atoi_bound [of q] by (simp add: stock_code_def)
  then show ?case using 4 by (simp add: vec_find_def)
qed

lemma alpha_digit: "k < 10 \<Longrightarrow> digit (alpha ! k)"
  by (simp add: alpha_def digit_def unat_word_ariths unat_of_nat)

lemma genStockCode_ok: "stock_code (genStockCode rand)"
  by (simp add: stock_code_def genStockCode_def list_all_iff alpha_digit)

text \<open>C21: The three containers of the benchmark are equivalent: filled with the same random stock codes
  and asked for the same random codes, the prefix tree, the hash map and the table all find, without an
  access outside an array, exactly the queries that were inserted.\<close>

theorem containers_agree:
  fixes codes queries :: "(nat \<Rightarrow> nat) list"
  defines "cs \<equiv> map genStockCode codes" and "qs \<equiv> map genStockCode queries"
  shows "rbind (rfold tree_insert cs new_StockPrefixNode) (\<lambda>t. nfind tree_find t qs) = Inr (length (filter (\<lambda>q. q \<in> set cs) qs)) \<and>
    rbind (rfold map_insert cs Map.empty) (\<lambda>m. nfind map_find m qs) = Inr (length (filter (\<lambda>q. q \<in> set cs) qs)) \<and>
    rbind (rfold vec_insert cs (replicate 10000000 False)) (\<lambda>v. nfind vec_find v qs) = Inr (length (filter (\<lambda>q. q \<in> set cs) qs))"
proof -
  have "list_all stock_code cs" "list_all stock_code qs" by (simp_all add: cs_def qs_def list_all_iff genStockCode_ok)
  then show ?thesis using tree.found_count hash.found_count table.found_count by blast
qed

end
