(* ===== verification/UnionFind.thy ===== *)
theory UnionFind
  imports Prelude
begin

text \<open>
  \<^verbatim>\<open>trivials/union_find_trivial.cpp\<close>: a union-find set over a vector of parents. The assignments follow the
  order of evaluation of C++17: the right operand first. Before C++17 the constructor's assignment is
  unsequenced with its increment. \<open>find\<close> is recursive; \<open>fuel\<close> bounds its depth, and every acyclic vector
  has enough.
\<close>

record UnionFindSet =
  nSize :: int
  vecFat :: "int list"

text \<open>\<open>for (int i = 0; i < n; vecFat[i] = i++);\<close> with \<open>k\<close> rounds left: the old \<open>i\<close> is stored at the new one.\<close>

fun init_loop :: "nat \<Rightarrow> int \<Rightarrow> int list \<Rightarrow> int list res" where
  "init_loop 0 i v = Inr v"
| "init_loop (Suc k) i v = rbind (vset v (i + 1) i) (init_loop k (i + 1))"

definition new_UnionFindSet :: "int \<Rightarrow> UnionFindSet res" where
  "new_UnionFindSet n =
     rbind (init_loop (nat n) 0 (replicate (nat n) 0)) (\<lambda>v. Inr \<lparr>nSize = n, vecFat = v\<rparr>)"

fun uf_find :: "nat \<Rightarrow> int \<Rightarrow> int list \<Rightarrow> (int \<times> int list) res" where
  "uf_find fuel u v =
     rbind (vget v u) (\<lambda>f.
     if f = u then Inr (f, v)
     else case fuel of
       0 \<Rightarrow> Inl NonTermination
     | Suc n \<Rightarrow> rbind (uf_find n f v) (\<lambda>(r, v1). rbind (vset v1 u r) (\<lambda>v2. Inr (r, v2))))"

declare uf_find.simps [simp del]

definition unionVal :: "nat \<Rightarrow> int \<Rightarrow> int \<Rightarrow> UnionFindSet \<Rightarrow> UnionFindSet res" where
  "unionVal fuel u v s =
     rbind (uf_find fuel u (vecFat s)) (\<lambda>(a, v1).
     rbind (uf_find fuel v v1) (\<lambda>(b, v2).
     rbind (vset v2 b a) (\<lambda>v3. Inr (s\<lparr>vecFat := v3\<rparr>))))"

section \<open>Representatives\<close>

text \<open>The end of the path of parents from an element, and the length of the path.\<close>

inductive root :: "int list \<Rightarrow> nat \<Rightarrow> int \<Rightarrow> int \<Rightarrow> bool" for v where
  root_here: "vget v u = Inr u \<Longrightarrow> root v 0 u u"
| root_up: "vget v u = Inr f \<Longrightarrow> f \<noteq> u \<Longrightarrow> root v k f r \<Longrightarrow> root v (Suc k) u r"

definition represents :: "int list \<Rightarrow> int \<Rightarrow> int \<Rightarrow> bool" where
  "represents v u r \<longleftrightarrow> (\<exists>k. root v k u r)"

definition acyclic_parents :: "int list \<Rightarrow> bool" where
  "acyclic_parents v \<longleftrightarrow> (\<forall>u. 0 \<le> u \<and> u < int (length v) \<longrightarrow> (\<exists>r. represents v u r))"

lemma root_is_root: "root v k u r \<Longrightarrow> vget v r = Inr r"
  by (induction rule: root.induct)

lemma root_unique: "root v k u r \<Longrightarrow> root v l u s \<Longrightarrow> r = s"
proof (induction arbitrary: l rule: root.induct)
  case (root_here u)
  then show ?case by (auto elim: root.cases)
next
  case (root_up u f k r)
  from root_up.prems show ?case
    by (cases rule: root.cases) (use root_up in auto)
qed

lemma represents_here: "vget v r = Inr r \<Longrightarrow> represents v r r"
  unfolding represents_def by (blast intro: root_here)

lemma represents_up: "vget v u = Inr f \<Longrightarrow> represents v f r \<Longrightarrow> represents v u r"
proof (cases "f = u")
  case True
  then show "represents v f r \<Longrightarrow> ?thesis" by simp
next
  case False
  then show "vget v u = Inr f \<Longrightarrow> represents v f r \<Longrightarrow> ?thesis" unfolding represents_def by (blast intro: root_up)
qed

lemma vget_vset: "vset v u r = Inr w \<Longrightarrow> vget w y = (if y = u then Inr r else vget v y)"
  by (auto simp: vset_def vget_def nth_list_update nat_eq_iff split: if_splits)

lemma redirected: "vset v u r = Inr w \<Longrightarrow> vget v r = Inr r \<Longrightarrow> u \<noteq> r \<Longrightarrow> represents w u r"
  by (rule represents_up [of w u r]) (simp_all add: vget_vset represents_here)

text \<open>Redirecting an element to its own representative changes no representative.\<close>

lemma compression:
  assumes "root v k x s" and "represents v u r" "vset v u r = Inr w" "u \<noteq> r"
  shows "represents w x s"
proof -
  obtain l where l: "root v l u r" using assms(2) by (auto simp: represents_def)
  have r: "represents w u r" by (rule redirected [OF assms(3) root_is_root [OF l] assms(4)])
  from assms(1) show ?thesis
  proof (induction rule: root.induct)
    case (root_here x)
    show ?case
    proof (cases "x = u")
      case True
      then show ?thesis using r root_unique [OF root.root_here l] root_here by blast
    next
      case False
      then show ?thesis using root_here vget_vset [OF assms(3)] represents_here by simp
    qed
  next
    case (root_up x f k s)
    show ?case
    proof (cases "x = u")
      case True
      then show ?thesis using r root_unique [OF root.root_up [OF root_up(1-3)]] l by blast
    next
      case False
      then have "vget w x = Inr f" using root_up(1) vget_vset [OF assms(3)] by simp
      then show ?thesis using root_up.IH by (rule represents_up)
    qed
  qed
qed

text \<open>Redirecting a root to another root moves the elements it represented.\<close>

lemma linking:
  assumes "root v k x s" and "vget v u = Inr u" "vget v r = Inr r" "vset v u r = Inr w" "u \<noteq> r"
  shows "represents w x (if s = u then r else s)"
  using assms(1)
proof (induction rule: root.induct)
  case (root_here x)
  show ?case
  proof (cases "x = u")
    case True
    then show ?thesis using redirected [OF assms(4,3,5)] by simp
  next
    case False
    then show ?thesis using root_here vget_vset [OF assms(4)] represents_here by simp
  qed
next
  case (root_up x f k s)
  then have "x \<noteq> u" using assms(2) by auto
  then have "vget w x = Inr f" using root_up(1) vget_vset [OF assms(4)] by simp
  then show ?case using root_up.IH by (rule represents_up)
qed

section \<open>find and unionVal\<close>

definition same_roots :: "int list \<Rightarrow> int list \<Rightarrow> bool" where
  "same_roots v w \<longleftrightarrow> length w = length v \<and> (\<forall>x s. represents v x s \<longrightarrow> represents w x s)"

lemma uf_find_correct:
  "root v k u r \<Longrightarrow> k \<le> fuel \<Longrightarrow> \<exists>w. uf_find fuel u v = Inr (r, w) \<and> same_roots v w"
proof (induction arbitrary: fuel rule: root.induct)
  case (root_here u)
  then show ?case by (subst uf_find.simps) (simp add: same_roots_def)
next
  case (root_up u f k r)
  obtain n where n: "fuel = Suc n" "k \<le> n" using root_up.prems by (cases fuel) auto
  obtain v1 where v1: "uf_find n f v = Inr (r, v1)" "same_roots v v1" using root_up.IH [OF n(2)] by blast
  have up: "represents v u r" using root_up(1-3) unfolding represents_def by (blast intro: root.root_up)
  then have u1: "represents v1 u r" using v1(2) by (simp add: same_roots_def)
  have "u \<noteq> r" using root_up(1,2) root_is_root [OF root_up(3)] by auto
  obtain w where w: "vset v1 u r = Inr w"
    using root_up(1) v1(2) by (auto simp: vget_Inr vset_def same_roots_def)
  have "length w = length v1" using w by (auto simp: vset_def split: if_splits)
  moreover have "represents w x s" if "represents v1 x s" for x s
    using compression [OF _ u1 w \<open>u \<noteq> r\<close>] that by (auto simp: represents_def [of v1])
  ultimately have "same_roots v w" using v1(2) by (simp add: same_roots_def)
  then show ?case using root_up(1,2) n(1) v1(1) w by (subst uf_find.simps) simp
qed

lemma uf_find_fuel: "uf_find n u v = Inr x \<Longrightarrow> n \<le> m \<Longrightarrow> uf_find m u v = Inr x"
proof (induction n arbitrary: u v x m)
  case 0
  then have "vget v u = Inr u" "x = (u, v)" by (auto simp: uf_find.simps [of 0] rbind_Inr split: if_splits)
  then show ?case by (subst uf_find.simps) simp
next
  case (Suc n)
  from Suc.prems(2) obtain l where m: "m = Suc l" "n \<le> l" by (cases m) auto
  obtain f where f: "vget v u = Inr f" using Suc.prems(1) by (auto simp: uf_find.simps [of "Suc n"] rbind_Inr)
  show ?case
  proof (cases "f = u")
    case False
    then obtain y where y: "uf_find n f v = Inr y" using Suc.prems(1) f
      by (auto simp: uf_find.simps [of "Suc n"] rbind_Inr)
    then have "uf_find l f v = Inr y" using Suc.IH m(2) by blast
    then show ?thesis using Suc.prems(1) f False y m(1) by (simp add: uf_find.simps [of "Suc _"])
  qed (use Suc.prems(1) f m(1) in \<open>simp add: uf_find.simps [of "Suc _"]\<close>)
qed

lemma linked:
  assumes "represents v u a" "represents v w b" "vset v b a = Inr z" "acyclic_parents v"
  shows "acyclic_parents z \<and> (\<forall>x r. represents v x r \<longrightarrow> represents z x (if r = b then a else r))"
proof -
  have ra: "vget v a = Inr a" and rb: "vget v b = Inr b" using assms(1,2) root_is_root by (auto simp: represents_def)
  have rep: "represents z x (if r = b then a else r)" if xr: "represents v x r" for x r
  proof (cases "a = b")
    case True
    have "v[nat b := b] = v" using rb list_update_id [of v "nat b"] by (simp add: vget_Inr)
    then have "z = v" using assms(3) True by (auto simp: vset_def split: if_splits)
    then show ?thesis using xr True by auto
  next
    case False
    obtain k where "root v k x r" using xr by (auto simp: represents_def)
    then show ?thesis using linking [OF _ rb ra assms(3)] False by blast
  qed
  moreover have "length z = length v" using assms(3) by (auto simp: vset_def split: if_splits)
  ultimately show ?thesis using assms(4) unfolding acyclic_parents_def by metis
qed

text \<open>C35: Union-find: on an acyclic vector and for two elements of it, \<open>unionVal\<close> returns for every
  sufficient depth of the recursion, without an access outside the vector; the vector stays acyclic, the
  elements that the representative of the second one represented are now represented by that of the
  first, and every other element keeps its representative.\<close>

theorem unionVal_merges:
  assumes "acyclic_parents (vecFat s)" "represents (vecFat s) u a" "represents (vecFat s) v b"
  shows "\<exists>f. \<forall>fuel\<ge>f. \<exists>s'. unionVal fuel u v s = Inr s' \<and> acyclic_parents (vecFat s') \<and>
    (\<forall>x r. represents (vecFat s) x r \<longrightarrow> represents (vecFat s') x (if r = b then a else r))"
proof -
  let ?p = "vecFat s"
  obtain k where k: "root ?p k u a" using assms(2) by (auto simp: represents_def)
  obtain v1 where v1: "uf_find k u ?p = Inr (a, v1)" "same_roots ?p v1" using uf_find_correct [OF k] by blast
  obtain l where l: "root v1 l v b" using assms(3) v1(2) by (auto simp: same_roots_def represents_def [of v1])
  obtain v2 where v2: "uf_find l v v1 = Inr (b, v2)" "same_roots v1 v2" using uf_find_correct [OF l] by blast
  have same: "same_roots ?p v2" using v1(2) v2(2) by (simp add: same_roots_def)
  have r2: "represents v2 u a" "represents v2 v b" using same assms(2,3) by (simp_all add: same_roots_def)
  then obtain j where "root v2 j v b" by (auto simp: represents_def)
  then have "vget v2 b = Inr b" by (rule root_is_root)
  then obtain v3 where v3: "vset v2 b a = Inr v3" by (auto simp: vget_Inr vset_def)
  have "acyclic_parents v2" using assms(1) same by (auto simp: acyclic_parents_def same_roots_def) metis
  from linked [OF r2 v3 this] have ok: "acyclic_parents v3"
    "\<forall>x r. represents ?p x r \<longrightarrow> represents v3 x (if r = b then a else r)"
    using same by (auto simp: same_roots_def)
  have "unionVal fuel u v s = Inr (s\<lparr>vecFat := v3\<rparr>)" if "max k l \<le> fuel" for fuel
    using uf_find_fuel [OF v1(1), of fuel] uf_find_fuel [OF v2(1), of fuel] v3 that by (simp add: unionVal_def)
  with ok show ?thesis by (intro exI [of _ "max k l"]) simp
qed

theorem unionVal_merges_witness:
  "\<exists>f. \<forall>fuel\<ge>f. \<exists>s'. unionVal fuel 0 2 \<lparr>nSize = 3, vecFat = [0, 0, 1]\<rparr> = Inr s' \<and> acyclic_parents (vecFat s')"
proof -
  let ?s = "\<lparr>nSize = 3, vecFat = [0, 0, 1 :: int]\<rparr>"
  have r0: "represents (vecFat ?s) 0 0" by (rule represents_here) (simp add: vget_def)
  have r1: "represents (vecFat ?s) 1 0" by (rule represents_up [OF _ r0]) (simp add: vget_def)
  have r2: "represents (vecFat ?s) 2 0" by (rule represents_up [OF _ r1]) (simp add: vget_def)
  have "u = 0 \<or> u = 1 \<or> u = 2" if "0 \<le> u \<and> u < int (length (vecFat ?s))" for u using that by auto
  then have "acyclic_parents (vecFat ?s)" using r0 r1 r2 unfolding acyclic_parents_def by blast
  from unionVal_merges [OF this r0 r2] show ?thesis by blast
qed

text \<open>The constructor: for every positive size the loop stores past the end of the vector in its last
  round.\<close>

theorem constructor_overruns:
  "new_UnionFindSet (int (Suc n)) = Inl OutOfBounds"
proof -
  have "init_loop (Suc k) i v = Inl OutOfBounds" if "int (length v) = i + int (Suc k)" "0 \<le> i" for k i and v :: "int list"
    using that
  proof (induction k arbitrary: i v)
    case (Suc k)
    have "vset v (i + 1) i = Inr (v[nat (i + 1) := i])" using Suc.prems by (simp add: vset_def)
    moreover have "init_loop (Suc k) (i + 1) (v[nat (i + 1) := i]) = Inl OutOfBounds"
      by (rule Suc.IH) (use Suc.prems in simp_all)
    ultimately show ?case by (simp only: init_loop.simps rbind_simps)
  qed (simp add: vset_def)
  from this [of "replicate (Suc n) 0" 0 n] have "init_loop (Suc n) 0 (replicate (Suc n) 0) = Inl OutOfBounds" by simp
  then show ?thesis unfolding new_UnionFindSet_def nat_int by (simp only: rbind_simps)
qed

end
