(* ===== verification/Anet.thy ===== *)
theory Anet
  imports Prelude "HOL-Library.State_Monad" "HOL-Library.Signed_Division"
begin

unbundle bit_operations_syntax

text \<open>
  \<^verbatim>\<open>anet/anet.{h,cpp}\<close>: wrappers around the socket system calls. The operating system is a parameter: what a
  call returns, \<open>errno\<close> and the data it delivers are functions of the calls made so far. An operation is a
  state transformer over the calls made and the caller's error buffer, in the state monad.
\<close>

section \<open>The operating system\<close>

datatype sockopt =
    SO_KEEPALIVE | TCP_KEEPIDLE | TCP_KEEPINTVL | TCP_KEEPCNT | TCP_NODELAY | SO_SNDBUF
  | SO_SNDTIMEO | SO_RCVTIMEO | SO_REUSEADDR | IPV6_V6ONLY

record addrinfo =
  ai_family :: int
  ai_socktype :: int
  ai_protocol :: int
  ai_addr :: bytes

record sockaddr =
  ss_family :: int
  ss_addr :: bytes
  ss_port :: u16

text \<open>\<open>SysGetaddrinfo\<close> carries the node, the service, the flags and the family of the hints.\<close>

datatype syscall =
    SysGetfl int | SysSetfl int i32 | SysSetsockopt int sockopt "int list"
  | SysSocket int int int | SysBind int bytes | SysConnect int bytes | SysListen int int | SysAccept int
  | SysClose int | SysRead int int | SysWrite int bytes int | SysChmod bytes int
  | SysGetaddrinfo "bytes option" "bytes option" int int | SysFreeaddrinfo
  | SysGetpeername int | SysGetsockname int

type_synonym trace = "syscall list"

text \<open>A successful \<open>getaddrinfo\<close> delivers at least one address. \<open>inet_ntop\<close> is a function of family and
  address.\<close>

record os =
  os_ret :: "trace \<Rightarrow> syscall \<Rightarrow> int"
  os_errno :: "trace \<Rightarrow> int"
  os_addrs :: "trace \<Rightarrow> addrinfo \<times> addrinfo list"
  os_sockaddr :: "trace \<Rightarrow> sockaddr"
  os_data :: "trace \<Rightarrow> bytes"
  os_strerror :: "int \<Rightarrow> bytes"
  os_gai_strerror :: "int \<Rightarrow> bytes"
  os_ntop :: "int \<Rightarrow> bytes \<Rightarrow> bytes"

record anet_st =
  calls :: trace
  err :: "bytes option"

type_synonym 'a anet = "(anet_st, 'a) state"

definition sys :: "os \<Rightarrow> syscall \<Rightarrow> int anet" where
  "sys K c = State (\<lambda>s. (os_ret K (calls s) c, s\<lparr>calls := calls s @ [c]\<rparr>))"

text \<open>A value the system delivers with the calls so far.\<close>

definition look :: "(trace \<Rightarrow> 'a) \<Rightarrow> 'a anet" where
  "look f = State (\<lambda>s. (f (calls s), s))"

definition ANET_OK :: int where "ANET_OK = 0"
definition ANET_ERR :: int where "ANET_ERR = -1"
definition ANET_ERR_LEN :: nat where "ANET_ERR_LEN = 256"
definition ANET_NONE :: int where "ANET_NONE = 0"
definition ANET_IP_ONLY :: int where "ANET_IP_ONLY = 1"
definition O_NONBLOCK :: i32 where "O_NONBLOCK = 2048"
definition AF_UNSPEC :: int where "AF_UNSPEC = 0"
definition AF_LOCAL :: int where "AF_LOCAL = 1"
definition AF_INET :: int where "AF_INET = 2"
definition AF_INET6 :: int where "AF_INET6 = 10"
definition SOCK_STREAM :: int where "SOCK_STREAM = 1"
definition AI_PASSIVE :: int where "AI_PASSIVE = 1"
definition AI_NUMERICHOST :: int where "AI_NUMERICHOST = 4"
definition EINTR :: int where "EINTR = 4"
definition EINPROGRESS :: int where "EINPROGRESS = 115"

text \<open>\<open>vsnprintf(err, ANET_ERR_LEN, ...)\<close>: truncated; nothing when the buffer is null.\<close>

definition anetSetError :: "bytes \<Rightarrow> unit anet" where
  "anetSetError txt = State (\<lambda>s. ((), s\<lparr>err := map_option (\<lambda>_. take (ANET_ERR_LEN - 1) txt) (err s)\<rparr>))"

text \<open>\<open>anetSetError(err, "...: %s", strerror(errno)); return ANET_ERR;\<close>\<close>

definition fail_errno :: "os \<Rightarrow> string \<Rightarrow> string \<Rightarrow> int anet" where
  "fail_errno K pre post = do {
     e \<leftarrow> look (os_errno K);
     anetSetError (lit pre @ os_strerror K e @ lit post);
     State_Monad.return ANET_ERR }"

section \<open>Socket options\<close>

definition anetSetBlock :: "os \<Rightarrow> int \<Rightarrow> int \<Rightarrow> int anet" where
  "anetSetBlock K fd non_block = do {
     flags \<leftarrow> sys K (SysGetfl fd);
     if flags = -1 then fail_errno K ''fcntl(F_GETFL): '' ''''
     else do {
       let f = (if non_block \<noteq> 0 then (word_of_int flags OR O_NONBLOCK) else (word_of_int flags AND NOT O_NONBLOCK));
       r \<leftarrow> sys K (SysSetfl fd f);
       if r = -1 then fail_errno K ''fcntl(F_SETFL,O_NONBLOCK): '' '''' else State_Monad.return ANET_OK } }"

definition anetNonBlock :: "os \<Rightarrow> int \<Rightarrow> int anet" where "anetNonBlock K fd = anetSetBlock K fd 1"
definition anetBlock :: "os \<Rightarrow> int \<Rightarrow> int anet" where "anetBlock K fd = anetSetBlock K fd 0"

text \<open>One \<open>setsockopt\<close> with its error branch. The calls for the keep-alive times test for any negative
  result.\<close>

definition setopt :: "os \<Rightarrow> int \<Rightarrow> sockopt \<Rightarrow> int list \<Rightarrow> string \<Rightarrow> int anet" where
  "setopt K fd opt val pre = do {
     r \<leftarrow> sys K (SysSetsockopt fd opt val);
     if r = -1 then fail_errno K pre '''' else State_Monad.return ANET_OK }"

definition setopt_neg :: "os \<Rightarrow> int \<Rightarrow> sockopt \<Rightarrow> int list \<Rightarrow> string \<Rightarrow> int anet" where
  "setopt_neg K fd opt val pre = do {
     r \<leftarrow> sys K (SysSetsockopt fd opt val);
     if r < 0 then fail_errno K pre [char_of (10 :: nat)] else State_Monad.return ANET_OK }"

definition anetKeepAlive :: "os \<Rightarrow> int \<Rightarrow> int \<Rightarrow> int anet" where
  "anetKeepAlive K fd interval = do {
     a \<leftarrow> setopt K fd SO_KEEPALIVE [1] ''setsockopt SO_KEEPALIVE: '';
     if a = ANET_ERR then State_Monad.return ANET_ERR else do {
     b \<leftarrow> setopt_neg K fd TCP_KEEPIDLE [interval] ''setsockopt TCP_KEEPIDLE: '';
     if b = ANET_ERR then State_Monad.return ANET_ERR else do {
     let val = interval sdiv 3;
     c \<leftarrow> setopt_neg K fd TCP_KEEPINTVL [if val = 0 then 1 else val] ''setsockopt TCP_KEEPINTVL: '';
     if c = ANET_ERR then State_Monad.return ANET_ERR else
     setopt_neg K fd TCP_KEEPCNT [3] ''setsockopt TCP_KEEPCNT: '' } } }"

definition anetSetTcpNoDelay :: "os \<Rightarrow> int \<Rightarrow> int \<Rightarrow> int anet" where
  "anetSetTcpNoDelay K fd val = setopt K fd TCP_NODELAY [val] ''setsockopt TCP_NODELAY: ''"

definition anetEnableTcpNoDelay :: "os \<Rightarrow> int \<Rightarrow> int anet" where
  "anetEnableTcpNoDelay K fd = anetSetTcpNoDelay K fd 1"

definition anetDisableTcpNoDelay :: "os \<Rightarrow> int \<Rightarrow> int anet" where
  "anetDisableTcpNoDelay K fd = anetSetTcpNoDelay K fd 0"

definition anetSetSendBuffer :: "os \<Rightarrow> int \<Rightarrow> int \<Rightarrow> int anet" where
  "anetSetSendBuffer K fd buffsize = setopt K fd SO_SNDBUF [buffsize] ''setsockopt SO_SNDBUF: ''"

definition anetTcpKeepAlive :: "os \<Rightarrow> int \<Rightarrow> int anet" where
  "anetTcpKeepAlive K fd = setopt K fd SO_KEEPALIVE [1] ''setsockopt SO_KEEPALIVE: ''"

text \<open>The two members of the \<open>timeval\<close>.\<close>

definition timeval_ms :: "int \<Rightarrow> int list" where
  "timeval_ms ms = [ms sdiv 1000, (ms smod 1000) * 1000]"

definition anetSendTimeout :: "os \<Rightarrow> int \<Rightarrow> int \<Rightarrow> int anet" where
  "anetSendTimeout K fd ms = setopt K fd SO_SNDTIMEO (timeval_ms ms) ''setsockopt SO_SNDTIMEO: ''"

definition anetRecvTimeout :: "os \<Rightarrow> int \<Rightarrow> int \<Rightarrow> int anet" where
  "anetRecvTimeout K fd ms = setopt K fd SO_RCVTIMEO (timeval_ms ms) ''setsockopt SO_RCVTIMEO: ''"

definition anetSetReuseAddr :: "os \<Rightarrow> int \<Rightarrow> int anet" where
  "anetSetReuseAddr K fd = setopt K fd SO_REUSEADDR [1] ''setsockopt SO_REUSEADDR: ''"

section \<open>Names\<close>

text \<open>\<open>inet_ntop\<close> into a buffer: it writes nothing when the text and its terminator do not fit.\<close>

definition inet_ntop :: "os \<Rightarrow> int \<Rightarrow> bytes \<Rightarrow> nat \<Rightarrow> bytes option" where
  "inet_ntop K fam addr len = (let t = os_ntop K fam addr in if length t < len then Some t else None)"

definition anetGenericResolve :: "os \<Rightarrow> bytes \<Rightarrow> nat \<Rightarrow> int \<Rightarrow> (int \<times> bytes option) anet" where
  "anetGenericResolve K host ipbuf_len flags = do {
     rv \<leftarrow> sys K (SysGetaddrinfo (Some host) None (if flags AND ANET_IP_ONLY \<noteq> 0 then AI_NUMERICHOST else 0) AF_UNSPEC);
     if rv \<noteq> 0 then do { anetSetError (os_gai_strerror K rv); State_Monad.return (ANET_ERR, None) }
     else do {
       (info, _) \<leftarrow> look (os_addrs K);
       let ip = (if ai_family info = AF_INET then inet_ntop K AF_INET (ai_addr info) ipbuf_len
                 else inet_ntop K AF_INET6 (ai_addr info) ipbuf_len);
       _ \<leftarrow> sys K SysFreeaddrinfo;
       State_Monad.return (ANET_OK, ip) } }"

definition anetResolve :: "os \<Rightarrow> bytes \<Rightarrow> nat \<Rightarrow> (int \<times> bytes option) anet" where
  "anetResolve K host ipbuf_len = anetGenericResolve K host ipbuf_len ANET_NONE"

definition anetResolveIP :: "os \<Rightarrow> bytes \<Rightarrow> nat \<Rightarrow> (int \<times> bytes option) anet" where
  "anetResolveIP K host ipbuf_len = anetGenericResolve K host ipbuf_len ANET_IP_ONLY"

section \<open>Connecting\<close>

definition close_fd :: "os \<Rightarrow> int \<Rightarrow> unit anet" where
  "close_fd K s = do { _ \<leftarrow> sys K (SysClose s); State_Monad.return () }"

definition anetCreateSocket :: "os \<Rightarrow> int \<Rightarrow> int anet" where
  "anetCreateSocket K domain = do {
     s \<leftarrow> sys K (SysSocket domain SOCK_STREAM 0);
     if s = -1 then fail_errno K ''creating socket: '' ''''
     else do {
       r \<leftarrow> anetSetReuseAddr K s;
       if r = ANET_ERR then do { close_fd K s; State_Monad.return ANET_ERR }
       else State_Monad.return s } }"

definition ANET_CONNECT_NONE :: int where "ANET_CONNECT_NONE = 0"
definition ANET_CONNECT_NONBLOCK :: int where "ANET_CONNECT_NONBLOCK = 1"
definition ANET_CONNECT_BE_BINDING :: int where "ANET_CONNECT_BE_BINDING = 2"

text \<open>\<open>snprintf(portstr, 6, "%d", port)\<close>.\<close>

definition port_text :: "int \<Rightarrow> bytes" where
  "port_text port = take 5 (lit (show_int port))"

fun bind_loop :: "os \<Rightarrow> int \<Rightarrow> addrinfo list \<Rightarrow> bool anet" where
  "bind_loop K s [] = State_Monad.return False"
| "bind_loop K s (b # bs) = do {
     r \<leftarrow> sys K (SysBind s (ai_addr b));
     if r \<noteq> -1 then State_Monad.return True else bind_loop K s bs }"

text \<open>Binding to the source address, if there is one: whether the code goes on (or to \<open>error\<close>).\<close>

definition bind_source :: "os \<Rightarrow> int \<Rightarrow> bytes option \<Rightarrow> bool anet" where
  "bind_source K s source_addr =
     (case source_addr of
        None \<Rightarrow> State_Monad.return True
      | Some src \<Rightarrow> do {
          rv \<leftarrow> sys K (SysGetaddrinfo (Some src) None 0 AF_UNSPEC);
          if rv \<noteq> 0 then do { anetSetError (os_gai_strerror K rv); State_Monad.return False }
          else do {
            (b, bs) \<leftarrow> look (os_addrs K);
            bound \<leftarrow> bind_loop K s (b # bs);
            _ \<leftarrow> sys K SysFreeaddrinfo;
            if bound then State_Monad.return True
            else do { _ \<leftarrow> fail_errno K ''bind: '' ''''; State_Monad.return False } } })"

text \<open>The label \<open>error\<close>: close the socket and return \<open>ANET_ERR\<close>.\<close>

definition goto_error :: "os \<Rightarrow> int \<Rightarrow> int anet" where
  "goto_error K s = do { close_fd K s; State_Monad.return ANET_ERR }"

text \<open>The loop over the addresses up to the label \<open>end\<close>; the value is \<open>s\<close> there.\<close>

fun connect_loop :: "os \<Rightarrow> bytes option \<Rightarrow> int \<Rightarrow> addrinfo list \<Rightarrow> int anet" where
  "connect_loop K source_addr flags [] = fail_errno K ''creating socket: '' ''''"
| "connect_loop K source_addr flags (p # ps) = do {
     s \<leftarrow> sys K (SysSocket (ai_family p) (ai_socktype p) (ai_protocol p));
     if s = -1 then connect_loop K source_addr flags ps
     else do {
       r \<leftarrow> anetSetReuseAddr K s;
       if r = ANET_ERR then goto_error K s
       else do {
         nb \<leftarrow> (if flags AND ANET_CONNECT_NONBLOCK \<noteq> 0 then anetNonBlock K s else State_Monad.return ANET_OK);
         if nb \<noteq> ANET_OK then goto_error K s
         else do {
           bound \<leftarrow> bind_source K s source_addr;
           if \<not> bound then goto_error K s
           else do {
             c \<leftarrow> sys K (SysConnect s (ai_addr p));
             if c = -1 then do {
               e \<leftarrow> look (os_errno K);
               if e = EINPROGRESS \<and> flags AND ANET_CONNECT_NONBLOCK \<noteq> 0 then State_Monad.return s
               else do { close_fd K s; connect_loop K source_addr flags ps } }
             else State_Monad.return s } } } } }"

text \<open>One call without its recursive call at the end.\<close>

definition connect_once :: "os \<Rightarrow> bytes \<Rightarrow> int \<Rightarrow> bytes option \<Rightarrow> int \<Rightarrow> int anet" where
  "connect_once K addr port source_addr flags = do {
     rv \<leftarrow> sys K (SysGetaddrinfo (Some addr) (Some (port_text port)) 0 AF_UNSPEC);
     if rv \<noteq> 0 then do { anetSetError (os_gai_strerror K rv); State_Monad.return ANET_ERR }
     else do {
       (p, ps) \<leftarrow> look (os_addrs K);
       s \<leftarrow> connect_loop K source_addr flags (p # ps);
       _ \<leftarrow> sys K SysFreeaddrinfo;
       State_Monad.return s } }"

text \<open>The early return for a failed \<open>getaddrinfo\<close> skips the retry; the retry itself has no source address
  and so does not retry again.\<close>

definition anetTcpGenericConnect :: "os \<Rightarrow> bytes \<Rightarrow> int \<Rightarrow> bytes option \<Rightarrow> int \<Rightarrow> int anet" where
  "anetTcpGenericConnect K addr port source_addr flags = do {
     rv \<leftarrow> sys K (SysGetaddrinfo (Some addr) (Some (port_text port)) 0 AF_UNSPEC);
     if rv \<noteq> 0 then do { anetSetError (os_gai_strerror K rv); State_Monad.return ANET_ERR }
     else do {
       (p, ps) \<leftarrow> look (os_addrs K);
       s \<leftarrow> connect_loop K source_addr flags (p # ps);
       _ \<leftarrow> sys K SysFreeaddrinfo;
       if s = ANET_ERR \<and> source_addr \<noteq> None \<and> flags AND ANET_CONNECT_BE_BINDING \<noteq> 0
       then connect_once K addr port None flags
       else State_Monad.return s } }"

definition anetTcpConnect :: "os \<Rightarrow> bytes \<Rightarrow> int \<Rightarrow> int anet" where
  "anetTcpConnect K addr port = anetTcpGenericConnect K addr port None ANET_CONNECT_NONE"

definition anetTcpNonBlockConnect :: "os \<Rightarrow> bytes \<Rightarrow> int \<Rightarrow> int anet" where
  "anetTcpNonBlockConnect K addr port = anetTcpGenericConnect K addr port None ANET_CONNECT_NONBLOCK"

definition anetTcpNonBlockBindConnect :: "os \<Rightarrow> bytes \<Rightarrow> int \<Rightarrow> bytes option \<Rightarrow> int anet" where
  "anetTcpNonBlockBindConnect K addr port source_addr =
     anetTcpGenericConnect K addr port source_addr ANET_CONNECT_NONBLOCK"

definition anetTcpNonBlockBestEffortBindConnect :: "os \<Rightarrow> bytes \<Rightarrow> int \<Rightarrow> bytes option \<Rightarrow> int anet" where
  "anetTcpNonBlockBestEffortBindConnect K addr port source_addr =
     anetTcpGenericConnect K addr port source_addr (ANET_CONNECT_NONBLOCK OR ANET_CONNECT_BE_BINDING)"

text \<open>\<open>sun_path\<close> after \<open>strncpy\<close> of 107 characters into 108; \<open>u\<close> is the byte that is not written.\<close>

definition sun_path :: "byte \<Rightarrow> bytes \<Rightarrow> bytes" where
  "sun_path u path = (let p = take 107 (cstr path) in p @ replicate (107 - length p) 0 @ [u])"

definition anetUnixGenericConnect :: "os \<Rightarrow> byte \<Rightarrow> bytes \<Rightarrow> int \<Rightarrow> int anet" where
  "anetUnixGenericConnect K u path flags = do {
     s \<leftarrow> anetCreateSocket K AF_LOCAL;
     if s = ANET_ERR then State_Monad.return ANET_ERR
     else do {
       nb \<leftarrow> (if flags AND ANET_CONNECT_NONBLOCK \<noteq> 0 then anetNonBlock K s else State_Monad.return ANET_OK);
       if nb \<noteq> ANET_OK then do { close_fd K s; State_Monad.return ANET_ERR }
       else do {
         c \<leftarrow> sys K (SysConnect s (sun_path u path));
         if c = -1 then do {
           e \<leftarrow> look (os_errno K);
           if e = EINPROGRESS \<and> flags AND ANET_CONNECT_NONBLOCK \<noteq> 0 then State_Monad.return s
           else do { _ \<leftarrow> fail_errno K ''connect: '' ''''; close_fd K s; State_Monad.return ANET_ERR } }
         else State_Monad.return s } } }"

definition anetUnixConnect :: "os \<Rightarrow> byte \<Rightarrow> bytes \<Rightarrow> int anet" where
  "anetUnixConnect K u path = anetUnixGenericConnect K u path ANET_CONNECT_NONE"

definition anetUnixNonBlockConnect :: "os \<Rightarrow> byte \<Rightarrow> bytes \<Rightarrow> int anet" where
  "anetUnixNonBlockConnect K u path = anetUnixGenericConnect K u path ANET_CONNECT_NONBLOCK"

section \<open>Reading and writing\<close>

text \<open>The loops end when \<open>count\<close> bytes are through, at an end of file or an error; \<open>fuel\<close> bounds the
  rounds. The first component is what the caller's buffer received, or was sent.\<close>

fun anetRead :: "os \<Rightarrow> nat \<Rightarrow> int \<Rightarrow> int \<Rightarrow> int \<Rightarrow> bytes \<Rightarrow> (bytes \<times> int) option anet" where
  "anetRead K fuel fd count totlen buf =
     (if totlen \<noteq> count then
        (case fuel of
           0 \<Rightarrow> State_Monad.return None
         | Suc n \<Rightarrow> do {
             nread \<leftarrow> sys K (SysRead fd (count - totlen));
             d \<leftarrow> look (os_data K);
             if nread = 0 then State_Monad.return (Some (buf, totlen))
             else if nread = -1 then State_Monad.return (Some (buf, -1))
             else anetRead K n fd count (totlen + nread) (buf @ d) })
      else State_Monad.return (Some (buf, totlen)))"

fun anetWrite :: "os \<Rightarrow> nat \<Rightarrow> int \<Rightarrow> bytes \<Rightarrow> int \<Rightarrow> int \<Rightarrow> int option anet" where
  "anetWrite K fuel fd buf count totlen =
     (if totlen \<noteq> count then
        (case fuel of
           0 \<Rightarrow> State_Monad.return None
         | Suc n \<Rightarrow> do {
             nwritten \<leftarrow> sys K (SysWrite fd (drop (nat totlen) buf) (count - totlen));
             if nwritten = 0 then State_Monad.return (Some totlen)
             else if nwritten = -1 then State_Monad.return (Some (-1))
             else anetWrite K n fd buf count (totlen + nwritten) })
      else State_Monad.return (Some totlen))"

declare anetRead.simps [simp del] anetWrite.simps [simp del]

section \<open>Serving\<close>

definition anetListen :: "os \<Rightarrow> int \<Rightarrow> bytes \<Rightarrow> int \<Rightarrow> int anet" where
  "anetListen K s sa backlog = do {
     b \<leftarrow> sys K (SysBind s sa);
     if b = -1 then do { _ \<leftarrow> fail_errno K ''bind: '' ''''; close_fd K s; State_Monad.return ANET_ERR }
     else do {
       l \<leftarrow> sys K (SysListen s backlog);
       if l = -1 then do { _ \<leftarrow> fail_errno K ''listen: '' ''''; close_fd K s; State_Monad.return ANET_ERR }
       else State_Monad.return ANET_OK } }"

definition anetV6Only :: "os \<Rightarrow> int \<Rightarrow> int anet" where
  "anetV6Only K s = do {
     r \<leftarrow> setopt K s IPV6_V6ONLY [1] ''setsockopt: '';
     if r = ANET_ERR then do { close_fd K s; State_Monad.return ANET_ERR }
     else State_Monad.return ANET_OK }"

fun server_loop :: "os \<Rightarrow> int \<Rightarrow> int \<Rightarrow> addrinfo list \<Rightarrow> int anet" where
  "server_loop K af backlog [] = do {
     e \<leftarrow> look (os_errno K);
     anetSetError (lit ''unable to bind socket, errno: '' @ lit (show_int e));
     State_Monad.return ANET_ERR }"
| "server_loop K af backlog (p # ps) = do {
     s \<leftarrow> sys K (SysSocket (ai_family p) (ai_socktype p) (ai_protocol p));
     if s = -1 then server_loop K af backlog ps
     else do {
       v \<leftarrow> (if af = AF_INET6 then anetV6Only K s else State_Monad.return ANET_OK);
       if v = ANET_ERR then goto_error K s
       else do {
         r \<leftarrow> anetSetReuseAddr K s;
         if r = ANET_ERR then goto_error K s
         else do {
           l \<leftarrow> anetListen K s (ai_addr p) backlog;
           State_Monad.return (if l = ANET_ERR then ANET_ERR else s) } } } }"

definition anetTcpServer_af :: "os \<Rightarrow> int \<Rightarrow> bytes option \<Rightarrow> int \<Rightarrow> int \<Rightarrow> int anet" where
  "anetTcpServer_af K port bindaddr af backlog = do {
     rv \<leftarrow> sys K (SysGetaddrinfo bindaddr (Some (port_text port)) AI_PASSIVE af);
     if rv \<noteq> 0 then do { anetSetError (os_gai_strerror K rv); State_Monad.return ANET_ERR }
     else do {
       (p, ps) \<leftarrow> look (os_addrs K);
       s \<leftarrow> server_loop K af backlog (p # ps);
       _ \<leftarrow> sys K SysFreeaddrinfo;
       State_Monad.return s } }"

definition anetTcpServer :: "os \<Rightarrow> int \<Rightarrow> bytes option \<Rightarrow> int \<Rightarrow> int anet" where
  "anetTcpServer K port bindaddr backlog = anetTcpServer_af K port bindaddr AF_INET backlog"

definition anetTcp6Server :: "os \<Rightarrow> int \<Rightarrow> bytes option \<Rightarrow> int \<Rightarrow> int anet" where
  "anetTcp6Server K port bindaddr backlog = anetTcpServer_af K port bindaddr AF_INET6 backlog"

definition anetUnixServer :: "os \<Rightarrow> bytes \<Rightarrow> int \<Rightarrow> int \<Rightarrow> int anet" where
  "anetUnixServer K path perm backlog = do {
     s \<leftarrow> anetCreateSocket K AF_LOCAL;
     if s = ANET_ERR then State_Monad.return ANET_ERR
     else do {
       l \<leftarrow> anetListen K s (sun_path 0 path) backlog;
       if l = ANET_ERR then State_Monad.return ANET_ERR
       else do {
         (if perm \<noteq> 0 then do { _ \<leftarrow> sys K (SysChmod (cstr (sun_path 0 path)) perm); State_Monad.return () }
          else State_Monad.return ());
         State_Monad.return s } } }"

text \<open>\<open>accept\<close> is repeated while it is interrupted; \<open>fuel\<close> bounds the repetitions.\<close>

fun anetGenericAccept :: "os \<Rightarrow> nat \<Rightarrow> int \<Rightarrow> int option anet" where
  "anetGenericAccept K fuel s = do {
     fd \<leftarrow> sys K (SysAccept s);
     if fd = -1 then do {
       e \<leftarrow> look (os_errno K);
       if e = EINTR then (case fuel of 0 \<Rightarrow> State_Monad.return None | Suc n \<Rightarrow> anetGenericAccept K n s)
       else do { r \<leftarrow> fail_errno K ''accept: '' ''''; State_Monad.return (Some r) } }
     else State_Monad.return (Some fd) }"

declare anetGenericAccept.simps [simp del]

text \<open>What the functions below store through \<open>ip\<close> and \<open>port\<close>, when these are not null.\<close>

definition name_of :: "os \<Rightarrow> sockaddr \<Rightarrow> int \<Rightarrow> nat \<Rightarrow> bytes option \<times> int" where
  "name_of K sa fam ip_len = (inet_ntop K fam (ss_addr sa) ip_len, int (unat (ss_port sa)))"

definition anetTcpAccept :: "os \<Rightarrow> nat \<Rightarrow> int \<Rightarrow> nat \<Rightarrow> (int \<times> (bytes option \<times> int) option) option anet" where
  "anetTcpAccept K fuel s ip_len = do {
     r \<leftarrow> anetGenericAccept K fuel s;
     case r of
       None \<Rightarrow> State_Monad.return None
     | Some fd \<Rightarrow>
         if fd = -1 then State_Monad.return (Some (ANET_ERR, None))
         else do {
           sa \<leftarrow> look (os_sockaddr K);
           State_Monad.return (Some (fd, Some (name_of K sa (if ss_family sa = AF_INET then AF_INET else AF_INET6) ip_len))) } }"

definition anetUnixAccept :: "os \<Rightarrow> nat \<Rightarrow> int \<Rightarrow> int option anet" where
  "anetUnixAccept K fuel s = do {
     r \<leftarrow> anetGenericAccept K fuel s;
     State_Monad.return (map_option (\<lambda>fd. if fd = -1 then ANET_ERR else fd) r) }"

text \<open>The label \<open>error\<close> of \<open>anetPeerToString\<close>: a question mark if it fits.\<close>

definition unknown_peer :: "nat \<Rightarrow> bytes option \<times> int" where
  "unknown_peer ip_len = (if 2 \<le> ip_len then Some (lit ''?'') else if ip_len = 1 then Some [] else None, 0)"

definition anetPeerToString :: "os \<Rightarrow> int \<Rightarrow> nat \<Rightarrow> (int \<times> bytes option \<times> int) anet" where
  "anetPeerToString K fd ip_len = do {
     r \<leftarrow> sys K (SysGetpeername fd);
     sa \<leftarrow> look (os_sockaddr K);
     State_Monad.return
       (if r = -1 \<or> ip_len = 0 then (-1, unknown_peer ip_len)
        else if ss_family sa = AF_INET then (0, name_of K sa AF_INET ip_len)
        else if ss_family sa = AF_INET6 then (0, name_of K sa AF_INET6 ip_len)
        else if ss_family sa = AF_LOCAL then (0, (Some (take ip_len (lit ''/unixsocket'')), 0))
        else (-1, unknown_peer ip_len)) }"

text \<open>\<open>snprintf\<close> truncates what it stores and returns the full length.\<close>

definition addr_text :: "bytes \<Rightarrow> int \<Rightarrow> bytes" where
  "addr_text ip port =
     (if 58 \<in> set ip then lit ''['' @ ip @ lit '']:'' else ip @ lit '':'') @ lit (show_int port)"

definition anetFormatAddr :: "nat \<Rightarrow> bytes \<Rightarrow> int \<Rightarrow> bytes \<times> int" where
  "anetFormatAddr buf_len ip port = (take (buf_len - 1) (addr_text ip port), int (length (addr_text ip port)))"

text \<open>\<open>char ip[INET6_ADDRSTRLEN]\<close>: the name functions leave it uninitialised (\<open>u\<close>) when they store nothing.\<close>

definition INET6_ADDRSTRLEN :: nat where "INET6_ADDRSTRLEN = 46"

definition anetFormatPeer :: "os \<Rightarrow> bytes \<Rightarrow> int \<Rightarrow> nat \<Rightarrow> (bytes \<times> int) anet" where
  "anetFormatPeer K u fd buf_len = do {
     (_, ip, port) \<leftarrow> anetPeerToString K fd INET6_ADDRSTRLEN;
     State_Monad.return (anetFormatAddr buf_len (case ip of Some t \<Rightarrow> t | None \<Rightarrow> u) port) }"

definition anetSockName :: "os \<Rightarrow> int \<Rightarrow> nat \<Rightarrow> (int \<times> bytes option \<times> int) anet" where
  "anetSockName K fd ip_len = do {
     r \<leftarrow> sys K (SysGetsockname fd);
     sa \<leftarrow> look (os_sockaddr K);
     State_Monad.return
       (if r = -1 then (-1, (Some (lit ''?''), 0))
        else if ss_family sa = AF_INET then (0, name_of K sa AF_INET ip_len)
        else (0, name_of K sa AF_INET6 ip_len)) }"

definition anetFormatSock :: "os \<Rightarrow> bytes \<Rightarrow> int \<Rightarrow> nat \<Rightarrow> (bytes \<times> int) anet" where
  "anetFormatSock K u fd fmt_len = do {
     (_, ip, port) \<leftarrow> anetSockName K fd INET6_ADDRSTRLEN;
     State_Monad.return (anetFormatAddr fmt_len (case ip of Some t \<Rightarrow> t | None \<Rightarrow> u) port) }"

section \<open>Descriptors\<close>

text \<open>The descriptors that are open after a sequence of calls, starting with those of \<open>fds\<close>; closing one
  that is not open is an error.\<close>

fun descriptors :: "os \<Rightarrow> trace \<Rightarrow> syscall list \<Rightarrow> int list \<Rightarrow> int list option" where
  "descriptors K h [] fds = Some fds"
| "descriptors K h (c # cs) fds =
     (case c of
        SysSocket _ _ _ \<Rightarrow> descriptors K (h @ [c]) cs (if os_ret K h c = -1 then fds else os_ret K h c # fds)
      | SysClose s \<Rightarrow> if s \<in> set fds then descriptors K (h @ [c]) cs (remove1 s fds) else None
      | _ \<Rightarrow> descriptors K (h @ [c]) cs fds)"

lemma descriptors_append:
  "descriptors K h (cs @ ds) fds = (case descriptors K h cs fds of None \<Rightarrow> None | Some fds' \<Rightarrow> descriptors K (h @ cs) ds fds')"
  by (induction cs arbitrary: h fds) (auto split: syscall.split option.split)

text \<open>An operation started with the open descriptors \<open>fds\<close> ends with result and open descriptors in \<open>Q\<close>.\<close>

definition owns :: "os \<Rightarrow> int list \<Rightarrow> 'a anet \<Rightarrow> ('a \<Rightarrow> int list \<Rightarrow> bool) \<Rightarrow> bool" where
  "owns K fds m Q \<longleftrightarrow> (\<forall>s r s'. run_state m s = (r, s') \<longrightarrow>
     (\<exists>new fds'. calls s' = calls s @ new \<and> descriptors K (calls s) new fds = Some fds' \<and> Q r fds'))"

lemma owns_bind:
  assumes "owns K fds m Q" and "\<And>r fds'. Q r fds' \<Longrightarrow> owns K fds' (f r) R"
  shows "owns K fds (m \<bind> f) R"
  unfolding owns_def
proof (intro allI impI)
  fix s r s'
  assume run: "run_state (m \<bind> f) s = (r, s')"
  obtain x s1 where x: "run_state m s = (x, s1)" by (cases "run_state m s")
  then have f: "run_state (f x) s1 = (r, s')" using run by simp
  obtain n1 g1 where 1: "calls s1 = calls s @ n1" "descriptors K (calls s) n1 fds = Some g1" "Q x g1"
    using assms(1) x unfolding owns_def by blast
  obtain n2 g2 where 2: "calls s' = calls s1 @ n2" "descriptors K (calls s1) n2 g1 = Some g2" "R r g2"
    using assms(2) [OF 1(3)] f unfolding owns_def by blast
  show "\<exists>new fds'. calls s' = calls s @ new \<and> descriptors K (calls s) new fds = Some fds' \<and> R r fds'"
    using 1 2 by (intro exI [of _ "n1 @ n2"] exI [of _ g2]) (simp add: descriptors_append)
qed

lemma owns_return: "Q x fds \<Longrightarrow> owns K fds (State_Monad.return x) Q"
  by (auto simp: owns_def)

lemma owns_look: "(\<And>x. Q x fds) \<Longrightarrow> owns K fds (look f) Q"
  by (auto simp: owns_def look_def)

lemma owns_setError: "Q () fds \<Longrightarrow> owns K fds (anetSetError t) Q"
  by (auto simp: owns_def anetSetError_def)

lemma owns_if: "(b \<Longrightarrow> owns K fds m Q) \<Longrightarrow> (\<not> b \<Longrightarrow> owns K fds n Q) \<Longrightarrow> owns K fds (if b then m else n) Q"
  by simp

lemma owns_weaken: "owns K fds m Q \<Longrightarrow> (\<And>r g. Q r g \<Longrightarrow> R r g) \<Longrightarrow> owns K fds m R"
  unfolding owns_def by blast

text \<open>A call that neither opens nor closes.\<close>

fun plain_call :: "syscall \<Rightarrow> bool" where
  "plain_call (SysSocket _ _ _) = False" | "plain_call (SysClose _) = False" | "plain_call _ = True"

lemma owns_sys: "plain_call c \<Longrightarrow> (\<And>r. Q r fds) \<Longrightarrow> owns K fds (sys K c) Q"
  by (cases c) (auto simp: owns_def sys_def)

lemma owns_socket:
  assumes "Q (-1) fds" and "\<And>s. s \<noteq> -1 \<Longrightarrow> Q s (s # fds)"
  shows "owns K fds (sys K (SysSocket a b c)) Q"
  using assms by (auto simp: owns_def sys_def)

lemma owns_close: "s \<in> set fds \<Longrightarrow> Q () (remove1 s fds) \<Longrightarrow> owns K fds (close_fd K s) Q"
  unfolding close_fd_def by (auto simp: owns_def sys_def)

text \<open>The contract of a function that returns a new descriptor or \<open>ANET_ERR\<close>, and that of one that leaves
  the descriptors alone.\<close>

definition new_fd :: "int list \<Rightarrow> int \<Rightarrow> int list \<Rightarrow> bool" where
  "new_fd fds r g \<longleftrightarrow> g = (if r = ANET_ERR then fds else r # fds)"

definition keeps :: "os \<Rightarrow> 'a anet \<Rightarrow> bool" where
  "keeps K m \<longleftrightarrow> (\<forall>fds. owns K fds m (\<lambda>r g. g = fds))"

lemma keeps_intros:
  "keeps K (State_Monad.return x)" "keeps K (look f)" "keeps K (anetSetError t)" "plain_call c \<Longrightarrow> keeps K (sys K c)"
  "keeps K m \<Longrightarrow> (\<And>x. keeps K (k x)) \<Longrightarrow> keeps K (m \<bind> k)"
  unfolding keeps_def by (auto intro: owns_return owns_look owns_setError owns_sys owns_bind)

lemma keeps_fail: "keeps K (fail_errno K a b)"
  unfolding fail_errno_def by (intro keeps_intros)

lemma fail_errno_result: "owns K fds (fail_errno K a b) (\<lambda>r g. r = ANET_ERR \<and> g = fds)"
  unfolding fail_errno_def
  by (rule owns_bind [where Q = "\<lambda>_ g. g = fds"] owns_look owns_setError owns_return | simp)+

lemma keeps_setopt: "keeps K (setopt K fd opt v t)"
  unfolding setopt_def by (auto intro!: keeps_intros keeps_fail)

lemma keeps_SetBlock: "keeps K (anetSetBlock K fd b)"
  unfolding anetSetBlock_def Let_def by (auto intro!: keeps_intros keeps_fail)

lemma keeps_NonBlock: "keeps K (anetNonBlock K fd)"
  by (simp add: anetNonBlock_def keeps_SetBlock)

lemma keeps_ReuseAddr: "keeps K (anetSetReuseAddr K fd)"
  by (simp add: anetSetReuseAddr_def keeps_setopt)

lemma keeps_bind_loop: "keeps K (bind_loop K s bs)"
  by (induction bs) (auto intro!: keeps_intros)

lemma keeps_bind_source: "keeps K (bind_source K s src)"
  unfolding bind_source_def
  by (auto intro!: keeps_intros keeps_fail keeps_bind_loop split: option.split)

lemma owns_keeps: "keeps K m \<Longrightarrow> (\<And>r. Q r fds) \<Longrightarrow> owns K fds m Q"
  unfolding keeps_def by (rule owns_weaken [of K fds m "\<lambda>r g. g = fds"]) auto

lemma owns_keeps_bind: "keeps K m \<Longrightarrow> (\<And>x. owns K fds (f x) R) \<Longrightarrow> owns K fds (m \<bind> f) R"
  by (rule owns_bind [where Q = "\<lambda>_ g. g = fds"]) (auto intro: owns_keeps)

lemma goto_error_fd: "owns K (s # fds) (goto_error K s) (new_fd fds)"
  unfolding goto_error_def
  by (rule owns_bind [where Q = "\<lambda>_ g. g = fds"]) (auto intro!: owns_close owns_return simp: new_fd_def)

lemma close_then_fail: "owns K (s # fds) (do { close_fd K s; State_Monad.return ANET_ERR }) (new_fd fds)"
  using goto_error_fd by (simp add: goto_error_def)

lemma return_fd: "s \<noteq> ANET_ERR \<Longrightarrow> owns K (s # fds) (State_Monad.return s) (new_fd fds)"
  by (rule owns_return) (simp add: new_fd_def)

lemma owns_socket_bind:
  assumes "owns K fds (f (-1)) R" and "\<And>s. s \<noteq> -1 \<Longrightarrow> owns K (s # fds) (f s) R"
  shows "owns K fds (sys K (SysSocket a b c) \<bind> f) R"
  by (rule owns_bind [where Q = "\<lambda>s g. (s = -1 \<and> g = fds) \<or> (s \<noteq> -1 \<and> g = s # fds)"])
    (use assms in \<open>auto intro!: owns_socket\<close>)

lemma fail_new_fd: "owns K fds (fail_errno K a b) (new_fd fds)"
  by (rule owns_weaken [OF fail_errno_result]) (simp add: new_fd_def)

lemmas fd_rules = owns_keeps_bind owns_socket_bind goto_error_fd close_then_fail return_fd fail_new_fd owns_if
  keeps_intros keeps_fail keeps_setopt keeps_NonBlock keeps_ReuseAddr keeps_bind_loop keeps_bind_source

lemma connect_loop_fd: "owns K fds (connect_loop K src flags ps) (new_fd fds)"
proof (induction ps)
  case (Cons p ps)
  have retry: "owns K (s # fds) (do { close_fd K s; connect_loop K src flags ps }) (new_fd fds)" for s
    by (rule owns_bind [where Q = "\<lambda>_ g. g = fds"]) (auto intro!: owns_close Cons)
  have nb: "keeps K (if b then anetNonBlock K s else State_Monad.return ANET_OK)" for b s
    by (simp add: keeps_intros keeps_NonBlock)
  show ?case unfolding connect_loop.simps
  proof (rule owns_socket_bind)
    fix s :: int
    assume s: "s \<noteq> -1"
    then have ret: "owns K (s # fds) (State_Monad.return s) (new_fd fds)" by (intro return_fd) (simp add: ANET_ERR_def)
    show "owns K (s # fds) (if s = -1 then connect_loop K src flags ps else do {
       r \<leftarrow> anetSetReuseAddr K s;
       if r = ANET_ERR then goto_error K s
       else do {
         nb \<leftarrow> (if flags AND ANET_CONNECT_NONBLOCK \<noteq> 0 then anetNonBlock K s else State_Monad.return ANET_OK);
         if nb \<noteq> ANET_OK then goto_error K s
         else do {
           bound \<leftarrow> bind_source K s src;
           if \<not> bound then goto_error K s
           else do {
             c \<leftarrow> sys K (SysConnect s (ai_addr p));
             if c = -1 then do {
               e \<leftarrow> look (os_errno K);
               if e = EINPROGRESS \<and> flags AND ANET_CONNECT_NONBLOCK \<noteq> 0 then State_Monad.return s
               else do { close_fd K s; connect_loop K src flags ps } }
             else State_Monad.return s } } } }) (new_fd fds)"
      unfolding if_not_P [OF s]
      by (rule owns_keeps_bind keeps_ReuseAddr owns_if goto_error_fd nb keeps_bind_source ret retry keeps_intros plain_call.simps | simp)+
  qed (simp add: Cons)
qed (simp add: fail_new_fd)

lemma free_then_return: "owns K fds m (new_fd g) \<Longrightarrow>
  owns K fds (m \<bind> (\<lambda>s. sys K SysFreeaddrinfo \<bind> (\<lambda>_. State_Monad.return s))) (new_fd g)"
  by (rule owns_bind [where Q = "new_fd g"]) (auto intro!: owns_keeps_bind keeps_intros owns_return)

lemma error_then_fail: "owns K fds (anetSetError t \<bind> (\<lambda>_. State_Monad.return ANET_ERR)) (new_fd fds)"
  by (rule owns_keeps_bind) (auto intro!: keeps_intros owns_return simp: new_fd_def)

text \<open>The shape of the functions that resolve an address first.\<close>

lemma resolve_fd:
  assumes "plain_call q" and "\<And>p ps. owns K fds (body p ps) (new_fd fds)"
  shows "owns K fds (do { rv \<leftarrow> sys K q;
      if rv \<noteq> 0 then do { anetSetError (f rv); State_Monad.return ANET_ERR }
      else do { (p, ps) \<leftarrow> look g; body p ps } }) (new_fd fds)"
proof (rule owns_keeps_bind)
  fix rv
  have "owns K fds (look g \<bind> (\<lambda>(p, ps). body p ps)) (new_fd fds)"
    by (rule owns_keeps_bind [OF keeps_intros(2)]) (simp add: assms(2) split: prod.split)
  then show "owns K fds (if rv \<noteq> 0 then anetSetError (f rv) \<bind> (\<lambda>_. State_Monad.return ANET_ERR)
      else look g \<bind> (\<lambda>(p, ps). body p ps)) (new_fd fds)"
    using error_then_fail by simp
qed (use assms(1) in \<open>simp add: keeps_intros(4)\<close>)

lemma connect_once_fd: "owns K fds (connect_once K addr port src flags) (new_fd fds)"
  unfolding connect_once_def by (rule resolve_fd) (simp_all only: plain_call.simps free_then_return connect_loop_fd)

lemma connect_retry_fd:
  "owns K fds (do { s \<leftarrow> connect_loop K src flags ps; _ \<leftarrow> sys K SysFreeaddrinfo;
     if s = ANET_ERR \<and> src \<noteq> None \<and> flags AND ANET_CONNECT_BE_BINDING \<noteq> 0 then connect_once K addr port None flags
     else State_Monad.return s }) (new_fd fds)"
proof (rule owns_bind [OF connect_loop_fd], rule owns_keeps_bind)
  fix s g
  assume g: "new_fd fds s g"
  then have "s = ANET_ERR \<Longrightarrow> g = fds" by (simp add: new_fd_def)
  then show "owns K g (if s = ANET_ERR \<and> src \<noteq> None \<and> flags AND ANET_CONNECT_BE_BINDING \<noteq> 0
      then connect_once K addr port None flags else State_Monad.return s) (new_fd fds)"
    using connect_once_fd g by (auto intro: owns_return)
qed (simp add: keeps_intros)

lemma GenericConnect_fd: "owns K fds (anetTcpGenericConnect K addr port src flags) (new_fd fds)"
  unfolding anetTcpGenericConnect_def by (rule resolve_fd) (simp_all only: plain_call.simps connect_retry_fd)

lemma CreateSocket_fd: "owns K fds (anetCreateSocket K domain) (new_fd fds)"
  unfolding anetCreateSocket_def by (auto intro!: fd_rules simp: ANET_ERR_def [symmetric])

lemma fail_close_fd: "owns K (s # fds) (do { _ \<leftarrow> fail_errno K a b; close_fd K s; State_Monad.return ANET_ERR }) (new_fd fds)"
  by (rule owns_keeps_bind [OF keeps_fail close_then_fail])

text \<open>Going on with the socket that \<open>anetCreateSocket\<close> returned.\<close>

lemma created_fd:
  assumes "\<And>s. s \<noteq> ANET_ERR \<Longrightarrow> owns K (s # fds) (f s) (new_fd fds)"
  shows "owns K fds (anetCreateSocket K domain \<bind> (\<lambda>s. if s = ANET_ERR then State_Monad.return ANET_ERR else f s)) (new_fd fds)"
proof (rule owns_bind [OF CreateSocket_fd])
  fix s g
  assume "new_fd fds s g"
  then show "owns K g (if s = ANET_ERR then State_Monad.return ANET_ERR else f s) (new_fd fds)"
    using assms by (auto simp: new_fd_def intro!: owns_return)
qed

lemma UnixConnect_fd: "owns K fds (anetUnixGenericConnect K u path flags) (new_fd fds)"
  unfolding anetUnixGenericConnect_def
  by (rule created_fd)
    (rule owns_keeps_bind owns_if close_then_fail fail_close_fd return_fd keeps_intros keeps_NonBlock
      | assumption | simp add: keeps_intros keeps_NonBlock)+

text \<open>\<open>anetListen\<close> closes the socket itself when it fails.\<close>

lemma Listen_fd: "owns K (s # fds) (anetListen K s sa backlog) (\<lambda>r g. g = (if r = ANET_ERR then fds else s # fds))"
proof -
  have fail: "owns K (s # fds) (do { _ \<leftarrow> fail_errno K a b; close_fd K s; State_Monad.return ANET_ERR })
      (\<lambda>r g. g = (if r = ANET_ERR then fds else s # fds))" for a b
    by (rule owns_keeps_bind [OF keeps_fail], rule owns_bind [where Q = "\<lambda>_ g. g = fds"])
      (auto intro!: owns_close owns_return)
  show ?thesis unfolding anetListen_def
    by (auto intro!: owns_keeps_bind keeps_intros owns_if fail owns_return simp: ANET_OK_def ANET_ERR_def [symmetric] simp del: One_nat_def)
      (simp add: ANET_ERR_def)
qed

text \<open>The server functions: for \<open>AF_INET\<close> the socket is returned or closed once.\<close>

lemma listen_then_return:
  assumes "s \<noteq> ANET_ERR"
  shows "owns K (s # fds) (anetListen K s sa backlog \<bind> (\<lambda>l. State_Monad.return (if l = ANET_ERR then ANET_ERR else s))) (new_fd fds)"
  by (rule owns_bind [OF Listen_fd]) (use assms in \<open>auto intro!: owns_return simp: new_fd_def\<close>)

lemma server_loop_fd: "af \<noteq> AF_INET6 \<Longrightarrow> owns K fds (server_loop K af backlog ps) (new_fd fds)"
proof (induction ps)
  case Nil
  then show ?case
    by (simp, intro owns_keeps_bind keeps_intros owns_return) (simp add: new_fd_def)
next
  case (Cons p ps)
  note IH = Cons.IH [OF Cons.prems]
  show ?case unfolding server_loop.simps
  proof (rule owns_socket_bind)
    fix s :: int
    assume "s \<noteq> -1"
    then have s: "s \<noteq> ANET_ERR" by (simp add: ANET_ERR_def)
    show "owns K (s # fds) (if s = -1 then server_loop K af backlog ps else do {
       v \<leftarrow> (if af = AF_INET6 then anetV6Only K s else State_Monad.return ANET_OK);
       if v = ANET_ERR then goto_error K s
       else do {
         r \<leftarrow> anetSetReuseAddr K s;
         if r = ANET_ERR then goto_error K s
         else do {
           l \<leftarrow> anetListen K s (ai_addr p) backlog;
           State_Monad.return (if l = ANET_ERR then ANET_ERR else s) } } }) (new_fd fds)"
      unfolding if_not_P [OF \<open>s \<noteq> -1\<close>] if_not_P [OF Cons.prems]
      by (rule owns_keeps_bind keeps_intros(1) keeps_ReuseAddr owns_if goto_error_fd listen_then_return s)+
  qed (simp add: IH)
qed

lemma inet_is_not_inet6: "AF_INET \<noteq> AF_INET6"
  by (simp add: AF_INET_def AF_INET6_def)

lemma TcpServer_fd: "owns K fds (anetTcpServer K port bindaddr backlog) (new_fd fds)"
  unfolding anetTcpServer_def anetTcpServer_af_def
  by (rule resolve_fd) (simp_all only: plain_call.simps free_then_return server_loop_fd [OF inet_is_not_inet6])

lemma UnixServer_fd: "owns K fds (anetUnixServer K path perm backlog) (new_fd fds)"
  unfolding anetUnixServer_def
proof (rule created_fd)
  fix s :: int
  assume s: "s \<noteq> ANET_ERR"
  have ch: "keeps K (if perm \<noteq> 0 then do { _ \<leftarrow> sys K (SysChmod p perm); State_Monad.return () } else State_Monad.return ())" for p
    by (simp add: keeps_intros)
  show "owns K (s # fds) (do {
       l \<leftarrow> anetListen K s (sun_path 0 path) backlog;
       if l = ANET_ERR then State_Monad.return ANET_ERR
       else do {
         (if perm \<noteq> 0 then do { _ \<leftarrow> sys K (SysChmod (cstr (sun_path 0 path)) perm); State_Monad.return () }
          else State_Monad.return ());
         State_Monad.return s } }) (new_fd fds)"
    by (rule owns_bind [OF Listen_fd], rule owns_if, rule owns_return, simp add: new_fd_def)
      (simp add: owns_keeps_bind [OF ch return_fd [OF s]])
qed


section \<open>Reading and writing whole buffers\<close>

text \<open>What \<open>read(2)\<close> and \<open>write(2)\<close> document for a positive count: an error, or at most that many bytes,
  which for a read are delivered into the buffer.\<close>

definition reads_documented :: "os \<Rightarrow> int \<Rightarrow> bool" where
  "reads_documented K fd \<longleftrightarrow> (\<forall>h n. 0 < n \<longrightarrow>
     -1 \<le> os_ret K h (SysRead fd n) \<and> os_ret K h (SysRead fd n) \<le> n \<and>
     (0 < os_ret K h (SysRead fd n) \<longrightarrow> int (length (os_data K (h @ [SysRead fd n]))) = os_ret K h (SysRead fd n)))"

definition writes_documented :: "os \<Rightarrow> int \<Rightarrow> bool" where
  "writes_documented K fd \<longleftrightarrow> (\<forall>h b n. 0 < n \<longrightarrow>
     -1 \<le> os_ret K h (SysWrite fd b n) \<and> os_ret K h (SysWrite fd b n) \<le> n)"

text \<open>The bytes that the reads among some calls delivered, and those that the writes among them accepted.\<close>

fun received :: "os \<Rightarrow> trace \<Rightarrow> syscall list \<Rightarrow> bytes" where
  "received K h [] = []"
| "received K h (c # cs) =
     (case c of SysRead _ _ \<Rightarrow> if 0 < os_ret K h c then os_data K (h @ [c]) else [] | _ \<Rightarrow> []) @ received K (h @ [c]) cs"

fun accepted :: "os \<Rightarrow> trace \<Rightarrow> syscall list \<Rightarrow> bytes" where
  "accepted K h [] = []"
| "accepted K h (c # cs) =
     (case c of SysWrite _ b _ \<Rightarrow> take (nat (os_ret K h c)) b | _ \<Rightarrow> []) @ accepted K (h @ [c]) cs"

text \<open>The result of a read loop: everything, or what had come at an end of file or an error.\<close>

definition read_outcome :: "os \<Rightarrow> int \<Rightarrow> trace \<Rightarrow> bytes \<Rightarrow> int \<Rightarrow> bytes \<Rightarrow> int \<Rightarrow> trace \<Rightarrow> bool" where
  "read_outcome K count h buf fd buf' r h' \<longleftrightarrow>
     (\<exists>new. h' = h @ new \<and> buf' = buf @ received K h new \<and> int (length buf') \<le> count \<and>
        (r = count \<and> int (length buf') = count
         \<or> (\<exists>pre c. new = pre @ [c] \<and> c = SysRead fd (count - int (length buf')) \<and> int (length buf') < count \<and>
              (os_ret K (h @ pre) c = 0 \<and> r = int (length buf') \<or> os_ret K (h @ pre) c = -1 \<and> r = -1))))"

lemma read_outcome_done: "int (length buf) = count \<Longrightarrow> read_outcome K count h buf fd buf count h"
  by (simp add: read_outcome_def)

lemma read_outcome_last:
  assumes "c = SysRead fd (count - int (length buf))" "int (length buf) < count"
    and "os_ret K h c = 0 \<and> r = int (length buf) \<or> os_ret K h c = -1 \<and> r = -1"
  shows "read_outcome K count h buf fd buf r (h @ [c])"
  using assms unfolding read_outcome_def by auto

lemma read_outcome_more:
  assumes "c = SysRead fd n" "0 < os_ret K h c"
    and "read_outcome K count (h @ [c]) (buf @ os_data K (h @ [c])) fd buf' r h'"
  shows "read_outcome K count h buf fd buf' r h'"
proof -
  obtain new where new: "h' = (h @ [c]) @ new" "buf' = (buf @ os_data K (h @ [c])) @ received K (h @ [c]) new"
    "int (length buf') \<le> count" "r = count \<and> int (length buf') = count
     \<or> (\<exists>pre d. new = pre @ [d] \<and> d = SysRead fd (count - int (length buf')) \<and> int (length buf') < count \<and>
          (os_ret K ((h @ [c]) @ pre) d = 0 \<and> r = int (length buf') \<or> os_ret K ((h @ [c]) @ pre) d = -1 \<and> r = -1))"
    using assms(3) unfolding read_outcome_def by blast
  have "buf' = buf @ received K h (c # new)" using new(2) assms(1,2) by simp
  moreover have "r = count \<and> int (length buf') = count
     \<or> (\<exists>pre d. c # new = pre @ [d] \<and> d = SysRead fd (count - int (length buf')) \<and> int (length buf') < count \<and>
          (os_ret K (h @ pre) d = 0 \<and> r = int (length buf') \<or> os_ret K (h @ pre) d = -1 \<and> r = -1))"
    using new(4) by (metis append.assoc append_Cons append_Nil)
  ultimately show ?thesis unfolding read_outcome_def using new(1,3) by (intro exI [of _ "c # new"]) simp
qed

text \<open>One round of the loop.\<close>

lemma anetRead_round:
  assumes "totlen \<noteq> count" and c: "c = SysRead fd (count - totlen)"
  shows "run_state (anetRead K (Suc n) fd count totlen buf) s =
    (let ret = os_ret K (calls s) c; s1 = s\<lparr>calls := calls s @ [c]\<rparr> in
     if ret = 0 then (Some (buf, totlen), s1) else if ret = -1 then (Some (buf, -1), s1)
     else run_state (anetRead K n fd count (totlen + ret) (buf @ os_data K (calls s @ [c]))) s1)"
  using assms by (subst anetRead.simps) (simp add: sys_def look_def Let_def)

lemma anetRead_loop:
  assumes "reads_documented K fd"
  shows "int (length buf) \<le> count \<Longrightarrow> count - int (length buf) \<le> int fuel \<Longrightarrow>
    \<exists>buf' r s'. run_state (anetRead K fuel fd count (int (length buf)) buf) s = (Some (buf', r), s') \<and>
      read_outcome K count (calls s) buf fd buf' r (calls s')"
proof (induction fuel arbitrary: buf s)
  case 0
  then show ?case by (subst anetRead.simps) (simp add: read_outcome_done)
next
  case (Suc n)
  show ?case
  proof (cases "int (length buf) = count")
    case True
    then show ?thesis by (subst anetRead.simps) (simp add: read_outcome_done)
  next
    case False
    define c where "c = SysRead fd (count - int (length buf))"
    let ?ret = "os_ret K (calls s) c" and ?d = "os_data K (calls s @ [c])"
    have pos: "0 < count - int (length buf)" using False Suc.prems by simp
    have ret: "-1 \<le> ?ret" "?ret \<le> count - int (length buf)" "0 < ?ret \<Longrightarrow> int (length ?d) = ?ret"
      using assms pos unfolding reads_documented_def c_def by blast+
    note run = anetRead_round [OF False c_def, of K n buf s, unfolded Let_def]
    show ?thesis
    proof (cases "0 < ?ret")
      case True
      then have len: "int (length buf) + ?ret = int (length (buf @ ?d))" using ret(3) by simp
      then have "int (length (buf @ ?d)) \<le> count" "count - int (length (buf @ ?d)) \<le> int n"
        using ret(2) True Suc.prems by linarith+
      then obtain buf' r s' where "run_state (anetRead K n fd count (int (length (buf @ ?d))) (buf @ ?d))
          (s\<lparr>calls := calls s @ [c]\<rparr>) = (Some (buf', r), s')"
        "read_outcome K count (calls s @ [c]) (buf @ ?d) fd buf' r (calls s')"
        using Suc.IH [of "buf @ ?d" "s\<lparr>calls := calls s @ [c]\<rparr>"] by auto
      then show ?thesis
        using run len True read_outcome_more [OF c_def True] by auto
    next
      case False
      then have "?ret = 0 \<or> ?ret = -1" using ret(1) by linarith
      then show ?thesis
        using run read_outcome_last [OF c_def, of K "calls s"] pos by auto
    qed
  qed
qed


text \<open>The same for writing: the system accepts a prefix of the buffer, without gaps or repetitions.\<close>

definition write_outcome :: "os \<Rightarrow> bytes \<Rightarrow> int \<Rightarrow> trace \<Rightarrow> int \<Rightarrow> int \<Rightarrow> int \<Rightarrow> trace \<Rightarrow> bool" where
  "write_outcome K buf count h totlen fd r h' \<longleftrightarrow>
     (\<exists>new k. h' = h @ new \<and> totlen \<le> k \<and> k \<le> count \<and>
        accepted K h new = take (nat (k - totlen)) (drop (nat totlen) buf) \<and>
        (r = count \<and> k = count
         \<or> (\<exists>pre c. new = pre @ [c] \<and> c = SysWrite fd (drop (nat k) buf) (count - k) \<and> k < count \<and>
              (os_ret K (h @ pre) c = 0 \<and> r = k \<or> os_ret K (h @ pre) c = -1 \<and> r = -1))))"

lemma write_outcome_done: "write_outcome K buf count h count fd count h"
  by (auto simp: write_outcome_def intro!: exI [of _ "[]"])

lemma write_outcome_last:
  assumes "c = SysWrite fd (drop (nat totlen) buf) (count - totlen)" "totlen < count"
    and "os_ret K h c = 0 \<and> r = totlen \<or> os_ret K h c = -1 \<and> r = -1"
  shows "write_outcome K buf count h totlen fd r (h @ [c])"
  using assms unfolding write_outcome_def by (intro exI [of _ "[c]"] exI [of _ totlen]) auto

lemma write_outcome_more:
  assumes c: "c = SysWrite fd (drop (nat totlen) buf) n" and pos: "0 \<le> totlen" "0 < os_ret K h c"
    and rest: "write_outcome K buf count (h @ [c]) (totlen + os_ret K h c) fd r h'"
  shows "write_outcome K buf count h totlen fd r h'"
proof -
  let ?t = "totlen + os_ret K h c"
  obtain new k where new: "h' = (h @ [c]) @ new" "?t \<le> k" "k \<le> count"
    "accepted K (h @ [c]) new = take (nat (k - ?t)) (drop (nat ?t) buf)" "r = count \<and> k = count
     \<or> (\<exists>pre d. new = pre @ [d] \<and> d = SysWrite fd (drop (nat k) buf) (count - k) \<and> k < count \<and>
          (os_ret K ((h @ [c]) @ pre) d = 0 \<and> r = k \<or> os_ret K ((h @ [c]) @ pre) d = -1 \<and> r = -1))"
    using rest unfolding write_outcome_def by blast
  have nats: "nat (k - totlen) = nat (os_ret K h c) + nat (k - ?t)" "nat ?t = nat (os_ret K h c) + nat totlen"
    using pos new(2) by simp_all
  have "accepted K h (c # new) = take (nat (os_ret K h c)) (drop (nat totlen) buf) @ accepted K (h @ [c]) new"
    using c by simp
  also have "\<dots> = take (nat (k - totlen)) (drop (nat totlen) buf)"
    unfolding new(4) by (simp only: nats take_add drop_drop)
  finally have acc: "accepted K h (c # new) = take (nat (k - totlen)) (drop (nat totlen) buf)" .
  moreover have "r = count \<and> k = count
     \<or> (\<exists>pre d. c # new = pre @ [d] \<and> d = SysWrite fd (drop (nat k) buf) (count - k) \<and> k < count \<and>
          (os_ret K (h @ pre) d = 0 \<and> r = k \<or> os_ret K (h @ pre) d = -1 \<and> r = -1))"
    using new(5) by (metis append.assoc append_Cons append_Nil)
  ultimately show ?thesis unfolding write_outcome_def using new(1,2,3) pos
    by (intro exI [of _ "c # new"] exI [of _ k]) simp
qed

lemma anetWrite_round:
  assumes "totlen \<noteq> count" and c: "c = SysWrite fd (drop (nat totlen) buf) (count - totlen)"
  shows "run_state (anetWrite K (Suc n) fd buf count totlen) s =
    (let ret = os_ret K (calls s) c; s1 = s\<lparr>calls := calls s @ [c]\<rparr> in
     if ret = 0 then (Some totlen, s1) else if ret = -1 then (Some (-1), s1)
     else run_state (anetWrite K n fd buf count (totlen + ret)) s1)"
  using assms by (subst anetWrite.simps) (simp add: sys_def Let_def)

lemma anetWrite_loop:
  assumes "writes_documented K fd"
  shows "0 \<le> totlen \<Longrightarrow> totlen \<le> count \<Longrightarrow> count - totlen \<le> int fuel \<Longrightarrow>
    \<exists>r s'. run_state (anetWrite K fuel fd buf count totlen) s = (Some r, s') \<and>
      write_outcome K buf count (calls s) totlen fd r (calls s')"
proof (induction fuel arbitrary: totlen s)
  case 0
  then show ?case by (subst anetWrite.simps) (simp add: write_outcome_done)
next
  case (Suc n)
  show ?case
  proof (cases "totlen = count")
    case True
    then show ?thesis by (subst anetWrite.simps) (simp add: write_outcome_done)
  next
    case False
    define c where "c = SysWrite fd (drop (nat totlen) buf) (count - totlen)"
    let ?ret = "os_ret K (calls s) c"
    have less: "totlen < count" using False Suc.prems by simp
    have ret: "-1 \<le> ?ret" "?ret \<le> count - totlen"
      using assms less unfolding writes_documented_def c_def by auto
    note run = anetWrite_round [OF False c_def, of K n s, unfolded Let_def]
    show ?thesis
    proof (cases "0 < ?ret")
      case True
      then have "0 \<le> totlen + ?ret" "totlen + ?ret \<le> count" "count - (totlen + ?ret) \<le> int n"
        using ret(2) Suc.prems by linarith+
      then show ?thesis
        using Suc.IH [of "totlen + ?ret" "s\<lparr>calls := calls s @ [c]\<rparr>"] run True
          write_outcome_more [OF c_def Suc.prems(1) True] by auto
    next
      case False
      then have "?ret = 0 \<or> ?ret = -1" using ret(1) by linarith
      then show ?thesis
        using run write_outcome_last [OF c_def less, of K "calls s"] by auto
    qed
  qed
qed


section \<open>Properties\<close>

text \<open>What an operation promises that returns a socket: the calls it adds close every socket they open, once,
  except the one returned.\<close>

definition returns_or_closes :: "os \<Rightarrow> int anet \<Rightarrow> anet_st \<Rightarrow> bool" where
  "returns_or_closes K m s \<longleftrightarrow> (case run_state m s of (r, s') \<Rightarrow>
     (\<exists>new. calls s' = calls s @ new \<and>
        (\<forall>fds. descriptors K (calls s) new fds = Some (if r = ANET_ERR then fds else r # fds))))"

lemma owns_returns_or_closes:
  assumes "\<And>fds. owns K fds m (new_fd fds)"
  shows "returns_or_closes K m s"
proof -
  obtain r s' where run: "run_state m s = (r, s')" by (cases "run_state m s")
  have each: "\<exists>new. calls s' = calls s @ new \<and> descriptors K (calls s) new fds = Some (if r = ANET_ERR then fds else r # fds)" for fds
    using assms [of fds] run unfolding owns_def new_fd_def by blast
  from each [of "[]"] obtain new where new: "calls s' = calls s @ new" by blast
  have "descriptors K (calls s) new fds = Some (if r = ANET_ERR then fds else r # fds)" for fds
    using each [of fds] new by auto
  then show ?thesis unfolding returns_or_closes_def run using new by auto
qed

text \<open>C24: Whatever the operating system answers, connecting over TCP (on every path: failed options, failed
  binding, failed connects to some of the addresses, the retry without the source address), connecting over
  a local socket, and opening an IPv4 or local server socket return a socket that is still open, or
  \<open>ANET_ERR\<close> after closing every socket they opened, each exactly once: no descriptor leaks and none is
  closed twice.\<close>

theorem sockets_returned_or_closed:
  "returns_or_closes K (anetTcpGenericConnect K addr port source_addr flags) s \<and>
   returns_or_closes K (anetUnixGenericConnect K u path flags) s \<and>
   returns_or_closes K (anetTcpServer K port bindaddr backlog) s \<and>
   returns_or_closes K (anetUnixServer K path perm backlog) s"
  by (intro conjI owns_returns_or_closes GenericConnect_fd UnixConnect_fd TcpServer_fd UnixServer_fd)

text \<open>The IPv6 server is the exception: when the option \<open>IPV6_V6ONLY\<close> cannot be set, \<open>anetV6Only\<close> closes
  the socket and the label \<open>error\<close> of \<open>_anetTcpServer\<close> closes it again (by then the number may belong to a
  descriptor another thread has opened).\<close>

theorem tcp6_server_closes_twice:
  assumes "g = SysGetaddrinfo bindaddr (Some (port_text port)) AI_PASSIVE AF_INET6"
    and "os_ret K (calls s) g = 0" and "os_addrs K (calls s @ [g]) = (p, ps)"
    and "c = SysSocket (ai_family p) (ai_socktype p) (ai_protocol p)"
    and "os_ret K (calls s @ [g]) c = fd" and "fd \<noteq> -1"
    and "o6 = SysSetsockopt fd IPV6_V6ONLY [1]" and "os_ret K (calls s @ [g, c]) o6 = -1"
  shows "case run_state (anetTcp6Server K port bindaddr backlog) s of (r, s') \<Rightarrow>
     r = ANET_ERR \<and> calls s' = calls s @ [g, c, o6, SysClose fd, SysClose fd, SysFreeaddrinfo] \<and>
     descriptors K (calls s) [g, c, o6, SysClose fd, SysClose fd, SysFreeaddrinfo] [] = None"
  using assms
  by (simp add: anetTcp6Server_def anetTcpServer_af_def sys_def look_def anetV6Only_def setopt_def fail_errno_def
      anetSetError_def goto_error_def close_fd_def ANET_ERR_def ANET_OK_def)

text \<open>A system in which every call succeeds but \<open>IPV6_V6ONLY\<close>; sockets are numbered 3, a read delivers at
  most two bytes and a write accepts at most two.\<close>

definition loopback :: addrinfo where
  "loopback = \<lparr>ai_family = AF_INET6, ai_socktype = SOCK_STREAM, ai_protocol = 6, ai_addr = [1]\<rparr>"

definition last_read :: "trace \<Rightarrow> nat" where
  "last_read h = (case rev h of SysRead _ n # _ \<Rightarrow> nat (min 2 n) | _ \<Rightarrow> 0)"

definition sample_os :: os where
  "sample_os = \<lparr>
     os_ret = (\<lambda>h c. case c of SysSocket _ _ _ \<Rightarrow> 3 | SysSetsockopt _ IPV6_V6ONLY _ \<Rightarrow> -1
       | SysRead _ n \<Rightarrow> min 2 n | SysWrite _ _ n \<Rightarrow> min 2 n | _ \<Rightarrow> 0),
     os_errno = (\<lambda>_. 92), os_addrs = (\<lambda>_. (loopback, [])),
     os_sockaddr = (\<lambda>_. \<lparr>ss_family = AF_INET6, ss_addr = [1], ss_port = 80\<rparr>),
     os_data = (\<lambda>h. replicate (last_read h) 7), os_strerror = (\<lambda>_. []), os_gai_strerror = (\<lambda>_. []),
     os_ntop = (\<lambda>_ a. a)\<rparr>"

theorem tcp6_server_closes_twice_witness:
  "case run_state (anetTcp6Server sample_os 80 None 5) \<lparr>calls = [], err = None\<rparr> of (r, s') \<Rightarrow>
     r = ANET_ERR \<and> calls s' = [SysGetaddrinfo None (Some (port_text 80)) AI_PASSIVE AF_INET6,
       SysSocket AF_INET6 SOCK_STREAM 6, SysSetsockopt 3 IPV6_V6ONLY [1], SysClose 3, SysClose 3, SysFreeaddrinfo]"
proof -
  let ?s = "\<lparr>calls = [], err = None\<rparr> :: anet_st"
  let ?g = "SysGetaddrinfo None (Some (port_text 80)) AI_PASSIVE AF_INET6" and ?c = "SysSocket AF_INET6 SOCK_STREAM 6"
  have "os_ret sample_os (calls ?s) ?g = 0" "os_addrs sample_os (calls ?s @ [?g]) = (loopback, [])"
    "?c = SysSocket (ai_family loopback) (ai_socktype loopback) (ai_protocol loopback)"
    "os_ret sample_os (calls ?s @ [?g]) ?c = 3" "(3 :: int) \<noteq> -1"
    "os_ret sample_os (calls ?s @ [?g, ?c]) (SysSetsockopt 3 IPV6_V6ONLY [1]) = -1"
    by (simp_all add: sample_os_def loopback_def)
  then show ?thesis
    using tcp6_server_closes_twice [of ?g None 80 sample_os ?s loopback "[]" ?c 3 "SysSetsockopt 3 IPV6_V6ONLY [1]" 5]
    by (simp split: prod.splits)
qed

text \<open>C25: On a system whose \<open>read\<close> behaves as documented, \<open>anetRead\<close> returns after at most \<open>count\<close> rounds.
  The buffer then holds exactly the bytes the system delivered, in order and never more than \<open>count\<close>; the
  result is \<open>count\<close> with a full buffer, or the number of bytes received when the last call met the end of the
  file, or -1 when the last call failed.\<close>

theorem anetRead_complete:
  assumes "reads_documented K fd" and "0 \<le> count"
  shows "\<exists>buf r s' new. run_state (anetRead K (nat count) fd count 0 []) s = (Some (buf, r), s') \<and>
    calls s' = calls s @ new \<and> buf = received K (calls s) new \<and> int (length buf) \<le> count \<and>
    (r = count \<and> int (length buf) = count
     \<or> (\<exists>pre c. new = pre @ [c] \<and> c = SysRead fd (count - int (length buf)) \<and> int (length buf) < count \<and>
          (os_ret K (calls s @ pre) c = 0 \<and> r = int (length buf) \<or> os_ret K (calls s @ pre) c = -1 \<and> r = -1)))"
proof -
  have "int (length ([] :: bytes)) \<le> count" "count - int (length ([] :: bytes)) \<le> int (nat count)"
    using assms(2) by simp_all
  from anetRead_loop [OF assms(1) this, of s] obtain buf r s' where
    "run_state (anetRead K (nat count) fd count 0 []) s = (Some (buf, r), s')"
    "read_outcome K count (calls s) [] fd buf r (calls s')" by auto
  then show ?thesis unfolding read_outcome_def append_Nil by blast
qed

lemma sample_os_reads: "reads_documented sample_os 3"
  by (auto simp: reads_documented_def sample_os_def last_read_def)

theorem anetRead_complete_witness:
  "\<exists>buf s'. run_state (anetRead sample_os 5 3 5 0 []) \<lparr>calls = [], err = None\<rparr> = (Some (buf, 5), s') \<and> length buf = 5"
proof -
  have "run_state (anetRead sample_os 5 3 5 0 []) \<lparr>calls = [], err = None\<rparr> =
      (Some ([7, 7, 7, 7, 7], 5), \<lparr>calls = [SysRead 3 5, SysRead 3 3, SysRead 3 1], err = None\<rparr>)"
    by code_simp
  moreover have "\<exists>buf r s' new. run_state (anetRead sample_os (nat 5) 3 5 0 []) \<lparr>calls = [], err = None\<rparr> = (Some (buf, r), s') \<and>
      int (length buf) \<le> 5"
    using anetRead_complete [OF sample_os_reads, of 5 "\<lparr>calls = [], err = None\<rparr>"] by auto
  ultimately show ?thesis by auto
qed

end
