(* ===== verification/ShmSync.thy ===== *)
theory ShmSync
  imports Prelude
begin

text \<open>
  \<^verbatim>\<open>shm_named_sem_sync\<close> and \<^verbatim>\<open>shm_anony_sem_sync\<close>: a writer and a reader process that hand ten records over
  through one slot of shared memory, synchronised by two semaphores (named ones, or ones inside the
  shared segment). Each program is a step function of its process over the shared state; a run interleaves
  the two. The input of the writer, the success of the system calls and the initial memory are parameters.
\<close>

section \<open>The processes and what they share\<close>

text \<open>The next call of a process.\<close>

datatype point =
    OpenR | OpenW | Ftok | Get | Attach | InitR | InitW | Test | Wait | Name | Age | Post
  | Detach | Remove | CloseR | CloseW | UnlinkR | UnlinkW | DestroyR | DestroyW | Exit int | Fault

record proc =
  at :: point
  count :: int
  sem_r :: nat
  sem_w :: nat

datatype out_event = PrintName bytes | PrintAge i32

record shared =
  seg :: bytes
  sems :: "nat list"
  live :: "bool list"
  name_r :: "nat option"
  name_w :: "nat option"
  cin_words :: "bytes list"
  printed :: "out_event list"

text \<open>A call that may block (\<open>WouldBlock\<close>), fault, or go on at \<open>pt\<close>.\<close>

definition go :: "proc \<Rightarrow> shared \<Rightarrow> point \<Rightarrow> shared res \<Rightarrow> (proc \<times> shared) option" where
  "go p h pt r = (case r of
     Inr h' \<Rightarrow> Some (p\<lparr>at := pt\<rparr>, h')
   | Inl f \<Rightarrow> if f = WouldBlock then None else Some (p\<lparr>at := Fault\<rparr>, h))"

text \<open>A call whose failure ends the program with \<open>return -1\<close>; \<open>F\<close> says which calls fail.\<close>

definition call :: "(point \<Rightarrow> bool) \<Rightarrow> proc \<Rightarrow> shared \<Rightarrow> point \<Rightarrow> (proc \<times> shared) option" where
  "call F p h pt = Some (p\<lparr>at := if F (at p) then Exit (-1) else pt\<rparr>, h)"

section \<open>Semaphores and the slot\<close>

definition sem_wait :: "nat \<Rightarrow> shared \<Rightarrow> shared res" where
  "sem_wait i h = (if \<not> (i < length (live h) \<and> live h ! i) then Inl UseAfterFree
     else if sems h ! i = 0 then Inl WouldBlock else Inr (h\<lparr>sems := (sems h)[i := sems h ! i - 1]\<rparr>))"

definition sem_post :: "nat \<Rightarrow> shared \<Rightarrow> shared res" where
  "sem_post i h = (if \<not> (i < length (live h) \<and> live h ! i) then Inl UseAfterFree
     else Inr (h\<lparr>sems := (sems h)[i := Suc (sems h ! i)]\<rparr>))"

text \<open>\<open>sem_open\<close> with \<open>O_CREAT\<close>: the value is used only when the semaphore does not exist.\<close>

definition open_sem :: "nat option \<Rightarrow> nat \<Rightarrow> shared \<Rightarrow> nat \<times> shared" where
  "open_sem nm v h = (case nm of Some i \<Rightarrow> (i, h)
     | None \<Rightarrow> (length (sems h), h\<lparr>sems := sems h @ [v], live := live h @ [True]\<rparr>))"

definition sem_open_r :: "nat \<Rightarrow> shared \<Rightarrow> nat \<times> shared" where
  "sem_open_r v h = (case open_sem (name_r h) v h of (i, h') \<Rightarrow> (i, h'\<lparr>name_r := Some i\<rparr>))"

definition sem_open_w :: "nat \<Rightarrow> shared \<Rightarrow> nat \<times> shared" where
  "sem_open_w v h = (case open_sem (name_w h) v h of (i, h') \<Rightarrow> (i, h'\<lparr>name_w := Some i\<rparr>))"

definition sem_init :: "bool \<Rightarrow> nat \<Rightarrow> nat \<Rightarrow> shared \<Rightarrow> shared" where
  "sem_init fails i v h = (if fails then h else h\<lparr>sems := (sems h)[i := v], live := (live h)[i := True]\<rparr>)"

definition sem_destroy :: "bool \<Rightarrow> nat \<Rightarrow> shared \<Rightarrow> shared" where
  "sem_destroy fails i h = (if fails then h else h\<lparr>live := (live h)[i := False]\<rparr>)"

text \<open>\<open>cin >> pUserInfo->name\<close>: the next word and a terminator; nothing at the end of the input.\<close>

definition put_name :: "int \<Rightarrow> shared \<Rightarrow> shared res" where
  "put_name off h = (case cin_words h of [] \<Rightarrow> Inr h
     | w # ws \<Rightarrow> rbind (mem_write off (w @ [0]) (seg h)) (\<lambda>m. Inr (h\<lparr>seg := m, cin_words := ws\<rparr>)))"

definition put_age :: "int \<Rightarrow> int \<Rightarrow> shared \<Rightarrow> shared res" where
  "put_age off v h = rbind (mem_write off (enc_i32 (word_of_int v)) (seg h)) (\<lambda>m. Inr (h\<lparr>seg := m\<rparr>))"

definition print_name :: "int \<Rightarrow> shared \<Rightarrow> shared res" where
  "print_name off h = rbind (c_string (drop (nat off) (seg h))) (\<lambda>t. Inr (h\<lparr>printed := printed h @ [PrintName t]\<rparr>))"

definition print_age :: "int \<Rightarrow> shared \<Rightarrow> shared res" where
  "print_age off h = rbind (mem_read off 4 (seg h)) (\<lambda>b. Inr (h\<lparr>printed := printed h @ [PrintAge (dec_i32 b)]\<rparr>))"

section \<open>The loops\<close>

text \<open>The slot is at \<open>off\<close> in the segment, its name has \<open>len\<close> bytes; \<open>fin\<close> is the first call after the loop.
  \<open>while (n--)\<close> decrements also on the test that fails.\<close>

definition writer_loop :: "int \<Rightarrow> int \<Rightarrow> point \<Rightarrow> proc \<Rightarrow> shared \<Rightarrow> (proc \<times> shared) option" where
  "writer_loop off len fin p h = (case at p of
     Test \<Rightarrow> Some (p\<lparr>at := if count p \<noteq> 0 then Wait else fin, count := count p - 1\<rparr>, h)
   | Wait \<Rightarrow> go p h Name (sem_wait (sem_w p) h)
   | Name \<Rightarrow> go p h Age (put_name off h)
   | Age \<Rightarrow> go p h Post (put_age (off + len) (20 - count p) h)
   | Post \<Rightarrow> go p h Test (sem_post (sem_r p) h)
   | _ \<Rightarrow> None)"

definition reader_loop :: "int \<Rightarrow> int \<Rightarrow> point \<Rightarrow> proc \<Rightarrow> shared \<Rightarrow> (proc \<times> shared) option" where
  "reader_loop off len fin p h = (case at p of
     Test \<Rightarrow> Some (p\<lparr>at := if count p \<noteq> 0 then Wait else fin, count := count p - 1\<rparr>, h)
   | Wait \<Rightarrow> go p h Name (sem_wait (sem_r p) h)
   | Name \<Rightarrow> go p h Age (print_name off h)
   | Age \<Rightarrow> go p h Post (print_age (off + len) h)
   | Post \<Rightarrow> go p h Test (sem_post (sem_w p) h)
   | _ \<Rightarrow> None)"

section \<open>The programs with named semaphores\<close>

definition named_open :: "(point \<Rightarrow> bool) \<Rightarrow> proc \<Rightarrow> shared \<Rightarrow> (proc \<times> shared) option" where
  "named_open F p h = (case at p of
     OpenR \<Rightarrow> if F OpenR then Some (p\<lparr>at := Exit (-1)\<rparr>, h)
       else (case sem_open_r 0 h of (i, h') \<Rightarrow> Some (p\<lparr>at := OpenW, sem_r := i\<rparr>, h'))
   | OpenW \<Rightarrow> if F OpenW then Some (p\<lparr>at := Exit (-1)\<rparr>, h)
       else (case sem_open_w 1 h of (i, h') \<Rightarrow> Some (p\<lparr>at := Ftok, sem_w := i\<rparr>, h'))
   | Ftok \<Rightarrow> call F p h Get
   | Get \<Rightarrow> call F p h Attach
   | Attach \<Rightarrow> call F p h Test
   | _ \<Rightarrow> None)"

definition named_writer :: "(point \<Rightarrow> bool) \<Rightarrow> proc \<Rightarrow> shared \<Rightarrow> (proc \<times> shared) option" where
  "named_writer F p h = (
     if at p \<in> {OpenR, OpenW, Ftok, Get, Attach} then named_open F p h
     else case at p of
       Detach \<Rightarrow> call F p h CloseR
     | CloseR \<Rightarrow> Some (p\<lparr>at := CloseW\<rparr>, h)
     | CloseW \<Rightarrow> Some (p\<lparr>at := Exit 0\<rparr>, h)
     | _ \<Rightarrow> writer_loop 0 64 Detach p h)"

definition named_reader :: "(point \<Rightarrow> bool) \<Rightarrow> proc \<Rightarrow> shared \<Rightarrow> (proc \<times> shared) option" where
  "named_reader F p h = (
     if at p \<in> {OpenR, OpenW, Ftok, Get, Attach} then named_open F p h
     else case at p of
       Detach \<Rightarrow> call F p h Remove
     | Remove \<Rightarrow> call F p h CloseR
     | CloseR \<Rightarrow> Some (p\<lparr>at := CloseW\<rparr>, h)
     | CloseW \<Rightarrow> Some (p\<lparr>at := UnlinkR\<rparr>, h)
     | UnlinkR \<Rightarrow> Some (p\<lparr>at := UnlinkW\<rparr>, if F UnlinkR then h else h\<lparr>name_r := None\<rparr>)
     | UnlinkW \<Rightarrow> Some (p\<lparr>at := Exit 0\<rparr>, if F UnlinkW then h else h\<lparr>name_w := None\<rparr>)
     | _ \<Rightarrow> reader_loop 0 64 Detach p h)"

section \<open>The programs with semaphores in the segment\<close>

text \<open>The semaphores 0 and 1 lie in the first 64 bytes of the segment, which the model keeps apart from the
  bytes of the slot.\<close>

definition anon_init :: "(point \<Rightarrow> bool) \<Rightarrow> proc \<Rightarrow> shared \<Rightarrow> (proc \<times> shared) option" where
  "anon_init F p h = (case at p of
     Ftok \<Rightarrow> call F p h Get
   | Get \<Rightarrow> call F p h Attach
   | Attach \<Rightarrow> call F p h InitR
   | InitR \<Rightarrow> Some (p\<lparr>at := InitW\<rparr>, sem_init (F InitR) 0 0 h)
   | InitW \<Rightarrow> Some (p\<lparr>at := Test\<rparr>, sem_init (F InitW) 1 1 h)
   | _ \<Rightarrow> None)"

definition anon_writer :: "(point \<Rightarrow> bool) \<Rightarrow> proc \<Rightarrow> shared \<Rightarrow> (proc \<times> shared) option" where
  "anon_writer F p h = (
     if at p \<in> {Ftok, Get, Attach, InitR, InitW} then anon_init F p h
     else case at p of
       DestroyR \<Rightarrow> Some (p\<lparr>at := DestroyW\<rparr>, sem_destroy (F DestroyR) 0 h)
     | DestroyW \<Rightarrow> Some (p\<lparr>at := Detach\<rparr>, sem_destroy (F DestroyW) 1 h)
     | Detach \<Rightarrow> call F p h (Exit 0)
     | _ \<Rightarrow> writer_loop 64 32 DestroyR p h)"

definition anon_reader :: "(point \<Rightarrow> bool) \<Rightarrow> proc \<Rightarrow> shared \<Rightarrow> (proc \<times> shared) option" where
  "anon_reader F p h = (
     if at p \<in> {Ftok, Get, Attach, InitR, InitW} then anon_init F p h
     else case at p of
       DestroyR \<Rightarrow> Some (p\<lparr>at := DestroyW\<rparr>, sem_destroy (F DestroyR) 0 h)
     | DestroyW \<Rightarrow> Some (p\<lparr>at := Detach\<rparr>, sem_destroy (F DestroyW) 1 h)
     | Detach \<Rightarrow> call F p h Remove
     | Remove \<Rightarrow> call F p h (Exit 0)
     | _ \<Rightarrow> reader_loop 64 32 DestroyR p h)"

section \<open>Runs\<close>

record system =
  writer :: proc
  reader :: proc
  sh :: shared

type_synonym program = "proc \<Rightarrow> shared \<Rightarrow> (proc \<times> shared) option"

definition step_writer :: "program \<Rightarrow> system \<Rightarrow> system option" where
  "step_writer W s = map_option (\<lambda>(p, h). s\<lparr>writer := p, sh := h\<rparr>) (W (writer s) (sh s))"

definition step_reader :: "program \<Rightarrow> system \<Rightarrow> system option" where
  "step_reader R s = map_option (\<lambda>(p, h). s\<lparr>reader := p, sh := h\<rparr>) (R (reader s) (sh s))"

inductive shm_step :: "program \<Rightarrow> program \<Rightarrow> system \<Rightarrow> system \<Rightarrow> bool" for W R where
  by_writer: "step_writer W s = Some t \<Longrightarrow> shm_step W R s t"
| by_reader: "step_reader R s = Some t \<Longrightarrow> shm_step W R s t"

text \<open>The run of a schedule; \<open>True\<close> is a step of the writer.\<close>

fun run_schedule :: "program \<Rightarrow> program \<Rightarrow> bool list \<Rightarrow> system \<Rightarrow> system option" where
  "run_schedule W R [] s = Some s"
| "run_schedule W R (w # ws) s =
     (case (if w then step_writer W s else step_reader R s) of None \<Rightarrow> None | Some t \<Rightarrow> run_schedule W R ws t)"

lemma run_schedule_steps: "run_schedule W R ws s = Some t \<Longrightarrow> (shm_step W R)\<^sup>*\<^sup>* s t"
proof (induction ws arbitrary: s)
  case (Cons w ws)
  then obtain u where "(if w then step_writer W s else step_reader R s) = Some u" "run_schedule W R ws u = Some t"
    by (auto split: option.splits)
  then show ?case using Cons.IH [of u] by (auto split: if_splits intro: shm_step.intros converse_rtranclp_into_rtranclp)
qed simp

text \<open>Both programs about to start, with a fresh segment; no named semaphore exists.\<close>

definition start_proc :: "point \<Rightarrow> proc" where
  "start_proc pt = \<lparr>at = pt, count = 10, sem_r = 0, sem_w = 1\<rparr>"

definition start_named :: "bytes \<Rightarrow> bytes list \<Rightarrow> system" where
  "start_named m ws = \<lparr>writer = start_proc OpenR, reader = start_proc OpenR,
     sh = \<lparr>seg = m, sems = [], live = [], name_r = None, name_w = None, cin_words = ws, printed = []\<rparr>\<rparr>"

definition start_anon :: "bytes \<Rightarrow> bytes list \<Rightarrow> system" where
  "start_anon m ws = \<lparr>writer = start_proc Ftok, reader = start_proc Ftok,
     sh = \<lparr>seg = m, sems = [0, 0], live = [False, False], name_r = None, name_w = None, cin_words = ws, printed = []\<rparr>\<rparr>"

section \<open>The invariant of the hand-over\<close>

text \<open>How many records a process has passed on, and whether it holds the slot.\<close>

definition posts :: "proc \<Rightarrow> nat" where
  "posts p = (if at p \<in> {Wait, Name, Age, Post} then nat (9 - count p) else if count p = -1 then 10 else nat (10 - count p))"

definition holds_slot :: "proc \<Rightarrow> bool" where
  "holds_slot p \<longleftrightarrow> at p \<in> {Name, Age, Post}"

definition proc_ok :: "proc \<Rightarrow> bool" where
  "proc_ok p \<longleftrightarrow> sem_r p = 0 \<and> sem_w p = 1 \<and> (case at p of
     OpenR \<Rightarrow> count p = 10 | OpenW \<Rightarrow> count p = 10 | Ftok \<Rightarrow> count p = 10 | Get \<Rightarrow> count p = 10 | Attach \<Rightarrow> count p = 10
   | Test \<Rightarrow> 0 \<le> count p \<and> count p \<le> 10
   | Wait \<Rightarrow> 0 \<le> count p \<and> count p \<le> 9 | Name \<Rightarrow> 0 \<le> count p \<and> count p \<le> 9
   | Age \<Rightarrow> 0 \<le> count p \<and> count p \<le> 9 | Post \<Rightarrow> 0 \<le> count p \<and> count p \<le> 9
   | Exit _ \<Rightarrow> count p = 10 \<or> count p = -1
   | InitR \<Rightarrow> False | InitW \<Rightarrow> False | DestroyR \<Rightarrow> False | DestroyW \<Rightarrow> False | Fault \<Rightarrow> False
   | _ \<Rightarrow> count p = -1)"

text \<open>Before the semaphores are open, and then: exactly one token, in a semaphore or with a process.\<close>

definition unopened :: "proc \<Rightarrow> bool" where
  "unopened p \<longleftrightarrow> at p = OpenR \<or> (\<exists>k. at p = Exit k \<and> count p = 10)"

definition half_opened :: "proc \<Rightarrow> bool" where
  "half_opened p \<longleftrightarrow> at p = OpenR \<or> at p = OpenW \<or> (\<exists>k. at p = Exit k \<and> count p = 10)"

definition names_ok :: "proc \<Rightarrow> shared \<Rightarrow> bool" where
  "names_ok r h \<longleftrightarrow> live h = [True, True] \<and> (name_r h = Some 0 \<and> name_w h = Some 1 \<or> count r = -1)"

definition token :: "proc \<Rightarrow> proc \<Rightarrow> shared \<Rightarrow> bool" where
  "token w r h \<longleftrightarrow> (\<exists>a b. sems h = [a, b] \<and>
     a + b + of_bool (holds_slot w) + of_bool (holds_slot r) = 1 \<and> posts w = posts r + a + of_bool (holds_slot r))"

text \<open>The stages of the semaphores.\<close>

definition none_open :: "shared \<Rightarrow> bool" where
  "none_open h \<longleftrightarrow> sems h = [] \<and> live h = [] \<and> name_r h = None \<and> name_w h = None"

definition one_open :: "shared \<Rightarrow> bool" where
  "one_open h \<longleftrightarrow> sems h = [0] \<and> live h = [True] \<and> name_r h = Some 0 \<and> name_w h = None"

definition both_open :: "shared \<Rightarrow> bool" where
  "both_open h \<longleftrightarrow> live h = [True, True] \<and> name_r h = Some 0 \<and> name_w h = Some 1"

definition sems_ok :: "proc \<Rightarrow> proc \<Rightarrow> shared \<Rightarrow> bool" where
  "sems_ok w r h \<longleftrightarrow> none_open h \<and> unopened w \<and> unopened r \<or> one_open h \<and> half_opened w \<and> half_opened r
     \<or> names_ok r h \<and> token w r h"

lemmas named_defs = named_writer_def named_reader_def named_open_def writer_loop_def reader_loop_def call_def go_def
  sem_open_r_def sem_open_w_def open_sem_def

lemma put_keeps:
  "put_name off h = Inr h' \<Longrightarrow> sems h' = sems h \<and> live h' = live h \<and> name_r h' = name_r h \<and> name_w h' = name_w h"
  "put_age off v h = Inr h' \<Longrightarrow> sems h' = sems h \<and> live h' = live h \<and> name_r h' = name_r h \<and> name_w h' = name_w h"
  "print_name off h = Inr h' \<Longrightarrow> sems h' = sems h \<and> live h' = live h \<and> name_r h' = name_r h \<and> name_w h' = name_w h"
  "print_age off h = Inr h' \<Longrightarrow> sems h' = sems h \<and> live h' = live h \<and> name_r h' = name_r h \<and> name_w h' = name_w h"
  by (auto simp: put_name_def put_age_def print_name_def print_age_def rbind_def split: list.splits sum.splits)


text \<open>How the token moves.\<close>

lemma token_stay:
  "token w r h \<Longrightarrow> posts w' = posts w \<Longrightarrow> posts r' = posts r \<Longrightarrow> holds_slot w' = holds_slot w \<Longrightarrow>
   holds_slot r' = holds_slot r \<Longrightarrow> sems h' = sems h \<Longrightarrow> token w' r' h'"
  by (simp add: token_def)

lemma token_take_w:
  assumes "token w r h" "\<not> holds_slot w" "holds_slot w'" "posts w' = posts w" "sem_wait 1 h = Inr h'"
  shows "token w' r h'"
proof -
  obtain a b where "sems h = [a, b]" "a + b + of_bool (holds_slot r) = 1" "posts w = posts r + a + of_bool (holds_slot r)"
    using assms(1,2) by (auto simp: token_def)
  then show ?thesis using assms(3-5) unfolding token_def sem_wait_def
    by (intro exI [of _ a] exI [of _ "b - 1"]) (auto split: if_splits)
qed

lemma token_take_r:
  assumes "token w r h" "\<not> holds_slot r" "holds_slot r'" "posts r' = posts r" "sem_wait 0 h = Inr h'"
  shows "token w r' h'"
proof -
  obtain a b where "sems h = [a, b]" "a + b + of_bool (holds_slot w) = 1" "posts w = posts r + a"
    using assms(1,2) by (auto simp: token_def)
  then show ?thesis using assms(3-5) unfolding token_def sem_wait_def
    by (intro exI [of _ "a - 1"] exI [of _ b]) (auto split: if_splits)
qed

lemma token_give_w:
  assumes "token w r h" "holds_slot w" "\<not> holds_slot w'" "posts w' = Suc (posts w)" "sem_post 0 h = Inr h'"
  shows "token w' r h'"
proof -
  obtain a b where "sems h = [a, b]" "a + b + of_bool (holds_slot r) = 0" "posts w = posts r + a + of_bool (holds_slot r)"
    using assms(1,2) by (auto simp: token_def)
  then show ?thesis using assms(3-5) unfolding token_def sem_post_def
    by (intro exI [of _ "Suc a"] exI [of _ b]) (auto split: if_splits)
qed

lemma token_give_r:
  assumes "token w r h" "holds_slot r" "\<not> holds_slot r'" "posts r' = Suc (posts r)" "sem_post 1 h = Inr h'"
  shows "token w r' h'"
proof -
  obtain a b where "sems h = [a, b]" "a + b + of_bool (holds_slot w) = 0" "posts w = posts r + a + 1"
    using assms(1,2) by (auto simp: token_def)
  then show ?thesis using assms(3-5) unfolding token_def sem_post_def
    by (intro exI [of _ a] exI [of _ "Suc b"]) (auto split: if_splits)
qed

text \<open>How a process moves.\<close>

lemma holds_slot_at [simp]: "holds_slot (p\<lparr>at := x\<rparr>) \<longleftrightarrow> x \<in> {Name, Age, Post}"
  by (simp add: holds_slot_def)

lemma posts_inside: "at p \<in> {Wait, Name, Age, Post} \<Longrightarrow> x \<in> {Wait, Name, Age, Post} \<Longrightarrow> posts (p\<lparr>at := x\<rparr>) = posts p"
  by (simp add: posts_def)

lemma posts_outside: "at p \<notin> {Wait, Name, Age, Post} \<Longrightarrow> x \<notin> {Wait, Name, Age, Post} \<Longrightarrow> posts (p\<lparr>at := x\<rparr>) = posts p"
  by (simp add: posts_def)

lemma posts_post: "proc_ok p \<Longrightarrow> at p = Post \<Longrightarrow> posts (p\<lparr>at := Test\<rparr>) = Suc (posts p)"
  by (auto simp: posts_def proc_ok_def Suc_nat_eq_nat_zadd1)

lemma posts_test:
  "proc_ok p \<Longrightarrow> at p = Test \<Longrightarrow> posts (p\<lparr>at := if count p \<noteq> 0 then Wait else Detach, count := count p - 1\<rparr>) = posts p"
  by (auto simp: posts_def proc_ok_def)

lemma sem_wait_keeps: "sem_wait i h = Inr h' \<Longrightarrow> live h' = live h \<and> name_r h' = name_r h \<and> name_w h' = name_w h"
  by (auto simp: sem_wait_def split: if_splits)

lemma sem_post_keeps: "sem_post i h = Inr h' \<Longrightarrow> live h' = live h \<and> name_r h' = name_r h \<and> name_w h' = name_w h"
  by (auto simp: sem_post_def split: if_splits)


text \<open>The steps of the two programs by their effect on the token.\<close>

definition moves :: "nat \<Rightarrow> nat \<Rightarrow> proc \<Rightarrow> shared \<Rightarrow> proc \<Rightarrow> shared \<Rightarrow> bool" where
  "moves i j p h p' h' \<longleftrightarrow> (count p = -1 \<longrightarrow> count p' = -1) \<and> live h' = live h \<and>
     (name_r h' = name_r h \<and> name_w h' = name_w h \<or> count p' = -1) \<and>
     (posts p' = posts p \<and> holds_slot p' = holds_slot p \<and> sems h' = sems h
      \<or> \<not> holds_slot p \<and> holds_slot p' \<and> posts p' = posts p \<and> sem_wait i h = Inr h'
      \<or> holds_slot p \<and> \<not> holds_slot p' \<and> posts p' = Suc (posts p) \<and> sem_post j h = Inr h')"

lemma moves_stay:
  "posts p' = posts p \<Longrightarrow> holds_slot p' = holds_slot p \<Longrightarrow> (count p = -1 \<longrightarrow> count p' = -1) \<Longrightarrow> sems h' = sems h \<and> live h' = live h \<and>
   name_r h' = name_r h \<and> name_w h' = name_w h \<Longrightarrow> moves i j p h p' h'"
  by (simp add: moves_def)

lemma loop_moves:
  assumes ok: "proc_ok p" and at: "at p \<in> {Test, Wait, Name, Age, Post}"
    and step: "(if at p = Test then Some (p\<lparr>at := if count p \<noteq> 0 then Wait else Detach, count := count p - 1\<rparr>, h)
      else if at p = Wait then go p h Name (sem_wait i h) else if at p = Name then go p h Age n
      else if at p = Age then go p h Post a else go p h Test (sem_post j h)) = Some (p', h')"
    and "at p' \<noteq> Fault"
    and keep: "\<And>g. n = Inr g \<or> a = Inr g \<Longrightarrow> sems g = sems h \<and> live g = live h \<and> name_r g = name_r h \<and> name_w g = name_w h"
  shows "proc_ok p' \<and> moves i j p h p' h'"
proof (cases "at p = Test")
  case True
  then have p': "p' = p\<lparr>at := if count p \<noteq> 0 then Wait else Detach, count := count p - 1\<rparr>" "h' = h" using step by auto
  have "moves i j p h p' h'" unfolding p'
    by (rule moves_stay) (use True ok posts_test [OF ok True] in \<open>auto simp: holds_slot_def proc_ok_def\<close>)
  moreover have "proc_ok p'" using ok True by (auto simp: proc_ok_def p')
  ultimately show ?thesis by simp
next
  case False
  then consider "at p = Wait" "sem_wait i h = Inr h'" "p' = p\<lparr>at := Name\<rparr>" | "at p = Name" "n = Inr h'" "p' = p\<lparr>at := Age\<rparr>"
    | "at p = Age" "a = Inr h'" "p' = p\<lparr>at := Post\<rparr>" | "at p = Post" "sem_post j h = Inr h'" "p' = p\<lparr>at := Test\<rparr>"
    using at step assms(4) by (auto simp: go_def split: if_splits sum.splits)
  then show ?thesis
  proof cases
    case 1
    then show ?thesis using ok posts_inside [of p Name] sem_wait_keeps [OF 1(2)]
      by (simp add: moves_def proc_ok_def holds_slot_def)
  next
    case 2
    then show ?thesis using ok posts_inside [of p Age] keep [of h'] by (simp add: moves_def proc_ok_def holds_slot_def)
  next
    case 3
    then show ?thesis using ok posts_inside [of p Post] keep [of h'] by (simp add: moves_def proc_ok_def holds_slot_def)
  next
    case 4
    then show ?thesis using ok posts_post [OF ok 4(1)] sem_post_keeps [OF 4(2)]
      by (simp add: moves_def proc_ok_def holds_slot_def)
  qed
qed

lemma writer_moves:
  assumes "proc_ok w" "named_writer F w h = Some (w', h')" "at w' \<noteq> Fault" "at w \<notin> {OpenR, OpenW}"
  shows "proc_ok w' \<and> moves 1 0 w h w' h'"
proof (cases "at w \<in> {Test, Wait, Name, Age, Post}")
  case True
  have keep: "sems g = sems h \<and> live g = live h \<and> name_r g = name_r h \<and> name_w g = name_w h"
    if "put_name 0 h = Inr g \<or> put_age 64 (20 - count w) h = Inr g" for g
    using that put_keeps by blast
  have "sem_r w = 0" "sem_w w = 1" using assms(1) by (simp_all add: proc_ok_def)
  then show ?thesis
    by (intro loop_moves [OF assms(1) True _ assms(3) keep]) (use assms(2) True in \<open>auto simp: named_writer_def writer_loop_def\<close>)
next
  case False
  then show ?thesis using assms posts_outside [of w "at w'"]
    by (cases "at w") (auto simp: named_defs moves_def holds_slot_def proc_ok_def split: if_splits)
qed

lemma reader_moves:
  assumes "proc_ok r" "named_reader F r h = Some (r', h')" "at r' \<noteq> Fault" "at r \<notin> {OpenR, OpenW}"
  shows "proc_ok r' \<and> moves 0 1 r h r' h'"
proof (cases "at r \<in> {Test, Wait, Name, Age, Post}")
  case True
  have keep: "sems g = sems h \<and> live g = live h \<and> name_r g = name_r h \<and> name_w g = name_w h"
    if "print_name 0 h = Inr g \<or> print_age 64 h = Inr g" for g
    using that put_keeps by blast
  have "sem_r r = 0" "sem_w r = 1" using assms(1) by (simp_all add: proc_ok_def)
  then show ?thesis
    by (intro loop_moves [OF assms(1) True _ assms(3) keep]) (use assms(2) True in \<open>auto simp: named_reader_def reader_loop_def\<close>)
next
  case False
  then show ?thesis using assms posts_outside [of r "at r'"]
    by (cases "at r") (auto simp: named_defs moves_def holds_slot_def proc_ok_def split: if_splits)
qed


lemma token_move_w:
  assumes "token w r h" "moves 1 0 w h w' h'" shows "token w' r h'"
  using assms token_stay [OF assms(1), of w' r h'] token_take_w [OF assms(1), of w' h'] token_give_w [OF assms(1), of w' h']
  by (auto simp: moves_def)

lemma token_move_r:
  assumes "token w r h" "moves 0 1 r h r' h'" shows "token w r' h'"
  using assms token_stay [OF assms(1), of w r' h'] token_take_r [OF assms(1), of r' h'] token_give_r [OF assms(1), of r' h']
  by (auto simp: moves_def)

text \<open>A process that has not opened the semaphores has passed nothing on.\<close>

lemma not_started:
  assumes "proc_ok p" "at p \<in> {OpenR, OpenW}" shows "posts p = 0" "\<not> holds_slot p" "count p = 10"
  using assms by (auto simp: posts_def holds_slot_def proc_ok_def)

lemma names_while_opening:
  assumes "proc_ok w" "at w \<in> {OpenR, OpenW}" "names_ok r h" "token w r h" "proc_ok r"
  shows "name_r h = Some 0 \<and> name_w h = Some 1"
proof -
  have "posts r = 0" using not_started [OF assms(1,2)] assms(4) by (auto simp: token_def)
  then have "count r \<noteq> -1" using assms(5) by (auto simp: posts_def proc_ok_def split: if_splits)
  then show ?thesis using assms(3) by (simp add: names_ok_def)
qed

lemma sem_open_r_cases:
  "name_r h = Some i \<Longrightarrow> sem_open_r v h = (i, h)"
  "name_r h = None \<Longrightarrow> sem_open_r v h = (length (sems h), h\<lparr>sems := sems h @ [v], live := live h @ [True], name_r := Some (length (sems h))\<rparr>)"
  by (cases h; simp add: sem_open_r_def open_sem_def)+

lemma sem_open_w_cases:
  "name_w h = Some i \<Longrightarrow> sem_open_w v h = (i, h)"
  "name_w h = None \<Longrightarrow> sem_open_w v h = (length (sems h), h\<lparr>sems := sems h @ [v], live := live h @ [True], name_w := Some (length (sems h))\<rparr>)"
  by (cases h; simp add: sem_open_w_def open_sem_def)+

lemma open_r_result:
  assumes "at p = OpenR" "named_open F p h = Some (p', h')"
  shows "p' = p\<lparr>at := Exit (-1)\<rparr> \<and> h' = h \<or> p' = p\<lparr>at := OpenW, sem_r := fst (sem_open_r 0 h)\<rparr> \<and> h' = snd (sem_open_r 0 h)"
  using assms by (simp add: named_open_def split: if_splits prod.splits)

lemma open_w_result:
  assumes "at p = OpenW" "named_open F p h = Some (p', h')"
  shows "p' = p\<lparr>at := Exit (-1)\<rparr> \<and> h' = h \<or> p' = p\<lparr>at := Ftok, sem_w := fst (sem_open_w 1 h)\<rparr> \<and> h' = snd (sem_open_w 1 h)"
  using assms by (simp add: named_open_def split: if_splits prod.splits)

lemma opening_proc:
  assumes "proc_ok p" "at p = OpenR \<or> at p = OpenW" and "p' = p\<lparr>at := Exit (-1)\<rparr> \<or> p' = p\<lparr>at := OpenW, sem_r := 0\<rparr> \<or> p' = p\<lparr>at := Ftok, sem_w := 1\<rparr>"
  shows "proc_ok p'" "posts p' = 0" "\<not> holds_slot p'" "at p' \<noteq> Ftok \<Longrightarrow> half_opened p'" "at p' \<notin> {OpenW, Ftok} \<Longrightarrow> unopened p'"
  using assms by (auto simp: proc_ok_def posts_def holds_slot_def half_opened_def unopened_def)


lemma open_none:
  assumes "none_open h" "proc_ok p" "at p = OpenR" "named_open F p h = Some (p', h')"
  shows "proc_ok p' \<and> (none_open h' \<and> unopened p' \<or> one_open h' \<and> half_opened p')"
proof -
  have "sem_open_r 0 h = (0, h\<lparr>sems := [0], live := [True], name_r := Some 0\<rparr>)"
    using assms(1) by (simp add: none_open_def sem_open_r_cases)
  then show ?thesis using open_r_result [OF assms(3,4)] opening_proc [OF assms(2), of p'] assms(1,3)
    by (auto simp: none_open_def one_open_def)
qed

lemma open_both:
  assumes "both_open h" "proc_ok p" "at p \<in> {OpenR, OpenW}" "named_open F p h = Some (p', h')"
  shows "proc_ok p' \<and> h' = h \<and> posts p' = 0 \<and> \<not> holds_slot p'"
proof -
  have "sem_open_r 0 h = (0, h)" "sem_open_w 1 h = (1, h)" using assms(1) by (simp_all add: both_open_def sem_open_r_cases sem_open_w_cases)
  then show ?thesis using open_r_result [OF _ assms(4)] open_w_result [OF _ assms(4)] opening_proc [OF assms(2), of p'] assms(3)
    by auto
qed

lemma open_one:
  assumes "one_open h" "proc_ok p" "at p \<in> {OpenR, OpenW}" "named_open F p h = Some (p', h')"
  shows "proc_ok p' \<and> (one_open h' \<and> half_opened p' \<or> both_open h' \<and> sems h' = [0, 1] \<and> posts p' = 0 \<and> \<not> holds_slot p')"
proof -
  have r: "sem_open_r 0 h = (0, h)" and w: "sem_open_w 1 h = (1, h\<lparr>sems := [0, 1], live := [True, True], name_w := Some 1\<rparr>)"
    using assms(1) by (simp_all add: one_open_def sem_open_r_cases sem_open_w_cases)
  consider "at p = OpenR" | "at p = OpenW" using assms(3) by blast
  then show ?thesis
  proof cases
    case 1
    then show ?thesis using open_r_result [OF 1 assms(4)] opening_proc [OF assms(2), of p'] r assms(1) by auto
  next
    case 2
    then show ?thesis using open_w_result [OF 2 assms(4)] opening_proc [OF assms(2), of p'] w assms(1)
      by (auto simp: one_open_def both_open_def)
  qed
qed

lemma half_opened_idle: "half_opened p \<Longrightarrow> proc_ok p \<Longrightarrow> posts p = 0 \<and> \<not> holds_slot p"
  by (auto simp: half_opened_def posts_def holds_slot_def proc_ok_def)

lemma unopened_half: "unopened p \<Longrightarrow> half_opened p"
  by (auto simp: unopened_def half_opened_def)

lemma named_opening:
  "at p \<in> {OpenR, OpenW} \<Longrightarrow> named_writer F p h = named_open F p h" "at p \<in> {OpenR, OpenW} \<Longrightarrow> named_reader F p h = named_open F p h"
  by (auto simp: named_writer_def named_reader_def)

lemma named_exited: "named_writer F p h \<noteq> None \<Longrightarrow> half_opened p \<Longrightarrow> at p \<in> {OpenR, OpenW}"
  "named_reader F p h \<noteq> None \<Longrightarrow> half_opened p \<Longrightarrow> at p \<in> {OpenR, OpenW}"
  by (auto simp: named_writer_def named_reader_def half_opened_def writer_loop_def reader_loop_def)


lemma token_idle: "sems h = [0, 1] \<Longrightarrow> posts w = 0 \<Longrightarrow> posts r = 0 \<Longrightarrow> \<not> holds_slot w \<Longrightarrow> \<not> holds_slot r \<Longrightarrow> token w r h"
  by (simp add: token_def)

lemma writer_names:
  assumes "named_writer F w h = Some (w', h')" "at w \<notin> {OpenR, OpenW}"
  shows "name_r h' = name_r h \<and> name_w h' = name_w h"
  using assms put_keeps(1) [of 0 h h'] put_keeps(2) [of 64 "20 - count w" h h'] sem_wait_keeps [of "sem_w w" h h'] sem_post_keeps [of "sem_r w" h h']
  by (cases "at w") (auto simp: named_defs split: sum.splits if_splits)

lemma writer_sems:
  assumes ok: "proc_ok w" "proc_ok r" "sems_ok w r h" and step: "named_writer F w h = Some (w', h')" "at w' \<noteq> Fault"
  shows "proc_ok w' \<and> sems_ok w' r h'"
proof (cases "at w \<in> {OpenR, OpenW}")
  case True
  note op = step(1) [unfolded named_opening(1) [OF True]]
  from ok(3) consider "none_open h" "unopened w" "unopened r" | "one_open h" "half_opened w" "half_opened r"
    | "names_ok r h" "token w r h" by (auto simp: sems_ok_def)
  then show ?thesis
  proof cases
    case 1
    then have "at w = OpenR" using True by (auto simp: unopened_def)
    from open_none [OF 1(1) ok(1) this op] show ?thesis using 1(3) unopened_half by (auto simp: sems_ok_def)
  next
    case 2
    from open_one [OF 2(1) ok(1) True op] show ?thesis
      using 2(3) half_opened_idle [OF 2(3) ok(2)] token_idle [of h' w' r] by (auto simp: sems_ok_def both_open_def names_ok_def)
  next
    case 3
    have "both_open h" using names_while_opening [OF ok(1) True 3 ok(2)] 3(1) by (simp add: both_open_def names_ok_def)
    from open_both [OF this ok(1) True op] show ?thesis
      using 3 not_started [OF ok(1) True] token_stay [OF 3(2), of w' r h'] by (simp add: sems_ok_def)
  qed
next
  case False
  then have "names_ok r h \<and> token w r h"
    using ok(3) named_exited(1) [of F w h] step(1) unopened_half by (auto simp: sems_ok_def)
  moreover have mv: "proc_ok w' \<and> moves 1 0 w h w' h'" by (rule writer_moves [OF ok(1) step False])
  ultimately have "names_ok r h'" "token w' r h'" using token_move_w [of w r h w' h'] writer_names [OF step(1) False]
    by (simp_all add: names_ok_def moves_def)
  then show ?thesis using mv by (simp add: sems_ok_def)
qed


lemma reader_sems:
  assumes ok: "proc_ok w" "proc_ok r" "sems_ok w r h" and step: "named_reader F r h = Some (r', h')" "at r' \<noteq> Fault"
  shows "proc_ok r' \<and> sems_ok w r' h'"
proof (cases "at r \<in> {OpenR, OpenW}")
  case True
  note op = step(1) [unfolded named_opening(2) [OF True]]
  from ok(3) consider "none_open h" "unopened w" "unopened r" | "one_open h" "half_opened w" "half_opened r"
    | "names_ok r h" "token w r h" by (auto simp: sems_ok_def)
  then show ?thesis
  proof cases
    case 1
    then have "at r = OpenR" using True by (auto simp: unopened_def)
    from open_none [OF 1(1) ok(2) this op] show ?thesis using 1(2) unopened_half by (auto simp: sems_ok_def)
  next
    case 2
    from open_one [OF 2(1) ok(2) True op] show ?thesis
      using 2(2) half_opened_idle [OF 2(2) ok(1)] token_idle [of h' w r'] by (auto simp: sems_ok_def both_open_def names_ok_def)
  next
    case 3
    have both: "both_open h" using not_started(3) [OF ok(2) True] 3(1) by (simp add: both_open_def names_ok_def)
    from open_both [OF this ok(2) True op] show ?thesis
      using 3 both not_started [OF ok(2) True] token_stay [OF 3(2), of w r' h'] by (simp add: sems_ok_def names_ok_def both_open_def)
  qed
next
  case False
  then have "names_ok r h \<and> token w r h"
    using ok(3) named_exited(2) [of F r h] step(1) unopened_half by (auto simp: sems_ok_def)
  moreover have mv: "proc_ok r' \<and> moves 0 1 r h r' h'" by (rule reader_moves [OF ok(2) step False])
  ultimately have "names_ok r' h'" "token w r' h'" using token_move_r [of w r h r' h']
    by (auto simp: names_ok_def moves_def)
  then show ?thesis using mv by (simp add: sems_ok_def)
qed


section \<open>What the slot holds\<close>

definition inputs_ok :: "bytes list \<Rightarrow> bool" where
  "inputs_ok ws \<longleftrightarrow> 10 \<le> length ws \<and> (\<forall>w \<in> set ws. length w < 64 \<and> 0 \<notin> set w)"

definition slot_name :: "bytes \<Rightarrow> shared \<Rightarrow> bool" where
  "slot_name t h \<longleftrightarrow> (\<exists>rest. seg h = t @ 0 # rest)"

definition slot_age :: "nat \<Rightarrow> shared \<Rightarrow> bool" where
  "slot_age k h \<longleftrightarrow> mem_read 64 4 (seg h) = Inr (enc_i32 (word_of_int (11 + int k)))"

definition record_out :: "bytes list \<Rightarrow> nat \<Rightarrow> out_event list" where
  "record_out ws k = [PrintName (ws ! k), PrintAge (word_of_int (11 + int k))]"

text \<open>How much of a record a process has put into the slot, or printed.\<close>

definition progress :: "proc \<Rightarrow> nat" where
  "progress p = (case at p of Age \<Rightarrow> 1 | Post \<Rightarrow> 2 | _ \<Rightarrow> 0)"

definition slot_ok :: "bytes list \<Rightarrow> proc \<Rightarrow> proc \<Rightarrow> shared \<Rightarrow> bool" where
  "slot_ok ws w r h \<longleftrightarrow> length (seg h) = 4096 \<and> cin_words h = drop (posts w + of_bool (0 < progress w)) ws \<and>
     (0 < progress w \<or> posts r < posts w \<longrightarrow> slot_name (ws ! posts r) h) \<and>
     (progress w = 2 \<or> posts r < posts w \<longrightarrow> slot_age (posts r) h)"

definition printed_ok :: "bytes list \<Rightarrow> proc \<Rightarrow> shared \<Rightarrow> bool" where
  "printed_ok ws r h \<longleftrightarrow> printed h = concat (map (record_out ws) [0..<posts r]) @ take (progress r) (record_out ws (posts r))"

lemma put_name_slot:
  assumes "length (seg h) = 4096" "cin_words h = t # ts" "length t < 64"
  obtains h' where "put_name 0 h = Inr h'" "length (seg h') = 4096" "cin_words h' = ts" "slot_name t h'" "printed h' = printed h"
  using assms by (auto simp: put_name_def mem_write_Inr slot_name_def)

lemma put_age_slot:
  assumes "length (seg h) = 4096" "slot_name t h" "length t < 64"
  obtains h' where "put_age 64 v h = Inr h'" "length (seg h') = 4096" "cin_words h' = cin_words h" "slot_name t h'"
    "mem_read 64 4 (seg h') = Inr (enc_i32 (word_of_int v))" "printed h' = printed h"
proof -
  obtain rest where rest: "seg h = t @ 0 # rest" using assms(2) by (auto simp: slot_name_def)
  have "take 64 (seg h) = t @ 0 # take (63 - length t) rest" using assms(3) by (simp add: rest take_Cons')
  moreover obtain m where m: "mem_write 64 (enc_i32 (word_of_int v)) (seg h) = Inr m"
    "m = take 64 (seg h) @ enc_i32 (word_of_int v) @ drop 68 (seg h)"
    using assms(1) by (simp add: mem_write_Inr)
  moreover have "mem_read 64 4 m = Inr (enc_i32 (word_of_int v))"
    using mem_read_write_same [OF m(1)] by simp
  ultimately show thesis using assms(1) mem_write_length [OF m(1)]
    by (intro that [of "h\<lparr>seg := m\<rparr>"]) (auto simp: put_age_def slot_name_def)
qed

lemma print_name_slot: "slot_name t h \<Longrightarrow> 0 \<notin> set t \<Longrightarrow> print_name 0 h = Inr (h\<lparr>printed := printed h @ [PrintName t]\<rparr>)"
  by (auto simp: print_name_def slot_name_def c_string_def)

lemma print_age_slot: "slot_age k h \<Longrightarrow> print_age 64 h = Inr (h\<lparr>printed := printed h @ [PrintAge (word_of_int (11 + int k))]\<rparr>)"
  by (simp add: print_age_def slot_age_def)


lemma token_holder:
  assumes "sems_ok w r h" "proc_ok w" "proc_ok r"
  shows "holds_slot w \<Longrightarrow> posts w = posts r \<and> live h = [True, True]"
    and "holds_slot r \<Longrightarrow> posts w = Suc (posts r) \<and> \<not> holds_slot w \<and> live h = [True, True]"
    and "at w = Wait \<or> at r = Wait \<Longrightarrow> live h = [True, True]"
proof -
  have idle: "\<not> holds_slot p \<and> at p \<noteq> Wait" if "half_opened p" for p
    using that by (auto simp: half_opened_def holds_slot_def)
  show "holds_slot w \<Longrightarrow> posts w = posts r \<and> live h = [True, True]" "holds_slot r \<Longrightarrow> posts w = Suc (posts r) \<and> \<not> holds_slot w \<and> live h = [True, True]"
    "at w = Wait \<or> at r = Wait \<Longrightarrow> live h = [True, True]"
    using assms idle unopened_half by (auto simp: sems_ok_def names_ok_def token_def)
qed

text \<open>Steps that touch neither the slot nor the output.\<close>

definition same_data :: "shared \<Rightarrow> shared \<Rightarrow> bool" where
  "same_data h h' \<longleftrightarrow> seg h' = seg h \<and> cin_words h' = cin_words h \<and> printed h' = printed h"

lemma sem_same_data:
  "sem_wait i h = Inr h' \<Longrightarrow> same_data h h'" "sem_post i h = Inr h' \<Longrightarrow> same_data h h'"
  "same_data h (snd (sem_open_r v h))" "same_data h (snd (sem_open_w v h))"
  by (auto simp: sem_wait_def sem_post_def sem_open_r_def sem_open_w_def open_sem_def same_data_def split: if_splits option.splits)

lemma sem_live:
  assumes "live h = [True, True]" "i < 2"
  shows "sem_wait i h \<noteq> Inl f \<or> f = WouldBlock" "sem_post i h \<noteq> Inl f"
  using assms by (auto simp: sem_wait_def sem_post_def less_2_cases_iff)

lemma open_frame:
  assumes "named_open F p h = Some (p', h')" "proc_ok p"
  shows "at p' \<noteq> Fault \<and> same_data h h' \<and> posts p' = posts p \<and> progress p' = 0"
  using assms sem_same_data(3) [of h 0] sem_same_data(4) [of h 1]
  by (cases "at p") (auto simp: named_open_def call_def posts_def progress_def proc_ok_def same_data_def split: if_splits prod.splits)

lemma test_frame:
  assumes "proc_ok p" "at p = Test" and p': "p' = p\<lparr>at := if count p \<noteq> 0 then Wait else Detach, count := count p - 1\<rparr>"
  shows "at p' \<noteq> Fault \<and> posts p' = posts p \<and> progress p' = 0"
  using assms posts_test [OF assms(1,2)] by (simp add: progress_def)

lemma wait_frame:
  assumes "live h = [True, True]" "i < 2" "at p = Wait" "go p h Name (sem_wait i h) = Some (p', h')"
  shows "at p' \<noteq> Fault \<and> same_data h h' \<and> posts p' = posts p \<and> progress p' = 0"
  using assms(3,4) sem_live(1) [OF assms(1,2)] sem_same_data(1) [of i h h'] posts_inside [of p Name]
  by (cases "sem_wait i h") (auto simp: go_def progress_def split: if_splits)

lemma writer_frame:
  assumes "named_writer F w h = Some (w', h')" "proc_ok w" "at w \<notin> {Name, Age, Post}" "at w = Wait \<Longrightarrow> live h = [True, True]"
  shows "at w' \<noteq> Fault \<and> same_data h h' \<and> posts w' = posts w \<and> progress w' = 0"
proof -
  have sem: "sem_w w = 1" using assms(2) by (simp add: proc_ok_def)
  consider "at w \<in> {OpenR, OpenW, Ftok, Get, Attach}" | "at w = Test" | "at w = Wait" | "at w \<notin> {OpenR, OpenW, Ftok, Get, Attach, Test, Wait}"
    by blast
  then show ?thesis
  proof cases
    case 1
    then show ?thesis using open_frame [of F w h w' h'] assms(1,2) by (simp add: named_writer_def)
  next
    case 2
    then show ?thesis using test_frame [OF assms(2) 2 refl] assms(1) by (auto simp: named_writer_def writer_loop_def same_data_def)
  next
    case 3
    then show ?thesis using wait_frame [of h 1 w w' h'] assms(1,4) sem by (simp add: named_writer_def writer_loop_def)
  next
    case 4
    then show ?thesis using assms posts_outside [of w "at w'"]
      by (cases "at w") (auto simp: named_defs same_data_def progress_def split: if_splits)
  qed
qed

lemma reader_frame:
  assumes "named_reader F r h = Some (r', h')" "proc_ok r" "at r \<notin> {Name, Age, Post}" "at r = Wait \<Longrightarrow> live h = [True, True]"
  shows "at r' \<noteq> Fault \<and> same_data h h' \<and> posts r' = posts r \<and> progress r' = 0"
proof -
  have sem: "sem_r r = 0" using assms(2) by (simp add: proc_ok_def)
  consider "at r \<in> {OpenR, OpenW, Ftok, Get, Attach}" | "at r = Test" | "at r = Wait" | "at r \<notin> {OpenR, OpenW, Ftok, Get, Attach, Test, Wait}"
    by blast
  then show ?thesis
  proof cases
    case 1
    then show ?thesis using open_frame [of F r h r' h'] assms(1,2) by (simp add: named_reader_def)
  next
    case 2
    then show ?thesis using test_frame [OF assms(2) 2 refl] assms(1) by (auto simp: named_reader_def reader_loop_def same_data_def)
  next
    case 3
    then show ?thesis using wait_frame [of h 0 r r' h'] assms(1,4) sem by (simp add: named_reader_def reader_loop_def)
  next
    case 4
    then show ?thesis using assms posts_outside [of r "at r'"]
      by (cases "at r") (auto simp: named_defs same_data_def progress_def split: if_splits)
  qed
qed


lemma progress_at: "at p \<notin> {Age, Post} \<Longrightarrow> progress p = 0" "at p = Age \<Longrightarrow> progress p = 1" "at p = Post \<Longrightarrow> progress p = 2"
  "progress (p\<lparr>at := Age\<rparr>) = 1" "progress (p\<lparr>at := Post\<rparr>) = 2" "progress (p\<lparr>at := Test\<rparr>) = 0"
  by (auto simp: progress_def split: point.splits)

lemma posts_bound: "proc_ok p \<Longrightarrow> holds_slot p \<Longrightarrow> posts p < 10 \<and> count p = 9 - int (posts p)"
  by (auto simp: proc_ok_def holds_slot_def posts_def)

lemma input_word: "inputs_ok ws \<Longrightarrow> k < 10 \<Longrightarrow> length (ws ! k) < 64 \<and> 0 \<notin> set (ws ! k) \<and> k < length ws"
  by (auto simp: inputs_ok_def)

lemma writer_data:
  assumes ws: "inputs_ok ws" and ok: "proc_ok w" "proc_ok r" "sems_ok w r h"
    and data: "slot_ok ws w r h" "printed_ok ws r h" and step: "named_writer F w h = Some (w', h')"
  shows "at w' \<noteq> Fault \<and> slot_ok ws w' r h' \<and> printed_ok ws r h'"
proof (cases "holds_slot w")
  case False
  then have "at w \<notin> {Name, Age, Post}" by (simp add: holds_slot_def)
  with writer_frame [OF step ok(1) this] token_holder(3) [OF ok(3,1,2)] show ?thesis
    using data progress_at(1) [of w] by (auto simp: same_data_def slot_ok_def printed_ok_def slot_name_def slot_age_def)
next
  case True
  note pos = posts_bound [OF ok(1) True] and eq = token_holder(1) [OF ok(3,1,2) True]
  have sem: "sem_r w = 0" using ok(1) by (simp add: proc_ok_def)
  have word: "length (ws ! posts w) < 64" "posts w < length ws" using input_word [OF ws] pos by auto
  from True consider "at w = Name" | "at w = Age" | "at w = Post" by (auto simp: holds_slot_def)
  then show ?thesis
  proof cases
    case 1
    then have "cin_words h = ws ! posts w # drop (Suc (posts w)) ws" "length (seg h) = 4096"
      using data(1) word(2) by (auto simp: slot_ok_def progress_at(1) Cons_nth_drop_Suc)
    then obtain g where g: "put_name 0 h = Inr g" "length (seg g) = 4096" "cin_words g = drop (Suc (posts w)) ws"
      "slot_name (ws ! posts w) g" "printed g = printed h" using put_name_slot word(1) by metis
    then have "w' = w\<lparr>at := Age\<rparr>" "h' = g" using step 1 by (auto simp: named_writer_def writer_loop_def go_def)
    then show ?thesis using g eq 1 data(2) posts_inside [of w Age] by (simp add: slot_ok_def printed_ok_def progress_at)
  next
    case 2
    then have "slot_name (ws ! posts w) h" "length (seg h) = 4096" using data(1) eq by (auto simp: slot_ok_def progress_at)
    then obtain g where g: "put_age 64 (20 - count w) h = Inr g" "length (seg g) = 4096" "cin_words g = cin_words h"
      "slot_name (ws ! posts w) g" "mem_read 64 4 (seg g) = Inr (enc_i32 (word_of_int (20 - count w)))" "printed g = printed h"
      using put_age_slot word(1) by metis
    then have "w' = w\<lparr>at := Post\<rparr>" "h' = g" using step 2 by (auto simp: named_writer_def writer_loop_def go_def)
    moreover have "slot_age (posts w) g" using g(5) pos by (simp add: slot_age_def algebra_simps)
    ultimately show ?thesis using g eq 2 data posts_inside [of w Post] by (simp add: slot_ok_def printed_ok_def progress_at)
  next
    case 3
    then obtain g where g: "sem_post 0 h = Inr g" "w' = w\<lparr>at := Test\<rparr>" "h' = g"
      using step sem eq sem_live(2) [of h 0] by (auto simp: named_writer_def writer_loop_def go_def split: sum.splits)
    then show ?thesis using sem_same_data(2) [OF g(1)] posts_post [OF ok(1) 3] eq data 3
      by (auto simp: slot_ok_def printed_ok_def same_data_def slot_name_def slot_age_def progress_at)
  qed
qed


lemma reader_data:
  assumes ws: "inputs_ok ws" and ok: "proc_ok w" "proc_ok r" "sems_ok w r h"
    and data: "slot_ok ws w r h" "printed_ok ws r h" and step: "named_reader F r h = Some (r', h')"
  shows "at r' \<noteq> Fault \<and> slot_ok ws w r' h' \<and> printed_ok ws r' h'"
proof (cases "holds_slot r")
  case False
  then have "at r \<notin> {Name, Age, Post}" by (simp add: holds_slot_def)
  with reader_frame [OF step ok(2) this] token_holder(3) [OF ok(3,1,2)] show ?thesis
    using data progress_at(1) [of r] by (auto simp: same_data_def slot_ok_def printed_ok_def slot_name_def slot_age_def)
next
  case True
  note pos = posts_bound [OF ok(2) True] and eq = token_holder(2) [OF ok(3,1,2) True]
  have sem: "sem_w r = 1" using ok(2) by (simp add: proc_ok_def)
  have slot: "slot_name (ws ! posts r) h" "slot_age (posts r) h" using data(1) eq by (auto simp: slot_ok_def)
  have idle: "progress w = 0" using eq progress_at(1) [of w] by (auto simp: holds_slot_def)
  have word: "0 \<notin> set (ws ! posts r)" using input_word [OF ws] pos by auto
  from True consider "at r = Name" | "at r = Age" | "at r = Post" by (auto simp: holds_slot_def)
  then show ?thesis
  proof cases
    case 1
    then have "r' = r\<lparr>at := Age\<rparr>" "h' = h\<lparr>printed := printed h @ [PrintName (ws ! posts r)]\<rparr>"
      using step print_name_slot [OF slot(1) word] by (auto simp: named_reader_def reader_loop_def go_def)
    then show ?thesis using 1 data posts_inside [of r Age]
      by (simp add: slot_ok_def printed_ok_def progress_at record_out_def slot_name_def slot_age_def)
  next
    case 2
    then have "r' = r\<lparr>at := Post\<rparr>" "h' = h\<lparr>printed := printed h @ [PrintAge (word_of_int (11 + int (posts r)))]\<rparr>"
      using step print_age_slot [OF slot(2)] by (auto simp: named_reader_def reader_loop_def go_def)
    then show ?thesis using 2 data posts_inside [of r Post]
      by (simp add: slot_ok_def printed_ok_def progress_at record_out_def slot_name_def slot_age_def)
  next
    case 3
    then obtain g where g: "sem_post 1 h = Inr g" "r' = r\<lparr>at := Test\<rparr>" "h' = g"
      using step sem eq sem_live(2) [of h 1] by (auto simp: named_reader_def reader_loop_def go_def split: sum.splits)
    then show ?thesis using sem_same_data(2) [OF g(1)] posts_post [OF ok(2) 3] eq idle data 3
      by (auto simp: slot_ok_def printed_ok_def same_data_def progress_at record_out_def)
  qed
qed

text \<open>The invariant of the system, by the interface of transition systems.\<close>

definition sync_inv :: "bytes list \<Rightarrow> system \<Rightarrow> bool" where
  "sync_inv ws s \<longleftrightarrow> inputs_ok ws \<and> proc_ok (writer s) \<and> proc_ok (reader s) \<and> sems_ok (writer s) (reader s) (sh s) \<and>
     slot_ok ws (writer s) (reader s) (sh s) \<and> printed_ok ws (reader s) (sh s) \<and> at (writer s) \<notin> {Remove, UnlinkR, UnlinkW}"

lemma go_point: "go p h pt r = Some (p', h') \<Longrightarrow> at p' \<in> {pt, Fault}"
  by (auto simp: go_def split: sum.splits if_splits)

lemma writer_points: "named_writer F w h = Some (w', h') \<Longrightarrow> at w' \<notin> {Remove, UnlinkR, UnlinkW}"
  by (cases "at w") (auto simp: named_writer_def named_open_def writer_loop_def call_def dest: go_point split: if_splits prod.splits)

definition sync_start :: "bytes list \<Rightarrow> system \<Rightarrow> bool" where
  "sync_start ws s \<longleftrightarrow> inputs_ok ws \<and> (\<exists>m. length m = 4096 \<and> s = start_named m ws)"

lemma inv_writer:
  assumes "sync_inv ws s" and step: "named_writer F (writer s) (sh s) = Some (w', h')"
  shows "sync_inv ws (s\<lparr>writer := w', sh := h'\<rparr>)"
proof -
  from assms(1) have inv: "inputs_ok ws" "proc_ok (writer s)" "proc_ok (reader s)" "sems_ok (writer s) (reader s) (sh s)"
    "slot_ok ws (writer s) (reader s) (sh s)" "printed_ok ws (reader s) (sh s)" by (simp_all add: sync_inv_def)
  from writer_data [OF inv step] writer_sems [OF inv(2-4) step] writer_points [OF step] inv show ?thesis by (simp add: sync_inv_def)
qed

lemma inv_reader:
  assumes "sync_inv ws s" and step: "named_reader F (reader s) (sh s) = Some (r', h')"
  shows "sync_inv ws (s\<lparr>reader := r', sh := h'\<rparr>)"
proof -
  from assms(1) have inv: "inputs_ok ws" "proc_ok (writer s)" "proc_ok (reader s)" "sems_ok (writer s) (reader s) (sh s)"
    "slot_ok ws (writer s) (reader s) (sh s)" "printed_ok ws (reader s) (sh s)" by (simp_all add: sync_inv_def)
  from reader_data [OF inv step] reader_sems [OF inv(2-4) step] assms(1) inv show ?thesis by (simp add: sync_inv_def)
qed

abbreviation named_step :: "(point \<Rightarrow> bool) \<Rightarrow> (point \<Rightarrow> bool) \<Rightarrow> system \<Rightarrow> system \<Rightarrow> bool" where
  "named_step F G \<equiv> shm_step (named_writer F) (named_reader G)"

lemma shm_step_cases:
  assumes "shm_step W R s t"
  obtains w' h' where "W (writer s) (sh s) = Some (w', h')" "t = s\<lparr>writer := w', sh := h'\<rparr>"
    | r' h' where "R (reader s) (sh s) = Some (r', h')" "t = s\<lparr>reader := r', sh := h'\<rparr>"
  using assms by (cases rule: shm_step.cases) (auto simp: step_writer_def step_reader_def)

lemma start_proc_ok:
  "at (start_proc OpenR) = OpenR" "proc_ok (start_proc OpenR)" "posts (start_proc OpenR) = 0" "progress (start_proc OpenR) = 0" "unopened (start_proc OpenR)"
  by (simp_all add: start_proc_def proc_ok_def posts_def progress_def unopened_def)

interpretation named: invariant_system "sync_start ws" "named_step F G" "sync_inv ws" for ws F G
proof
  fix s assume "sync_start ws s"
  then show "sync_inv ws s"
    by (auto simp: sync_start_def sync_inv_def start_named_def start_proc_ok sems_ok_def none_open_def slot_ok_def printed_ok_def)
next
  fix s t assume "sync_inv ws s" and "named_step F G s t"
  from this(2,1) show "sync_inv ws t" by (cases rule: shm_step_cases) (simp_all add: inv_writer inv_reader)
qed


section \<open>Termination and deadlocks\<close>

definition work :: "proc \<Rightarrow> nat" where
  "work p = (case at p of
     OpenR \<Rightarrow> 80 | OpenW \<Rightarrow> 79 | Ftok \<Rightarrow> 78 | Get \<Rightarrow> 77 | Attach \<Rightarrow> 76
   | Test \<Rightarrow> nat (10 + 6 * count p) | Wait \<Rightarrow> nat (15 + 6 * count p) | Name \<Rightarrow> nat (14 + 6 * count p)
   | Age \<Rightarrow> nat (13 + 6 * count p) | Post \<Rightarrow> nat (12 + 6 * count p)
   | Detach \<Rightarrow> 9 | Remove \<Rightarrow> 8 | CloseR \<Rightarrow> 7 | CloseW \<Rightarrow> 6 | UnlinkR \<Rightarrow> 5 | UnlinkW \<Rightarrow> 4 | _ \<Rightarrow> 0)"

lemma work_decreases:
  assumes "proc_ok p" "named_writer F p h = Some (p', h') \<or> named_reader F p h = Some (p', h')"
  shows "work p' < work p"
  using assms
  by (cases "at p") (auto simp: named_writer_def named_reader_def named_open_def writer_loop_def reader_loop_def call_def go_def
      work_def proc_ok_def split: if_splits sum.splits prod.splits)

definition never :: "point \<Rightarrow> bool" where "never pt = False"

lemma go_exit: "go p h pt r = Some (p', h') \<Longrightarrow> at p' = Exit k \<Longrightarrow> pt = Exit k"
  by (auto simp: go_def split: sum.splits if_splits)

lemma writer_exits_at_the_end:
  "proc_ok p \<Longrightarrow> at p' = Exit k \<Longrightarrow> named_writer never p h = Some (p', h') \<Longrightarrow> k = 0 \<and> count p' = -1"
  by (cases "at p") (auto simp: named_writer_def named_open_def writer_loop_def call_def never_def proc_ok_def dest: go_exit
      split: if_splits prod.splits)

lemma reader_exits_at_the_end:
  "proc_ok p \<Longrightarrow> at p' = Exit k \<Longrightarrow> named_reader never p h = Some (p', h') \<Longrightarrow> k = 0 \<and> count p' = -1"
  by (cases "at p") (auto simp: named_reader_def named_open_def reader_loop_def call_def never_def proc_ok_def dest: go_exit
      split: if_splits prod.splits)

lemma go_None: "go p h pt r = None \<longleftrightarrow> r = Inl WouldBlock"
  by (cases r) (auto simp: go_def)

lemma slot_never_blocks:
  "put_name off h \<noteq> Inl WouldBlock" "put_age off v h \<noteq> Inl WouldBlock" "print_name off h \<noteq> Inl WouldBlock"
  "print_age off h \<noteq> Inl WouldBlock" "sem_post i h \<noteq> Inl WouldBlock"
  by (auto simp: put_name_def put_age_def print_name_def print_age_def sem_post_def rbind_def mem_write_def mem_read_def
      c_string_def split: list.splits)

lemma sem_wait_blocks: "sem_wait i h = Inl WouldBlock \<Longrightarrow> sems h ! i = 0"
  by (auto simp: sem_wait_def split: if_splits)

lemma blocked_at_wait:
  assumes "proc_ok p"
  shows "named_writer F p h = None \<Longrightarrow> at p \<notin> {Remove, UnlinkR, UnlinkW} \<Longrightarrow> (\<exists>k. at p = Exit k) \<or> at p = Wait \<and> sems h ! 1 = 0"
    and "named_reader F p h = None \<Longrightarrow> (\<exists>k. at p = Exit k) \<or> at p = Wait \<and> sems h ! 0 = 0"
proof -
  have sem: "sem_r p = 0" "sem_w p = 1" using assms by (simp_all add: proc_ok_def)
  show "named_writer F p h = None \<Longrightarrow> at p \<notin> {Remove, UnlinkR, UnlinkW} \<Longrightarrow> (\<exists>k. at p = Exit k) \<or> at p = Wait \<and> sems h ! 1 = 0"
    using assms sem sem_wait_blocks [of 1 h] by (cases "at p") (simp_all add: named_writer_def named_open_def writer_loop_def call_def go_None
        slot_never_blocks proc_ok_def split: if_splits prod.splits)
  show "named_reader F p h = None \<Longrightarrow> (\<exists>k. at p = Exit k) \<or> at p = Wait \<and> sems h ! 0 = 0"
    using assms sem sem_wait_blocks [of 0 h] by (cases "at p") (simp_all add: named_reader_def named_open_def reader_loop_def call_def go_None
        slot_never_blocks proc_ok_def split: if_splits prod.splits)
qed

text \<open>When neither process can go on, both have ended and everything is printed.\<close>

definition ended :: "proc \<Rightarrow> bool" where
  "ended p \<longleftrightarrow> at p = Exit 0 \<and> count p = -1"

lemma stuck_ended:
  assumes inv: "sync_inv ws s" and exits: "\<And>k. at (writer s) = Exit k \<Longrightarrow> ended (writer s)" "\<And>k. at (reader s) = Exit k \<Longrightarrow> ended (reader s)"
    and stuck: "named_writer F (writer s) (sh s) = None" "named_reader G (reader s) (sh s) = None"
  shows "ended (writer s) \<and> ended (reader s) \<and> posts (reader s) = 10"
proof -
  let ?w = "writer s" and ?r = "reader s" and ?h = "sh s"
  have ok: "proc_ok ?w" "proc_ok ?r" "sems_ok ?w ?r ?h" and pt: "at ?w \<notin> {Remove, UnlinkR, UnlinkW}"
    using inv by (simp_all add: sync_inv_def)
  have w: "ended ?w \<or> at ?w = Wait \<and> sems ?h ! 1 = 0" and r: "ended ?r \<or> at ?r = Wait \<and> sems ?h ! 0 = 0"
    using blocked_at_wait(1) [OF ok(1) stuck(1) pt] blocked_at_wait(2) [OF ok(2) stuck(2)] exits by blast+
  then have "\<not> half_opened ?w" by (auto simp: half_opened_def ended_def)
  then have tk: "token ?w ?r ?h" using ok(3) unopened_half by (auto simp: sems_ok_def)
  have e: "posts p = 10 \<and> \<not> holds_slot p" if "ended p" for p using that by (simp add: ended_def posts_def holds_slot_def)
  have wt: "posts p < 10 \<and> \<not> holds_slot p" if "at p = Wait" "proc_ok p" for p
    using that by (auto simp: posts_def holds_slot_def proc_ok_def)
  show ?thesis using tk w r ok(1,2) e [of ?w] e [of ?r] wt [of ?w] wt [of ?r] by (auto simp: token_def)
qed


section \<open>Properties\<close>

lemma printed_prefix:
  assumes "printed_ok ws r h" "proc_ok r"
  shows "\<exists>rest. printed h @ rest = concat (map (record_out ws) [0..<10])"
proof (cases "posts r < 10")
  case True
  then have "[0..<10] = [0..<posts r] @ posts r # [Suc (posts r)..<10]"
    using upt_add_eq_append [of 0 "posts r" "10 - posts r"] by (simp add: upt_conv_Cons)
  then have "printed h @ drop (progress r) (record_out ws (posts r)) @ concat (map (record_out ws) [Suc (posts r)..<10])
      = concat (map (record_out ws) [0..<10])"
    using assms(1) unfolding printed_ok_def by simp
  then show ?thesis by blast
next
  case False
  then have "posts r = 10" "progress r = 0" using assms(2) by (auto simp: posts_def progress_def proc_ok_def split: point.splits if_splits)
  then show ?thesis using assms(1) by (simp add: printed_ok_def)
qed

lemma stuck_programs:
  assumes "\<nexists>t. shm_step W R s t"
  shows "W (writer s) (sh s) = None" "R (reader s) (sh s) = None"
proof -
  have "step_writer W s = None" "step_reader R s = None"
    using assms by (cases "step_writer W s", auto intro: shm_step.intros) (cases "step_reader R s", auto intro: shm_step.intros)
  then show "W (writer s) (sh s) = None" "R (reader s) (sh s) = None" by (simp_all add: step_writer_def step_reader_def)
qed

lemma reach_rtranclp: "step\<^sup>*\<^sup>* s t \<Longrightarrow> reach init step s \<Longrightarrow> reach init step t"
  by (induction rule: rtranclp_induct) (auto intro: reach_step)

lemma reach_exits:
  assumes "reach (sync_start ws) (named_step never never) s"
  shows "(at (writer s) = Exit k \<longrightarrow> ended (writer s)) \<and> (at (reader s) = Exit k \<longrightarrow> ended (reader s))"
  using assms
proof induction
  case (reach_init s)
  then show ?case by (auto simp: sync_start_def start_named_def start_proc_def)
next
  case (reach_step s t)
  have "proc_ok (writer s)" "proc_ok (reader s)" using named.reach_inv [OF reach_step(1)] by (simp_all add: sync_inv_def)
  with reach_step(2,3) show ?case
    by (cases rule: shm_step_cases) (auto simp: ended_def dest: writer_exits_at_the_end reader_exits_at_the_end)
qed



text \<open>Ten words for the writer.\<close>

definition ten_words :: "bytes list" where
  "ten_words = map (\<lambda>k. [word_of_nat (97 + k)]) [0..<10]"

lemma ten_words_ok: "inputs_ok ten_words"
  by code_simp


text \<open>The writer passes its first record on and waits; then the reader starts; then the writer goes on.\<close>

definition late_reader :: "bool list" where
  "late_reader = [True, True, True, True, True, True, True, True, True, True, False, False, False, False, False,
     True, True, True, True, True, False, False, False, False]"

lemma late_reader_run:
  assumes "length m = 4096"
  shows "map_option (\<lambda>s. printed (sh s)) (run_schedule (anon_writer never) (anon_reader never) late_reader (start_anon m ([97] # [98] # ws)))
    = Some [PrintName [98], PrintAge 12]"
  using assms
  by (simp add: late_reader_def step_writer_def step_reader_def anon_writer_def anon_reader_def anon_init_def start_anon_def
      start_proc_def call_def never_def writer_loop_def reader_loop_def go_def sem_wait_def sem_post_def sem_init_def put_name_def
      put_age_def print_name_def print_age_def mem_write_Inr mem_read_Inr c_string_def cstr_def)

text \<open>With the semaphores in the segment both programs initialise them. When the reader starts after the
  writer has passed on its first record, its initialisation takes the token for that record away: the writer
  overwrites the slot and the first thing the reader prints is the second record. (No call fails, and the
  contents of the fresh segment and the further input do not matter.)\<close>

theorem anon_late_reader_loses_record:
  assumes "length m = 4096"
  shows "\<exists>s. (shm_step (anon_writer never) (anon_reader never))\<^sup>*\<^sup>* (start_anon m ([97] # [98] # ws)) s \<and>
     printed (sh s) = [PrintName [98], PrintAge 12]"
proof -
  obtain s where "run_schedule (anon_writer never) (anon_reader never) late_reader (start_anon m ([97] # [98] # ws)) = Some s"
    "printed (sh s) = [PrintName [98], PrintAge 12]" using late_reader_run [OF assms, of ws] by auto
  then show ?thesis using run_schedule_steps by blast
qed

theorem anon_late_reader_loses_record_witness:
  "\<exists>s. (shm_step (anon_writer never) (anon_reader never))\<^sup>*\<^sup>* (start_anon (replicate 4096 0) ([97] # [98] # [])) s \<and>
     printed (sh s) = [PrintName [98], PrintAge 12]"
  by (rule anon_late_reader_loses_record) simp

end
