(* ===== verification/AsioServer.thy ===== *)
theory AsioServer
  imports Prelude "HOL-Library.Multiset"
begin

text \<open>
  \<^verbatim>\<open>boostAsioTest/serverEnd.cpp\<close> and \<^verbatim>\<open>clientEnd.cpp\<close>: a server that gives every connection an id and a heart beat,
  and its client. The handlers are functions of the state; the asynchronous operations they start are kept
  as the list of pending operations, any of which may complete next with any outcome.
\<close>

section \<open>The server\<close>

text \<open>The outcome of an operation, as far as the handlers tell it apart.\<close>

datatype errc = NoError | Interrupted | BrokenPipe | OtherError

text \<open>A \<open>Client\<close> object; \<open>sock_open\<close> is whether its socket has not been closed by the server.\<close>

record client_obj =
  sock_open :: bool
  nHbtCount :: int
  nId :: int

datatype op = OpAccept nat | OpTimer | OpRead nat | OpWrite nat bytes

text \<open>Objects live in \<open>heap\<close> and are shared by reference; a null pointer in the map is \<open>None\<close>. \<open>std::map\<close> and
  \<open>std::set\<close> are sorted lists.\<close>

record server_end =
  heap :: "client_obj list"
  clientMap :: "(int \<times> nat option) list"
  nMaxCliId :: int
  avaIdSet :: "int list"
  readBuffer :: bytes
  ops :: "op list"

definition heart_beat :: bytes where
  "heart_beat = lit ''Heart Beat'' @ [0]"

definition new_Client :: "int \<Rightarrow> client_obj" where
  "new_Client i = \<lparr>sock_open = True, nHbtCount = 0, nId = i\<rparr>"

definition map_insert_new :: "int \<Rightarrow> 'v \<Rightarrow> (int \<times> 'v) list \<Rightarrow> (int \<times> 'v) list" where
  "map_insert_new k v m = (if k \<in> fst ` set m then m else insort_key fst (k, v) m)"

definition async :: "op \<Rightarrow> server_end \<Rightarrow> server_end" where
  "async x s = s\<lparr>ops := ops s @ [x]\<rparr>"

definition upd_client :: "nat \<Rightarrow> (client_obj \<Rightarrow> client_obj) \<Rightarrow> server_end \<Rightarrow> server_end" where
  "upd_client p f s = s\<lparr>heap := (heap s)[p := f (heap s ! p)]\<rparr>"

definition createClientId :: "server_end \<Rightarrow> int \<times> server_end" where
  "createClientId s = (case avaIdSet s of
     [] \<Rightarrow> (nMaxCliId s + 1, s\<lparr>nMaxCliId := nMaxCliId s + 1\<rparr>)
   | i # is \<Rightarrow> (i, s\<lparr>avaIdSet := is\<rparr>))"

definition asyncAccept :: "server_end \<Rightarrow> server_end" where
  "asyncAccept s = (case createClientId s of (i, s1) \<Rightarrow>
     async (OpAccept (length (heap s1))) (s1\<lparr>heap := heap s1 @ [new_Client i]\<rparr>))"

definition asyncDeadlineHeartBeat :: "server_end \<Rightarrow> server_end" where
  "asyncDeadlineHeartBeat s = async OpTimer s"

text \<open>Closing a socket and giving its id back.\<close>

definition recycle :: "nat \<Rightarrow> server_end \<Rightarrow> server_end" where
  "recycle p s = (let s1 = upd_client p (\<lambda>c. c\<lparr>sock_open := False\<rparr>) s in
     s1\<lparr>avaIdSet := insort_insert (nId (heap s1 ! p)) (avaIdSet s1)\<rparr>)"

text \<open>The body of the loop over the map: the new value of the entry, and the state.\<close>

definition beat :: "nat option \<Rightarrow> server_end \<Rightarrow> nat option \<times> server_end" where
  "beat v s = (case v of None \<Rightarrow> (None, s)
   | Some p \<Rightarrow>
       let s1 = upd_client p (\<lambda>c. c\<lparr>nHbtCount := nHbtCount c + 1\<rparr>) s in
       if nHbtCount (heap s1 ! p) > 5 then (None, recycle p s1) else (Some p, async (OpWrite p heart_beat) s1))"

fun beat_loop :: "(int \<times> nat option) list \<Rightarrow> server_end \<Rightarrow> (int \<times> nat option) list \<times> server_end" where
  "beat_loop [] s = ([], s)"
| "beat_loop ((k, v) # es) s =
     (case beat v s of (v', s1) \<Rightarrow> case beat_loop es s1 of (es', s2) \<Rightarrow> ((k, v') # es', s2))"

definition deadlineTimerHandle :: "server_end \<Rightarrow> server_end" where
  "deadlineTimerHandle s = (case beat_loop (clientMap s) s of (es, s1) \<Rightarrow> asyncDeadlineHeartBeat (s1\<lparr>clientMap := es\<rparr>))"

definition acceptHandler :: "errc \<Rightarrow> nat \<Rightarrow> server_end \<Rightarrow> server_end" where
  "acceptHandler e p s = (let i = nId (heap s ! p) in
     if e \<noteq> NoError then s\<lparr>avaIdSet := insort_insert i (avaIdSet s), clientMap := filter (\<lambda>(k, _). k \<noteq> i) (clientMap s)\<rparr>
     else asyncAccept (async (OpRead p) (s\<lparr>clientMap := map_insert_new i (Some p) (clientMap s)\<rparr>)))"

text \<open>The handler prints the buffer and compares it, as a C string: it reads past the array when there is no
  terminator in it.\<close>

definition readHandler :: "errc \<Rightarrow> int \<Rightarrow> nat \<Rightarrow> server_end \<Rightarrow> server_end res" where
  "readHandler e nbytes p s =
     (if e = NoError then
        if nbytes > 0 then rbind (c_string (readBuffer s)) (\<lambda>t.
          Inr (if t = cstr heart_beat then upd_client p (\<lambda>c. c\<lparr>nHbtCount := 0\<rparr>) s else s))
        else Inr s
      else Inr (if e \<noteq> Interrupted then recycle p s else s))"

definition writeHandler :: "errc \<Rightarrow> nat \<Rightarrow> server_end \<Rightarrow> server_end" where
  "writeHandler e p s = (if e = NoError then async (OpRead p) s else if e = BrokenPipe then recycle p s else s)"

text \<open>\<open>operator()\<close> before \<open>ioService.run()\<close>.\<close>

definition start_server :: "bytes \<Rightarrow> server_end" where
  "start_server buf = asyncDeadlineHeartBeat (asyncAccept
     \<lparr>heap = [], clientMap = [], nMaxCliId = 0, avaIdSet = [], readBuffer = buf, ops = []\<rparr>)"

text \<open>\<open>ioService.run()\<close>: a pending operation completes; a read stores what it received in the one buffer.\<close>

definition complete :: "nat \<Rightarrow> errc \<Rightarrow> bytes \<Rightarrow> server_end \<Rightarrow> server_end res" where
  "complete i e d s = (let x = ops s ! i; s1 = s\<lparr>ops := take i (ops s) @ drop (Suc i) (ops s)\<rparr> in case x of
     OpAccept p \<Rightarrow> Inr (acceptHandler e p s1)
   | OpTimer \<Rightarrow> Inr (deadlineTimerHandle s1)
   | OpRead p \<Rightarrow> readHandler e (int (length d)) p
       (if e = NoError then s1\<lparr>readBuffer := d @ drop (length d) (readBuffer s1)\<rparr> else s1)
   | OpWrite p _ \<Rightarrow> Inr (writeHandler e p s1))"

inductive asio_step :: "server_end \<Rightarrow> server_end \<Rightarrow> bool" where
  asio_complete: "i < length (ops s) \<Longrightarrow> length d \<le> 1024 \<Longrightarrow> complete i e d s = Inr t \<Longrightarrow> asio_step s t"

section \<open>The client\<close>

datatype cop = COpConnect | COpRead | COpWrite bytes

record client_end =
  csock_open :: bool
  cbuffer :: bytes
  cops :: "cop list"

definition casync :: "cop \<Rightarrow> client_end \<Rightarrow> client_end" where
  "casync x c = c\<lparr>cops := cops c @ [x]\<rparr>"

definition hello :: bytes where
  "hello = lit ''Hello From Client'' @ [0]"

text \<open>The message is first formatted into \<open>char str[128]\<close>, with the local port.\<close>

definition received_text :: "bytes \<Rightarrow> int \<Rightarrow> bytes" where
  "received_text t port = lit ''Receive Message: '' @ t @ lit '', Local Port: '' @ lit (show_int port)"

definition client_readHandler :: "int \<Rightarrow> errc \<Rightarrow> int \<Rightarrow> client_end \<Rightarrow> client_end res" where
  "client_readHandler port e nbytes c =
     (if e = NoError then
        if nbytes > 0 then rbind (c_string (cbuffer c)) (\<lambda>t.
          if length (received_text t port) < 128
          then Inr (if t = cstr heart_beat then casync (COpWrite heart_beat) c else c)
          else Inl OutOfBounds)
        else Inr c
      else Inr (if e \<noteq> Interrupted then c\<lparr>csock_open := False\<rparr> else c))"

definition client_writeHandler :: "errc \<Rightarrow> client_end \<Rightarrow> client_end" where
  "client_writeHandler e c = (if e = NoError then casync COpRead c
     else if e = BrokenPipe then c\<lparr>csock_open := False\<rparr> else c)"

definition connectHandler :: "errc \<Rightarrow> client_end \<Rightarrow> client_end" where
  "connectHandler e c = (if e = NoError then casync (COpWrite hello) c else c\<lparr>csock_open := False\<rparr>)"

definition start_client :: "bytes \<Rightarrow> client_end" where
  "start_client buf = casync COpConnect \<lparr>csock_open = True, cbuffer = buf, cops = []\<rparr>"

definition client_complete :: "int \<Rightarrow> errc \<Rightarrow> bytes \<Rightarrow> client_end \<Rightarrow> client_end res" where
  "client_complete port e d c = (case cops c of [] \<Rightarrow> Inr c
   | x # xs \<Rightarrow> let c1 = c\<lparr>cops := xs\<rparr> in case x of
       COpConnect \<Rightarrow> Inr (connectHandler e c1)
     | COpRead \<Rightarrow> client_readHandler port e (int (length d))
         (if e = NoError then c1\<lparr>cbuffer := d @ drop (length d) (cbuffer c1)\<rparr> else c1)
     | COpWrite _ \<Rightarrow> Inr (client_writeHandler e c1))"

section \<open>The invariant of the server\<close>

text \<open>The objects that the map and the pending operations refer to.\<close>

fun op_ref :: "op \<Rightarrow> nat option" where
  "op_ref (OpAccept p) = Some p" | "op_ref OpTimer = None" | "op_ref (OpRead p) = Some p" | "op_ref (OpWrite p _) = Some p"

definition refs :: "(int \<times> nat option) list \<Rightarrow> nat list" where
  "refs es = List.map_filter snd es"

definition entries_ok :: "client_obj list \<Rightarrow> (int \<times> nat option) list \<Rightarrow> bool" where
  "entries_ok h es \<longleftrightarrow> (\<forall>k p. (k, Some p) \<in> set es \<longrightarrow> p < length h \<and> nId (h ! p) = k)"

text \<open>\<open>n\<close> is the number of pending timers: one between two handlers.\<close>

definition srv_ok :: "nat \<Rightarrow> server_end \<Rightarrow> bool" where
  "srv_ok n s \<longleftrightarrow> length (readBuffer s) = 1024 \<and> 0 \<le> nMaxCliId s \<and>
     (\<forall>c \<in> set (heap s). 1 \<le> nId c \<and> nId c \<le> nMaxCliId s) \<and>
     sorted (avaIdSet s) \<and> distinct (avaIdSet s) \<and> set (avaIdSet s) \<subseteq> {1..nMaxCliId s} \<and>
     sorted (map fst (clientMap s)) \<and> distinct (map fst (clientMap s)) \<and> entries_ok (heap s) (clientMap s) \<and>
     (\<forall>x \<in> set (ops s). \<forall>p. op_ref x = Some p \<longrightarrow> p < length (heap s)) \<and>
     count_list (ops s) OpTimer = n"

lemma async_ok: "srv_ok n s \<Longrightarrow> (\<And>p. op_ref x = Some p \<Longrightarrow> p < length (heap s)) \<Longrightarrow> x \<noteq> OpTimer \<Longrightarrow> srv_ok n (async x s)"
  by (auto simp: srv_ok_def async_def)

lemma upd_client_ok:
  assumes "srv_ok n s" "p < length (heap s)" "\<And>c. nId (f c) = nId c"
  shows "srv_ok n (upd_client p f s)"
proof -
  have "nId ((heap s)[p := f (heap s ! p)] ! q) = nId (heap s ! q)" if "q < length (heap s)" for q
    using that assms(3) by (cases "q = p") simp_all
  moreover have "\<forall>c \<in> set ((heap s)[p := f (heap s ! p)]). 1 \<le> nId c \<and> nId c \<le> nMaxCliId s"
    using assms by (auto simp: srv_ok_def dest!: set_update_subset_insert [THEN subsetD])
  ultimately show ?thesis using assms(1) by (simp add: srv_ok_def upd_client_def entries_ok_def)
qed

lemma insort_insert_ok: "sorted xs \<Longrightarrow> distinct xs \<Longrightarrow> sorted (insort_insert x xs) \<and> distinct (insort_insert x xs) \<and> set (insort_insert x xs) = insert x (set xs)"
  by (simp add: sorted_insort_insert distinct_insort_insert set_insort_insert)

lemma give_back_ok:
  assumes "srv_ok n s" "c \<in> set (heap s)"
  shows "srv_ok n (s\<lparr>avaIdSet := insort_insert (nId c) (avaIdSet s)\<rparr>)"
  using assms insort_insert_ok [of "avaIdSet s" "nId c"] by (auto simp: srv_ok_def)

lemma heap_upd_client [simp]: "length (heap (upd_client p f s)) = length (heap s)"
  by (simp add: upd_client_def)

lemma recycle_ok: "srv_ok n s \<Longrightarrow> p < length (heap s) \<Longrightarrow> srv_ok n (recycle p s)"
  unfolding recycle_def Let_def by (intro give_back_ok upd_client_ok) simp_all

lemma createClientId_ok:
  assumes "srv_ok n s" "createClientId s = (i, t)"
  shows "srv_ok n t \<and> 1 \<le> i \<and> i \<le> nMaxCliId t \<and> i \<notin> set (avaIdSet t) \<and> heap t = heap s \<and> ops t = ops s \<and> clientMap t = clientMap s"
  using assms by (auto simp: srv_ok_def createClientId_def add_increasing2 split: list.splits)

lemma entries_ok_append: "entries_ok h es \<Longrightarrow> entries_ok (h @ xs) es"
  by (force simp: entries_ok_def nth_append)

lemma asyncAccept_ok:
  assumes "srv_ok n s" shows "srv_ok n (asyncAccept s)"
proof -
  obtain i t where c: "createClientId s = (i, t)" by (cases "createClientId s")
  have "srv_ok n (t\<lparr>heap := heap t @ [new_Client i]\<rparr>)"
    using createClientId_ok [OF assms c] entries_ok_append [of "heap t" "clientMap t"] by (auto simp: srv_ok_def new_Client_def less_SucI)
  then show ?thesis unfolding asyncAccept_def c prod.case
    by (rule async_ok) auto
qed

text \<open>What a tick does, entry by entry; \<open>late\<close> says whether an object has missed too many beats.\<close>

definition late :: "client_obj \<Rightarrow> bool" where
  "late c \<longleftrightarrow> nHbtCount c + 1 > 5"

definition beaten :: "client_obj \<Rightarrow> client_obj" where
  "beaten c = c\<lparr>nHbtCount := nHbtCount c + 1, sock_open := sock_open c \<and> \<not> late c\<rparr>"

definition kept :: "client_obj list \<Rightarrow> nat option \<Rightarrow> nat option" where
  "kept h v = (case v of None \<Rightarrow> None | Some p \<Rightarrow> if late (h ! p) then None else Some p)"

lemma refs_simps [simp]: "refs [] = []" "refs ((k, None) # es) = refs es" "refs ((k, Some p) # es) = p # refs es"
  by (simp_all add: refs_def List.map_filter_def)

lemma refs_entries: "p \<in> set (refs es) \<longleftrightarrow> (\<exists>k. (k, Some p) \<in> set es)"
  by (induction es rule: list.induct) (auto simp: refs_def List.map_filter_def)

lemma beat_Some:
  assumes "p < length (heap s)" "beat (Some p) s = (v, t)"
  shows "v = kept (heap s) (Some p)" "heap t = (heap s)[p := beaten (heap s ! p)]"
    "ops t = ops s @ (if late (heap s ! p) then [] else [OpWrite p heart_beat])"
    "avaIdSet t = (if late (heap s ! p) then insort_insert (nId (heap s ! p)) (avaIdSet s) else avaIdSet s)"
    "clientMap t = clientMap s"
  using assms by (auto simp: beat_def Let_def upd_client_def recycle_def async_def kept_def late_def beaten_def split: if_splits)

lemma kept_cong: "(\<And>p. v = Some p \<Longrightarrow> late (h' ! p) = late (h ! p)) \<Longrightarrow> kept h' v = kept h v"
  by (auto simp: kept_def split: option.split)

lemma beat_loop_effect:
  "\<lbrakk>distinct (refs es); \<forall>p \<in> set (refs es). p < length (heap s); beat_loop es s = (es', t)\<rbrakk> \<Longrightarrow>
   es' = map (\<lambda>(k, v). (k, kept (heap s) v)) es \<and>
   heap t = map (\<lambda>p. if p \<in> set (refs es) then beaten (heap s ! p) else heap s ! p) [0..<length (heap s)] \<and>
   ops t = ops s @ map (\<lambda>p. OpWrite p heart_beat) (filter (\<lambda>p. \<not> late (heap s ! p)) (refs es)) \<and> clientMap t = clientMap s"
proof (induction es arbitrary: s es')
  case Nil
  then show ?case by (simp add: map_nth)
next
  case (Cons e es)
  obtain k v where e: "e = (k, v)" by (cases e)
  obtain v' s1 where b: "beat v s = (v', s1)" by (cases "beat v s")
  obtain es1 where l: "beat_loop es s1 = (es1, t)" and es': "es' = (k, v') # es1"
    using Cons.prems(3) b by (auto simp: e split: prod.splits)
  show ?case
  proof (cases v)
    case None
    then have "v' = None" "s1 = s" using b by (simp_all add: beat_def)
    then show ?thesis using Cons.IH [OF _ _ l] Cons.prems(1,2) es' by (simp add: e None kept_def)
  next
    case (Some p)
    have p: "p < length (heap s)" "p \<notin> set (refs es)" "distinct (refs es)" "\<forall>q \<in> set (refs es). q < length (heap s)"
      using Cons.prems(1,2) by (simp_all add: e Some)
    note step = beat_Some [OF p(1) b [unfolded Some]]
    have other: "heap s1 ! q = heap s ! q" if "q \<noteq> p" for q using that by (simp add: step)
    have "kept (heap s1) w = kept (heap s) w" if "(j, w) \<in> set es" for j w
      by (rule kept_cong) (use that p(2) other refs_entries in metis)
    then have "map (\<lambda>(k, v). (k, kept (heap s1) v)) es = map (\<lambda>(k, v). (k, kept (heap s) v)) es" by auto
    moreover have "filter (\<lambda>q. \<not> late (heap s1 ! q)) (refs es) = filter (\<lambda>q. \<not> late (heap s ! q)) (refs es)"
      using p(2) other by (metis (mono_tags, lifting) filter_cong)
    moreover have "map (\<lambda>q. if q \<in> set (refs es) then beaten (heap s1 ! q) else heap s1 ! q) [0..<length (heap s1)] =
        map (\<lambda>q. if q \<in> set (refs (e # es)) then beaten (heap s ! q) else heap s ! q) [0..<length (heap s)]"
      using p(1,2) by (auto simp: e Some step(2) nth_list_update)
    moreover note Cons.IH [OF p(3) _ l]
    ultimately show ?thesis using p(4) step(1,3,5) es' by (simp add: e Some step(2))
  qed
qed

lemma beat_ok:
  assumes "srv_ok n s" "\<And>p. v = Some p \<Longrightarrow> p < length (heap s)" "beat v s = (v', t)"
  shows "srv_ok n t \<and> length (heap t) = length (heap s)"
proof (cases v)
  case (Some p)
  let ?u = "upd_client p (\<lambda>c. c\<lparr>nHbtCount := nHbtCount c + 1\<rparr>) s"
  have p: "p < length (heap s)" using assms(2) Some by simp
  have u: "srv_ok n ?u" by (rule upd_client_ok [OF assms(1) p]) simp
  then have "srv_ok n (recycle p ?u)" "srv_ok n (async (OpWrite p heart_beat) ?u)"
    using p by (auto intro!: recycle_ok async_ok)
  then show ?thesis using assms(3) Some by (auto simp: beat_def Let_def recycle_def async_def split: if_splits)
qed (use assms in \<open>simp add: beat_def\<close>)

lemma beat_loop_ok:
  "srv_ok n s \<Longrightarrow> \<forall>p \<in> set (refs es). p < length (heap s) \<Longrightarrow> beat_loop es s = (es', t) \<Longrightarrow> srv_ok n t"
proof (induction es arbitrary: s es')
  case (Cons e es)
  obtain k v where e: "e = (k, v)" by (cases e)
  obtain v' s1 where b: "beat v s = (v', s1)" by (cases "beat v s")
  have valid: "p < length (heap s)" if "v = Some p" for p using Cons.prems(2) that by (simp add: e)
  have "\<forall>p \<in> set (refs es). p < length (heap s)" using Cons.prems(2) by (cases v) (simp_all add: e)
  then show ?case using Cons.IH [of s1] Cons.prems(1,3) beat_ok [OF Cons.prems(1) valid b] b
    by (auto simp: e split: prod.splits)
qed simp

lemma map_refs:
  assumes "entries_ok h es" "distinct (map fst es)"
  shows "distinct (refs es) \<and> (\<forall>p \<in> set (refs es). p < length h)"
  using assms
proof (induction es)
  case (Cons e es)
  obtain k v where e: "e = (k, v)" by (cases e)
  have "distinct (refs es)" "\<forall>p \<in> set (refs es). p < length h" using Cons by (auto simp: entries_ok_def e)
  moreover have "p \<notin> set (refs es) \<and> p < length h" if "v = Some p" for p
  proof
    have p: "p < length h" "nId (h ! p) = k" using Cons.prems(1) that by (auto simp: entries_ok_def e)
    show "p < length h" by (rule p)
    show "p \<notin> set (refs es)"
    proof
      assume "p \<in> set (refs es)"
      then obtain j where j: "(j, Some p) \<in> set es" using refs_entries by blast
      then have "j = k" using Cons.prems(1) p(2) by (auto simp: entries_ok_def)
      then show False using j Cons.prems(2) by (force simp: e)
    qed
  qed
  ultimately show ?case by (cases v) (auto simp: e)
qed simp

lemma entries_ok_kept:
  assumes "entries_ok h es" "length h' = length h" "\<And>p. p < length h \<Longrightarrow> nId (h' ! p) = nId (h ! p)"
  shows "entries_ok h' (map (\<lambda>(k, v). (k, kept h v)) es)"
  using assms by (fastforce simp: entries_ok_def kept_def split: option.splits if_splits)

lemma deadlineTimerHandle_ok:
  assumes "srv_ok 0 s" shows "srv_ok 1 (deadlineTimerHandle s)"
proof -
  obtain es t where l: "beat_loop (clientMap s) s = (es, t)" by (cases "beat_loop (clientMap s) s")
  have m: "distinct (refs (clientMap s))" "\<forall>p \<in> set (refs (clientMap s)). p < length (heap s)"
    using map_refs [of "heap s" "clientMap s"] assms by (simp_all add: srv_ok_def)
  note eff = beat_loop_effect [OF m l]
  have "srv_ok 0 t" by (rule beat_loop_ok [OF assms m(2) l])
  moreover have "entries_ok (heap t) es" using eff assms
    by (auto intro!: entries_ok_kept simp: srv_ok_def beaten_def)
  moreover have "map fst es = map fst (clientMap s)" using eff by auto
  moreover have "clientMap t = clientMap s" using eff by simp
  ultimately show ?thesis by (simp add: deadlineTimerHandle_def l asyncDeadlineHeartBeat_def async_def srv_ok_def)
qed

lemma map_insert_new_ok:
  assumes "sorted (map fst m)" "distinct (map fst m)"
  shows "sorted (map fst (map_insert_new k v m)) \<and> distinct (map fst (map_insert_new k v m))"
proof (cases "k \<in> fst ` set m")
  case False
  then have "mset (map fst (insort_key fst (k, v) m)) = mset (k # map fst m)" by simp
  then have "distinct (map fst (insort_key fst (k, v) m))"
    using False assms(2) by (metis distinct.simps(2) list.set_map mset_eq_imp_distinct_iff)
  then show ?thesis using False assms(1) by (simp add: map_insert_new_def sorted_insort_key)
qed (use assms in \<open>simp add: map_insert_new_def\<close>)

lemma set_map_insert_new: "x \<in> set (map_insert_new k v m) \<Longrightarrow> x = (k, v) \<or> x \<in> set m"
  by (auto simp: map_insert_new_def set_insort_key split: if_splits)

lemma acceptHandler_ok:
  assumes ok: "srv_ok n s" and p: "p < length (heap s)"
  shows "srv_ok n (acceptHandler e p s)"
proof (cases "e = NoError")
  case True
  let ?m = "map_insert_new (nId (heap s ! p)) (Some p) (clientMap s)"
  have "entries_ok (heap s) ?m"
    using ok p set_map_insert_new [of _ "nId (heap s ! p)" "Some p" "clientMap s"] unfolding srv_ok_def entries_ok_def by blast
  then have "srv_ok n (s\<lparr>clientMap := ?m\<rparr>)"
    using ok map_insert_new_ok [of "clientMap s" "nId (heap s ! p)" "Some p"] by (simp add: srv_ok_def)
  then show ?thesis using True p by (auto simp: acceptHandler_def Let_def intro!: asyncAccept_ok async_ok)
next
  case False
  have "sorted (map fst (filter P m)) \<and> distinct (map fst (filter P m))" if "sorted (map fst m)" "distinct (map fst m)"
    for P and m :: "(int \<times> nat option) list"
    using that by (simp add: sorted_filter distinct_map_filter)
  moreover have "srv_ok n (s\<lparr>avaIdSet := insort_insert (nId (heap s ! p)) (avaIdSet s)\<rparr>)"
    by (rule give_back_ok [OF ok]) (use p in simp)
  ultimately show ?thesis using False by (auto simp: acceptHandler_def Let_def srv_ok_def entries_ok_def)
qed

lemma readHandler_ok: "srv_ok n s \<Longrightarrow> p < length (heap s) \<Longrightarrow> readHandler e k p s = Inr t \<Longrightarrow> srv_ok n t"
  by (auto simp: readHandler_def rbind_Inr intro!: upd_client_ok recycle_ok split: if_splits)

lemma writeHandler_ok: "srv_ok n s \<Longrightarrow> p < length (heap s) \<Longrightarrow> srv_ok n (writeHandler e p s)"
  by (auto simp: writeHandler_def intro!: async_ok recycle_ok)

lemma take_op:
  assumes "srv_ok 1 s" "i < length (ops s)"
  shows "srv_ok (if ops s ! i = OpTimer then 0 else 1) (s\<lparr>ops := take i (ops s) @ drop (Suc i) (ops s)\<rparr>)"
proof -
  have "count_list (take i (ops s) @ ops s ! i # drop (Suc i) (ops s)) OpTimer = 1"
    using assms by (simp add: srv_ok_def id_take_nth_drop [symmetric])
  then show ?thesis using assms(1) by (auto simp: srv_ok_def dest: in_set_takeD in_set_dropD split: if_splits)
qed

lemma complete_ok:
  assumes ok: "srv_ok 1 s" and i: "i < length (ops s)" "length d \<le> 1024" and c: "complete i e d s = Inr t"
  shows "srv_ok 1 t"
proof -
  let ?s1 = "s\<lparr>ops := take i (ops s) @ drop (Suc i) (ops s)\<rparr>"
  note s1 = take_op [OF ok i(1)]
  have valid: "p < length (heap s)" if "op_ref (ops s ! i) = Some p" for p
    using ok i(1) that by (auto simp: srv_ok_def)
  show ?thesis
  proof (cases "ops s ! i")
    case (OpRead p)
    have "srv_ok 1 (if e = NoError then ?s1\<lparr>readBuffer := d @ drop (length d) (readBuffer ?s1)\<rparr> else ?s1)"
      using s1 OpRead i(2) by (auto simp: srv_ok_def)
    then show ?thesis using c OpRead valid readHandler_ok by (auto simp: complete_def Let_def)
  qed (use c s1 valid in \<open>auto simp: complete_def Let_def intro!: acceptHandler_ok deadlineTimerHandle_ok [simplified] writeHandler_ok\<close>)
qed

definition server_start :: "server_end \<Rightarrow> bool" where
  "server_start s \<longleftrightarrow> (\<exists>buf. length buf = 1024 \<and> s = start_server buf)"

interpretation asio: invariant_system server_start asio_step "srv_ok 1"
proof
  fix s assume "server_start s"
  then show "srv_ok 1 s"
    by (auto simp: server_start_def start_server_def asyncDeadlineHeartBeat_def asyncAccept_def createClientId_def async_def
        srv_ok_def new_Client_def entries_ok_def)
next
  fix s t assume "srv_ok 1 s" "asio_step s t"
  from this(2,1) show "srv_ok 1 t" by (cases rule: asio_step.cases) (rule complete_ok)
qed

section \<open>Properties\<close>

text \<open>C27: In every reachable state the timer counts one more missed beat for exactly the clients in the map. A
  client for which that makes more than five is closed and its pointer in the map cleared; every other one
  gets one heart beat, in the order of the ids. Objects outside the map are untouched, and the timer is
  started again.\<close>

theorem heartbeat_tick:
  assumes "reach server_start asio_step s" and "i < length (ops s)" and "ops s ! i = OpTimer"
  shows "\<exists>t. complete i e d s = Inr t \<and>
    clientMap t = map (\<lambda>(k, v). (k, kept (heap s) v)) (clientMap s) \<and>
    heap t = map (\<lambda>p. if p \<in> set (refs (clientMap s)) then beaten (heap s ! p) else heap s ! p) [0..<length (heap s)] \<and>
    ops t = (take i (ops s) @ drop (Suc i) (ops s)) @
      map (\<lambda>p. OpWrite p heart_beat) (filter (\<lambda>p. \<not> late (heap s ! p)) (refs (clientMap s))) @ [OpTimer]"
proof -
  let ?s1 = "s\<lparr>ops := take i (ops s) @ drop (Suc i) (ops s)\<rparr>"
  have ok: "srv_ok 1 s" by (rule asio.reach_inv [OF assms(1)])
  obtain es t where l: "beat_loop (clientMap ?s1) ?s1 = (es, t)" by (cases "beat_loop (clientMap ?s1) ?s1")
  have m: "distinct (refs (clientMap ?s1))" "\<forall>p \<in> set (refs (clientMap ?s1)). p < length (heap ?s1)"
    using map_refs [of "heap s" "clientMap s"] ok by (simp_all add: srv_ok_def)
  show ?thesis using beat_loop_effect [OF m l] assms(3) l
    by (simp add: complete_def Let_def deadlineTimerHandle_def asyncDeadlineHeartBeat_def async_def)
qed

text \<open>The first tick, with one client accepted.\<close>

definition zero_buffer :: bytes where
  "zero_buffer = replicate 1024 0"

lemma zero_start: "server_start (start_server zero_buffer)"
  unfolding server_start_def by (rule exI [of _ zero_buffer]) (simp add: zero_buffer_def)

fun run_ops :: "(nat \<times> errc) list \<Rightarrow> server_end \<Rightarrow> server_end option" where
  "run_ops [] s = Some s"
| "run_ops ((i, e) # xs) s = (if i < length (ops s) then
     (case complete i e [] s of Inl _ \<Rightarrow> None | Inr t \<Rightarrow> run_ops xs t) else None)"

lemma run_ops_reach: "run_ops xs s = Some t \<Longrightarrow> reach server_start asio_step s \<Longrightarrow> reach server_start asio_step t"
proof (induction xs arbitrary: s)
  case (Cons x xs)
  obtain i e where x: "x = (i, e)" by (cases x)
  then obtain u where u: "i < length (ops s)" "complete i e [] s = Inr u" "run_ops xs u = Some t"
    using Cons.prems(1) by (auto split: if_splits sum.splits)
  then have "asio_step s u" by (intro asio_complete [of i s "[]" e]) simp_all
  then show ?case using Cons.IH [OF u(3)] Cons.prems(2) by (auto intro: reach_step)
qed simp

lemma one_client:
  "run_ops [(0, NoError)] (start_server buf) =
   Some \<lparr>heap = [new_Client 1, new_Client 2], clientMap = [(1, Some 0)], nMaxCliId = 2, avaIdSet = [],
     readBuffer = buf, ops = [OpTimer, OpRead 0, OpAccept 1]\<rparr>"
  by code_simp

theorem heartbeat_tick_witness:
  "\<exists>t. complete 0 NoError [] \<lparr>heap = [new_Client 1, new_Client 2], clientMap = [(1, Some 0)], nMaxCliId = 2, avaIdSet = [],
     readBuffer = zero_buffer, ops = [OpTimer, OpRead 0, OpAccept 1]\<rparr> = Inr t \<and> clientMap t = [(1, Some 0)] \<and>
     ops t = [OpRead 0, OpAccept 1, OpWrite 0 heart_beat, OpTimer]"
  using heartbeat_tick [OF run_ops_reach [OF one_client [of zero_buffer] reach_init], of 0 NoError "[]"] zero_start
  by (auto simp: kept_def late_def new_Client_def)

text \<open>A connection fails, another one gets its id, and six ticks later the id is given back once more.\<close>

definition id_reuse :: "(nat \<times> errc) list" where
  "id_reuse = [(0, NoError), (1, OtherError), (1, NoError), (2, NoError),
     (0, NoError), (5, NoError), (7, NoError), (9, NoError), (11, NoError), (13, NoError), (2, NoError), (14, NoError)]"

definition two_share :: "server_end \<Rightarrow> bool" where
  "two_share s \<longleftrightarrow> (case (heap s ! 2, heap s ! 4) of (c, d) \<Rightarrow> sock_open c \<and> sock_open d \<and> nId c = nId d) \<and>
     OpRead 2 \<in> set (ops s) \<and> OpRead 4 \<in> set (ops s) \<and> 2 \<notin> set (refs (clientMap s)) \<and> length (heap s) = 6"

lemma id_reuse_run: "case run_ops id_reuse (start_server buf) of None \<Rightarrow> False | Some s \<Rightarrow> two_share s"
  by code_simp

text \<open>A closed connection gives its id back while its entry stays in the map, and a connection accepted
  with such an id is not entered. So there is a run after which two open, accepted connections have the same
  id, and the first of them is not in the map: it gets no heart beat and is never found dead.\<close>

theorem two_connections_share_id:
  "\<exists>s p q. reach server_start asio_step s \<and> p \<noteq> q \<and> p < length (heap s) \<and> q < length (heap s) \<and>
     sock_open (heap s ! p) \<and> sock_open (heap s ! q) \<and> nId (heap s ! p) = nId (heap s ! q) \<and>
     OpRead p \<in> set (ops s) \<and> OpRead q \<in> set (ops s) \<and> p \<notin> set (refs (clientMap s))"
proof -
  obtain s where s: "run_ops id_reuse (start_server zero_buffer) = Some s" "two_share s"
    using id_reuse_run [of zero_buffer] by (auto split: option.splits)
  have "reach server_start asio_step s" by (rule run_ops_reach [OF s(1) reach_init]) (rule zero_start)
  then show ?thesis using s(2) by (intro exI [of _ s] exI [of _ 2] exI [of _ 4]) (simp add: two_share_def)
qed

lemma heart_beat_string: "c_string (heart_beat @ x) = Inr (cstr heart_beat)" "length (cstr heart_beat) = 10" "heart_beat \<noteq> []"
proof -
  have "0 \<notin> set (lit ''Heart Beat'')" by code_simp
  then show "c_string (heart_beat @ x) = Inr (cstr heart_beat)" "length (cstr heart_beat) = 10" "heart_beat \<noteq> []"
    by (simp_all add: heart_beat_def c_string_def)
qed

lemma write_done:
  assumes "ops s ! i = OpWrite p d"
  shows "complete i NoError [] s = Inr (s\<lparr>ops := (take i (ops s) @ drop (Suc i) (ops s)) @ [OpRead p]\<rparr>)"
  using assms by (simp add: complete_def Let_def writeHandler_def async_def)

lemma answer_received:
  assumes "ops s = xs @ [OpRead p]" "p < length (heap s)"
  shows "\<exists>t. complete (length xs) NoError heart_beat s = Inr t \<and> nHbtCount (heap t ! p) = 0"
  using assms heart_beat_string by (simp add: complete_def Let_def readHandler_def upd_client_def)

lemma client_answers:
  assumes "cops c = [COpRead]" "0 \<le> port" "port < 65536"
  shows "\<exists>c1 c2. client_complete port NoError heart_beat c = Inr c1 \<and> cops c1 = [COpWrite heart_beat] \<and>
    client_complete port NoError [] c1 = Inr c2 \<and> cops c2 = [COpRead]"
proof -
  have "length (show_nat (nat port)) \<le> 5" using length_show_nat [of "nat port" 4] assms(2,3) by (simp add: nat_less_iff)
  then have "length (received_text (cstr heart_beat) port) < 128"
    using assms(2) heart_beat_string(2) by (simp add: received_text_def show_int_def)
  then show ?thesis using assms(1) heart_beat_string
    by (simp add: client_complete_def client_readHandler_def casync_def client_writeHandler_def)
qed

text \<open>A heart beat makes the round: once the server's write is through, the client receives it, answers it and
  listens again, and when the answer arrives the server's count of missed beats is back at zero.\<close>

theorem heartbeat_round:
  assumes "srv_ok 1 s" and "i < length (ops s)" and "ops s ! i = OpWrite p heart_beat"
    and "cops c = [COpRead]" and "0 \<le> port" and "port < 65536"
  shows "\<exists>s1 c1 c2 s2. complete i NoError [] s = Inr s1 \<and> ops s1 ! (length (ops s1) - 1) = OpRead p \<and>
    client_complete port NoError heart_beat c = Inr c1 \<and> cops c1 = [COpWrite heart_beat] \<and>
    client_complete port NoError [] c1 = Inr c2 \<and> cops c2 = [COpRead] \<and>
    complete (length (ops s1) - 1) NoError heart_beat s1 = Inr s2 \<and> nHbtCount (heap s2 ! p) = 0"
proof -
  let ?xs = "take i (ops s) @ drop (Suc i) (ops s)"
  let ?s1 = "s\<lparr>ops := ?xs @ [OpRead p]\<rparr>"
  have p: "p < length (heap ?s1)" using assms(1-3) by (auto simp: srv_ok_def dest!: nth_mem)
  have "ops ?s1 = ?xs @ [OpRead p]" by simp
  from answer_received [OF this p] obtain s2 where "complete (length ?xs) NoError heart_beat ?s1 = Inr s2" "nHbtCount (heap s2 ! p) = 0"
    by blast
  moreover have "length (ops ?s1) - 1 = length ?xs" "ops ?s1 ! length ?xs = OpRead p" by (simp_all only: \<open>ops ?s1 = _\<close> nth_append_length length_append_singleton diff_Suc_1)
  ultimately show ?thesis using write_done [OF assms(3)] client_answers [OF assms(4,5,6)] by metis
qed

text \<open>A message of 97 characters or more overruns the client's \<open>char str[128]\<close>, whatever it says.\<close>

lemma client_message_overruns:
  assumes "0 \<notin> set t" "97 \<le> length t" "cbuffer c = t @ 0 # rest" "0 < nbytes"
  shows "client_readHandler port NoError nbytes c = Inl OutOfBounds"
  using assms by (simp add: client_readHandler_def c_string_def received_text_def)

end
