(* ===== verification/ZmqNet.thy ===== *)
theory ZmqNet
  imports Prelude
begin

text \<open>
  \<^verbatim>\<open>zmqtest/zmqnet\<close> (\<open>ZmqServerEnd\<close>, \<open>ZmqClientEnd\<close>): an echo server on a ROUTER socket and its client; and the
  request-reply programs of \<^verbatim>\<open>zmqtest\<close>: clients, broker and workers. A socket is the list of the parts it
  delivers. ZeroMQ itself is not modelled; the documented routing of ROUTER sockets is written out where a
  property needs it.
\<close>

section \<open>Receiving\<close>

text \<open>\<open>zmq_recv\<close> into a buffer: at most \<open>len\<close> bytes are stored, but the result is the size of the part. A part
  is \<open>None\<close> where the call fails with -1; with nothing to receive the call blocks.\<close>

definition zmq_recv :: "nat \<Rightarrow> bytes \<Rightarrow> bytes option list \<Rightarrow> (int \<times> bytes \<times> bytes option list) res" where
  "zmq_recv len buf q = (case q of
     [] \<Rightarrow> Inl WouldBlock
   | None # ps \<Rightarrow> Inr (-1, buf, ps)
   | Some d # ps \<Rightarrow> rbind (mem_write 0 (take len d) buf) (\<lambda>buf'. Inr (int (length d), buf', ps)))"

section \<open>The echo server\<close>

record ZmqClient =
  routerID :: bytes
  clientID :: bytes

text \<open>\<open>allocated\<close> are the objects made by \<open>new\<close>.\<close>

record ZmqServerEnd =
  mapClients :: "bytes \<rightharpoonup> ZmqClient"
  nPort :: int
  bStop :: bool
  allocated :: "ZmqClient list"

definition new_ZmqServerEnd :: ZmqServerEnd where
  "new_ZmqServerEnd = \<lparr>mapClients = Map.empty, nPort = 57900, bStop = False, allocated = []\<rparr>"

definition SetPort :: "int \<Rightarrow> ZmqServerEnd \<Rightarrow> ZmqServerEnd" where "SetPort port s = s\<lparr>nPort := port\<rparr>"
definition Port :: "ZmqServerEnd \<Rightarrow> int" where "Port s = nPort s"
definition server_Stop :: "ZmqServerEnd \<Rightarrow> ZmqServerEnd" where "server_Stop s = s\<lparr>bStop := True\<rparr>"

text \<open>The address given to \<open>zmq_bind\<close>, formatted into \<open>char addr[64]\<close>.\<close>

definition server_Start :: "ZmqServerEnd \<Rightarrow> (ZmqServerEnd \<times> bytes) res" where
  "server_Start s = (let addr = lit ''tcp://*:'' @ lit (show_int (nPort s)) in
     if length addr < 64 then Inr (s\<lparr>bStop := False\<rparr>, addr) else Inl OutOfBounds)"

text \<open>\<open>ZmqServerEnd::Send\<close>: the parts it sends, for \<open>len\<close> bytes at \<open>data\<close>.\<close>

definition server_Send :: "bytes \<Rightarrow> bytes \<Rightarrow> nat \<Rightarrow> frame list res" where
  "server_Send routerid data len = rbind (mem_read 0 len data) (\<lambda>d. Inr [(routerid, True), (d, False)])"

definition MsgHandle :: "bytes \<Rightarrow> bytes \<Rightarrow> bytes \<Rightarrow> nat \<Rightarrow> ZmqServerEnd \<Rightarrow> (ZmqServerEnd \<times> frame list) res" where
  "MsgHandle routerid clientid pdata nlen s =
     rbind (mem_read 0 nlen pdata) (\<lambda>_.
       let s1 = (case mapClients s clientid of
            None \<Rightarrow> s\<lparr>allocated := allocated s @ [\<lparr>routerID = routerid, clientID = clientid\<rparr>]\<rparr>
          | Some client \<Rightarrow> s) in
       rbind (server_Send routerid pdata nlen) (\<lambda>fs. Inr (s1, fs)))"

text \<open>\<open>std::string(recvarr, nrecv)\<close>.\<close>

definition string_of :: "bytes \<Rightarrow> int \<Rightarrow> bytes res" where
  "string_of buf nrecv = mem_read 0 (nat nrecv) buf"

text \<open>One round of \<open>pollFunction\<close> with something to receive: the buffer, the remaining parts, the server and
  what it sent.\<close>

definition poll_message :: "bytes \<Rightarrow> bytes option list \<Rightarrow> ZmqServerEnd \<Rightarrow> (bytes \<times> bytes option list \<times> ZmqServerEnd \<times> frame list) res" where
  "poll_message buf q s =
     rbind (zmq_recv 65536 buf q) (\<lambda>(n1, b1, q1).
     if n1 < 0 then Inr (b1, q1, s, []) else
     rbind (string_of b1 n1) (\<lambda>routerid.
     rbind (zmq_recv 65536 b1 q1) (\<lambda>(n2, b2, q2).
     if n2 < 0 then Inr (b2, q2, s, []) else
     rbind (string_of b2 n2) (\<lambda>clientid.
     rbind (zmq_recv 65536 b2 q2) (\<lambda>(n3, b3, q3).
     if n3 < 0 then Inr (b3, q3, s, []) else
     rbind (MsgHandle routerid clientid b3 (nat n3) s) (\<lambda>(s', fs). Inr (b3, q3, s', fs)))))))"

lemma zmq_recv_consumes: "zmq_recv n buf q = Inr (k, b, q') \<Longrightarrow> length q' < length q"
  by (auto simp: zmq_recv_def rbind_Inr split: list.splits option.splits)

lemma poll_message_consumes: "poll_message buf q s = Inr (b, q', s', fs) \<Longrightarrow> length q' < length q"
  by (auto simp: poll_message_def rbind_Inr split: if_splits dest!: zmq_recv_consumes)

text \<open>\<open>pollFunction\<close> until the socket is empty.\<close>

function pollFunction :: "bytes \<Rightarrow> bytes option list \<Rightarrow> ZmqServerEnd \<Rightarrow> (ZmqServerEnd \<times> frame list) res" where
  "pollFunction buf q s =
     (if bStop s \<or> q = [] then Inr (s, [])
      else case poll_message buf q s of
        Inl f \<Rightarrow> Inl f
      | Inr (b, q', s', fs) \<Rightarrow> rbind (pollFunction b q' s') (\<lambda>(t, gs). Inr (t, fs @ gs)))"
  by pat_completeness auto
termination
  by (relation "measure (\<lambda>(buf, q, s). length q)") (auto dest: poll_message_consumes)

declare pollFunction.simps [simp del]

section \<open>Its client\<close>

definition client_Send :: "bytes \<Rightarrow> bytes \<Rightarrow> frame list" where
  "client_Send cid data = [(cid, True), (data, False)]"

definition client_Receive :: "bytes \<Rightarrow> nat \<Rightarrow> bytes option list \<Rightarrow> (int \<times> bytes \<times> bytes option list) res" where
  "client_Receive data nlen q = zmq_recv nlen data q"

definition client_Connect :: "bytes \<Rightarrow> bytes" where
  "client_Connect serverAddr = lit ''tcp://'' @ serverAddr"

section \<open>Request and reply\<close>

text \<open>\<open>server.cpp\<close> and \<open>reqrepworker.cpp\<close>: the answer to a request. Both arrays have 32 bytes.\<close>

definition first_digit :: "bytes \<Rightarrow> nat" where
  "first_digit buf = length (takeWhile (\<lambda>b. \<not> (48 \<le> b \<and> b \<le> 57)) (take 31 buf))"

definition world_reply :: "bytes \<Rightarrow> bytes res" where
  "world_reply d =
     rbind (mem_write 0 (take 31 d) (replicate 32 0)) (\<lambda>recvstr.
     let recv2 = (if length d > 31 then recvstr[31 := 0] else recvstr);
         txt = lit ''World_'' @ cstr (drop (first_digit recv2) recv2) in
     if length txt < 32 then Inr txt else Inl OutOfBounds)"

text \<open>\<open>reqrepbroker.cpp\<close>: one of the two loops that move a message from one socket to the other.\<close>

fun broker_loop :: "frame list \<Rightarrow> (frame list \<times> frame list) res" where
  "broker_loop [] = Inl WouldBlock"
| "broker_loop ((d, rcvmore) # fs) =
     (if rcvmore then rbind (broker_loop fs) (\<lambda>(out, rest). Inr ((d, True) # out, rest)) else Inr ([(d, False)], fs))"

text \<open>One round of the broker: what it sends to the back end and to the front end.\<close>

definition broker_round :: "frame list \<Rightarrow> frame list \<Rightarrow> ((frame list \<times> frame list) \<times> frame list \<times> frame list) res" where
  "broker_round front back =
     rbind (if front \<noteq> [] then broker_loop front else Inr ([], front)) (\<lambda>(to_back, front').
     rbind (if back \<noteq> [] then broker_loop back else Inr ([], back)) (\<lambda>(to_front, back').
     Inr ((to_back, to_front), front', back')))"

text \<open>\<open>reqrepclient.cpp\<close>: the text sent in round \<open>i\<close>, and what is printed of the answer.\<close>

definition client_request :: "int \<Rightarrow> bytes" where
  "client_request i = lit ''Hello_'' @ lit (show_int i)"

definition client_prints :: "bytes \<Rightarrow> bytes" where
  "client_prints d = cstr (take 31 d @ [0])"

text \<open>\<open>client.cpp\<close> uses a DEALER socket and writes the delimiter itself; the answer is copied unchecked into
  \<open>char recvstr[32]\<close>.\<close>

definition dealer_request :: "int \<Rightarrow> frame list" where
  "dealer_request i = [([], True), (client_request i, False)]"

definition dealer_prints :: "bytes \<Rightarrow> bytes \<Rightarrow> bytes \<Rightarrow> bytes res" where
  "dealer_prints buf delimiter d = (if delimiter \<noteq> [] then Inl AssertFail
     else rbind (mem_write 0 (d @ [0]) buf) (\<lambda>b. Inr (cstr b)))"

section \<open>Lemmas\<close>

lemma zmq_recv_fits:
  assumes "length buf = 65536" "length d \<le> 65536"
  shows "\<exists>b. zmq_recv 65536 buf (Some d # ps) = Inr (int (length d), b, ps) \<and> length b = 65536 \<and> mem_read 0 (length d) b = Inr d"
  using assms by (simp add: zmq_recv_def mem_write_Inr mem_read_Inr)

lemma zmq_recv_truncates:
  assumes "length buf = 65536" "65536 < length d"
  shows "\<exists>b. zmq_recv 65536 buf (Some d # ps) = Inr (int (length d), b, ps) \<and> length b = 65536"
  using assms by (simp add: zmq_recv_def mem_write_Inr)

lemma string_of_read: "mem_read 0 (length d) b = Inr d \<Longrightarrow> string_of b (int (length d)) = Inr d"
  by (simp add: string_of_def)

lemma MsgHandle_echo:
  assumes "mem_read 0 n b = Inr d"
  shows "\<exists>s'. MsgHandle r c b n s = Inr (s', [(r, True), (d, False)]) \<and> bStop s' = bStop s \<and> mapClients s' = mapClients s \<and>
    (mapClients s c = None \<longrightarrow> allocated s' = allocated s @ [\<lparr>routerID = r, clientID = c\<rparr>])"
  using assms by (simp add: MsgHandle_def server_Send_def Let_def split: option.split)

lemma poll_message_echo:
  assumes buf: "length buf = 65536" and len: "length r \<le> 65536" "length c \<le> 65536" "length d \<le> 65536"
  shows "\<exists>b s'. poll_message buf (Some r # Some c # Some d # q) s = Inr (b, q, s', [(r, True), (d, False)]) \<and> length b = 65536 \<and>
    bStop s' = bStop s \<and> mapClients s' = mapClients s \<and>
    (mapClients s c = None \<longrightarrow> allocated s' = allocated s @ [\<lparr>routerID = r, clientID = c\<rparr>])"
proof -
  obtain b1 where 1: "zmq_recv 65536 buf (Some r # Some c # Some d # q) = Inr (int (length r), b1, Some c # Some d # q)"
    "length b1 = 65536" "mem_read 0 (length r) b1 = Inr r" using zmq_recv_fits [OF buf len(1)] by blast
  obtain b2 where 2: "zmq_recv 65536 b1 (Some c # Some d # q) = Inr (int (length c), b2, Some d # q)"
    "length b2 = 65536" "mem_read 0 (length c) b2 = Inr c" using zmq_recv_fits [OF 1(2) len(2)] by blast
  obtain b3 where 3: "zmq_recv 65536 b2 (Some d # q) = Inr (int (length d), b3, q)"
    "length b3 = 65536" "mem_read 0 (length d) b3 = Inr d" using zmq_recv_fits [OF 2(2) len(3)] by blast
  show ?thesis using MsgHandle_echo [OF 3(3), of r c s] 3(2)
    by (auto simp: poll_message_def 1 2 3 string_of_read)
qed

text \<open>What the server receives for messages \<open>(router id, client id, data)\<close> and what it answers.\<close>

definition incoming :: "(bytes \<times> bytes \<times> bytes) list \<Rightarrow> bytes option list" where
  "incoming ms = concat (map (\<lambda>(r, c, d). [Some r, Some c, Some d]) ms)"

definition echoes :: "(bytes \<times> bytes \<times> bytes) list \<Rightarrow> frame list" where
  "echoes ms = concat (map (\<lambda>(r, c, d). [(r, True), (d, False)]) ms)"

definition msg_fits :: "bytes \<times> bytes \<times> bytes \<Rightarrow> bool" where
  "msg_fits m \<longleftrightarrow> (case m of (r, c, d) \<Rightarrow> length r \<le> 65536 \<and> length c \<le> 65536 \<and> length d \<le> 65536)"

lemma pollFunction_echoes:
  "\<lbrakk>length buf = 65536; \<not> bStop s; mapClients s = Map.empty; \<forall>m \<in> set ms. msg_fits m\<rbrakk> \<Longrightarrow>
   \<exists>t. pollFunction buf (incoming ms) s = Inr (t, echoes ms) \<and> mapClients t = Map.empty \<and>
     allocated t = allocated s @ map (\<lambda>(r, c, d). \<lparr>routerID = r, clientID = c\<rparr>) ms"
proof (induction ms arbitrary: buf s)
  case Nil
  then show ?case by (subst pollFunction.simps) (simp add: incoming_def echoes_def)
next
  case (Cons m ms)
  obtain r c d where m: "m = (r, c, d)" by (cases m)
  obtain b s' where step: "poll_message buf (Some r # Some c # Some d # incoming ms) s = Inr (b, incoming ms, s', [(r, True), (d, False)])"
    "length b = 65536" "bStop s' = bStop s" "mapClients s' = mapClients s"
    "allocated s' = allocated s @ [\<lparr>routerID = r, clientID = c\<rparr>]"
    using poll_message_echo [OF Cons.prems(1), of r c d "incoming ms" s] Cons.prems(3,4) by (auto simp: m msg_fits_def)
  obtain t where "pollFunction b (incoming ms) s' = Inr (t, echoes ms)" "mapClients t = Map.empty"
    "allocated t = allocated s' @ map (\<lambda>(r, c, d). \<lparr>routerID = r, clientID = c\<rparr>) ms"
    using Cons.IH [of b s'] Cons.prems step by auto
  then show ?case using step Cons.prems(2)
    by (subst pollFunction.simps) (simp add: incoming_def echoes_def m)
qed

text \<open>What a ROUTER socket hands to the peer \<open>rid\<close> of the parts sent to it: the data parts behind that id.\<close>

fun routed_to :: "bytes \<Rightarrow> frame list \<Rightarrow> bytes list" where
  "routed_to rid ((r, True) # (d, False) # fs) = (if r = rid then [d] else []) @ routed_to rid fs"
| "routed_to rid _ = []"

lemma routed_echoes: "routed_to rid (echoes ms) = [d. (r, c, d) \<leftarrow> ms, r = rid]"
  by (induction ms) (auto simp: echoes_def)

lemma broker_loop_message: "ms \<noteq> [] \<Longrightarrow> broker_loop (multipart ms @ rest) = Inr (multipart ms, rest)"
  by (induction ms rule: multipart.induct) auto

lemma multipart_eq_Nil: "multipart ms = [] \<longleftrightarrow> ms = []"
  by (cases ms rule: multipart.cases) auto

text \<open>A part that does not fit is truncated, but its full size is used to read the buffer.\<close>

lemma oversized_part_overreads:
  assumes "length buf = 65536" "length r \<le> 65536" "length c \<le> 65536" "65536 < length d"
  shows "poll_message buf (Some r # Some c # Some d # q) s = Inl OutOfBounds"
proof -
  obtain b1 where 1: "zmq_recv 65536 buf (Some r # Some c # Some d # q) = Inr (int (length r), b1, Some c # Some d # q)"
    "length b1 = 65536" "mem_read 0 (length r) b1 = Inr r" using zmq_recv_fits [OF assms(1,2)] by blast
  obtain b2 where 2: "zmq_recv 65536 b1 (Some c # Some d # q) = Inr (int (length c), b2, Some d # q)"
    "length b2 = 65536" "mem_read 0 (length c) b2 = Inr c" using zmq_recv_fits [OF 1(2) assms(3)] by blast
  obtain b3 where 3: "zmq_recv 65536 b2 (Some d # q) = Inr (int (length d), b3, q)" "length b3 = 65536"
    using zmq_recv_truncates [OF 2(2) assms(4)] by blast
  have "mem_read 0 (length d) b3 = Inl OutOfBounds" using 3(2) assms(4) by (simp add: mem_read_def)
  then show ?thesis by (simp add: poll_message_def 1 2 3 string_of_read MsgHandle_def)
qed

text \<open>A message of one part (without client id) shifts the reading: the router id of the next message is
  echoed as data.\<close>

lemma short_message_desynchronises:
  assumes "length buf = 65536" "length r \<le> 65536" "length d \<le> 65536" "length r2 \<le> 65536"
  shows "\<exists>b s'. poll_message buf (Some r # Some d # Some r2 # q) s = Inr (b, q, s', [(r, True), (r2, False)])"
  using poll_message_echo [OF assms(1,2,3,4), of q s] by blast

text \<open>Bounds of the answer of the workers.\<close>

lemma world_reply_overruns:
  assumes "length d = 31" "\<forall>b \<in> set d. 48 \<le> b \<and> b \<le> 57"
  shows "world_reply d = Inl OutOfBounds"
proof -
  have nz: "0 \<notin> set d" using assms(2) by auto
  have "first_digit (d @ [0]) = 0" using assms by (cases d) (auto simp: first_digit_def)
  then have "length (cstr (drop (first_digit (d @ [0])) (d @ [0]))) = 31" using assms(1) nz by simp
  then show ?thesis using assms(1) by (simp add: world_reply_def mem_write_Inr Let_def)
qed

section \<open>Properties\<close>

text \<open>C36: Whatever messages its clients send, in whatever order they arrive, as long as no part is longer than
  65536 bytes, the server returns to every peer exactly the data that peer sent, in order, and to no other.
  (Every message leaves a \<open>ZmqClient\<close> object behind that is never entered in the map.)\<close>

theorem echo_server:
  assumes "length buf = 65536" and "\<forall>m \<in> set ms. msg_fits m"
  shows "\<exists>t out. pollFunction buf (incoming ms) new_ZmqServerEnd = Inr (t, out) \<and>
    (\<forall>rid. routed_to rid out = [d. (r, c, d) \<leftarrow> ms, r = rid]) \<and>
    mapClients t = Map.empty \<and> length (allocated t) = length ms"
proof -
  have "\<not> bStop new_ZmqServerEnd" "mapClients new_ZmqServerEnd = Map.empty" "allocated new_ZmqServerEnd = []"
    by (simp_all add: new_ZmqServerEnd_def)
  with pollFunction_echoes [OF assms(1) _ _ assms(2), of new_ZmqServerEnd] routed_echoes show ?thesis by fastforce
qed

theorem echo_server_witness:
  "\<exists>t out. pollFunction (replicate 65536 0) (incoming [([1], [9], [5]), ([2], [8], [6]), ([1], [9], [7])]) new_ZmqServerEnd = Inr (t, out) \<and>
    routed_to [1] out = [[5], [7]] \<and> routed_to [2] out = [[6]]"
proof -
  let ?ms = "[([1], [9], [5]), ([2], [8], [6]), ([1], [9], [7])] :: (bytes \<times> bytes \<times> bytes) list"
  have "\<forall>m \<in> set ?ms. msg_fits m" by (simp add: msg_fits_def)
  then obtain t out where "pollFunction (replicate 65536 0) (incoming ?ms) new_ZmqServerEnd = Inr (t, out)"
    and r: "\<forall>rid. routed_to rid out = [d. (r, c, d) \<leftarrow> ?ms, r = rid]" using echo_server [of "replicate 65536 0" ?ms] by auto
  moreover have "routed_to [1] out = [[5], [7]]" "routed_to [2] out = [[6]]" using r by simp_all
  ultimately show ?thesis by blast
qed

text \<open>The ten requests of a client reach a worker through the broker with their envelope \<open>env\<close> (the router id and
  the delimiter) intact, the worker answers \<open>Hello_i\<close> by \<open>World_i\<close>, and the answer comes back with the same
  envelope and is printed whole.\<close>

lemma worker_answers:
  "i \<in> {0..<10} \<Longrightarrow> world_reply (client_request i) = Inr (lit ''World_'' @ lit (show_int i)) \<and>
    client_prints (lit ''World_'' @ lit (show_int i)) = lit ''World_'' @ lit (show_int i)"
proof -
  assume "i \<in> {0..<10}"
  then have "i \<in> set [0, 1, 2, 3, 4, 5, 6, 7, 8, 9]" by (simp, presburger)
  moreover have "list_all (\<lambda>i. world_reply (client_request i) = Inr (lit ''World_'' @ lit (show_int i)) \<and>
      client_prints (lit ''World_'' @ lit (show_int i)) = lit ''World_'' @ lit (show_int i)) [0, 1, 2, 3, 4, 5, 6, 7, 8, 9]"
    by code_simp
  ultimately show ?thesis by (simp only: list_all_iff)
qed

theorem request_reply_round:
  assumes "i \<in> {0..<10}"
  shows "\<exists>answer. broker_round (multipart (env @ [client_request i]) @ front) [] = Inr ((multipart (env @ [client_request i]), []), front, []) \<and>
    world_reply (client_request i) = Inr answer \<and>
    broker_round [] (multipart (env @ [answer]) @ back) = Inr (([], multipart (env @ [answer])), [], back) \<and>
    client_prints answer = lit ''World_'' @ lit (show_int i)"
  using worker_answers [OF assms] by (auto simp: broker_round_def broker_loop_message multipart_eq_Nil)

end
