(* ===== verification/SplitMd.thy ===== *)
theory SplitMd
  imports Prelude
begin

text \<open>
  \<^verbatim>\<open>trivials/splitMdFile.cpp\<close>: a program that splits a CSV file by its first column. The parent sends each line
  through a pipe to the process for its key; each process writes one file. Pipes deliver their bytes in
  chunks of any size.
\<close>

section \<open>Splitting a line\<close>

definition find_first_of :: "bytes \<Rightarrow> bytes \<Rightarrow> nat \<Rightarrow> nat option" where
  "find_first_of s ds pos = (let k = length (takeWhile (\<lambda>c. c \<notin> set ds) (drop pos s)) in
     if pos + k < length s then Some (pos + k) else None)"

lemma find_first_of_bounds: "find_first_of s ds pos = Some r \<Longrightarrow> pos \<le> r \<and> r < length s \<and> s ! r \<in> set ds"
proof -
  assume "find_first_of s ds pos = Some r"
  then have r: "r = pos + length (takeWhile (\<lambda>c. c \<notin> set ds) (drop pos s))" "r < length s"
    by (auto simp: find_first_of_def Let_def split: if_splits)
  have "length (takeWhile (\<lambda>c. c \<notin> set ds) (drop pos s)) < length (drop pos s)" using r by auto
  from nth_length_takeWhile [OF this] show ?thesis using r by simp
qed

text \<open>The loop from \<open>lpos\<close>; \<open>substr\<close> throws when its position is past the end.\<close>

function split_loop :: "bytes \<Rightarrow> bytes \<Rightarrow> nat \<Rightarrow> bytes list res" where
  "split_loop s ds lpos =
     (if lpos > length s then Inl OutOfBounds
      else case find_first_of s ds lpos of
        None \<Rightarrow> Inr [drop lpos s]
      | Some r \<Rightarrow> rbind (split_loop s ds (r + length ds)) (\<lambda>xs. Inr (take (r - lpos) (drop lpos s) # xs)))"
  by pat_completeness auto
termination
proof (relation "measure (\<lambda>(s, ds, lpos). Suc (length s) - lpos)")
  fix s ds lpos r
  assume "\<not> length s < lpos" "find_first_of s ds lpos = Some r"
  moreover from this find_first_of_bounds have "lpos \<le> r" "r < length s" "s ! r \<in> set ds" by blast+
  moreover from this have "0 < length ds" by (cases ds) auto
  ultimately have "Suc (length s) - (r + length ds) < Suc (length s) - lpos" by linarith
  then show "((s, ds, r + length ds), s, ds, lpos) \<in> measure (\<lambda>(s, ds, lpos). Suc (length s) - lpos)" by simp
qed simp

declare split_loop.simps [simp del]

definition splitString :: "bytes \<Rightarrow> bytes \<Rightarrow> bytes list res" where
  "splitString srcstr delimiter = split_loop srcstr delimiter 0"

section \<open>Pipes\<close>

text \<open>A pipe is the list of the chunks that successive reads find: an empty chunk is the end of the file,
  an empty list an empty pipe (the read fails with \<open>EAGAIN\<close>).\<close>

type_synonym pipe = "bytes list"

text \<open>\<open>fixread\<close>: the result, the bytes stored, and the pipe afterwards. A negative length asks for everything.\<close>

function fixread :: "int \<Rightarrow> pipe \<Rightarrow> bytes \<Rightarrow> int \<times> bytes \<times> pipe" where
  "fixread len p acc =
     (if int (length acc) = len then (len, acc, p)
      else case p of
        [] \<Rightarrow> (if acc = [] then -1 else int (length acc), acc, [])
      | c # cs \<Rightarrow>
          if c = [] then (int (length acc), acc, p)
          else let n = (if len - int (length acc) < 0 then length c else min (length c) (nat (len - int (length acc)))) in
            fixread len (if n = length c then cs else drop n c # cs) (acc @ take n c))"
  by pat_completeness auto
termination
  by (relation "measure (\<lambda>(len, p, acc). length (concat p))") (auto simp: min_def split: if_splits)

declare fixread.simps [simp del]

text \<open>\<open>fixwrite\<close> of a frame, into a pipe with room for it: the length as an \<open>int\<close>, then the text.\<close>

definition frame_of :: "bytes \<Rightarrow> bytes" where
  "frame_of t = enc_i32 (word_of_int (int (length t))) @ t"

section \<open>A child process\<close>

text \<open>\<open>line\<close> is the parent's variable at the time of the fork. \<open>find_first_of("end")\<close> looks for any of the
  three letters.\<close>

definition stops :: "bytes \<Rightarrow> bool" where
  "stops t \<longleftrightarrow> find_first_of t (lit ''end'') 0 \<noteq> None"

text \<open>One round of the loop: \<open>None\<close> when the process returns, else what it writes and the pipe. \<open>u\<close> is what the
  uninitialised length holds.\<close>

definition child_round :: "bytes \<Rightarrow> bytes \<Rightarrow> pipe \<Rightarrow> (bytes list \<times> pipe) option res" where
  "child_round line u p = (case fixread 4 p [] of (r, b, p1) \<Rightarrow>
     if r < 1 then Inr (Some ([], p1))
     else case fixread (sint (dec_i32 (b @ drop (length b) u))) p1 [] of (n, t, p2) \<Rightarrow>
       if length t > 512 then Inl OutOfBounds
       else if n > 0 then
         rbind (c_string (t @ replicate (512 - length t) 0)) (\<lambda>str.
           Inr (if stops str then None else Some ([line], p2)))
       else if n < 0 then Inr (Some ([], p2))
       else Inr (Some ([], p2)))"

text \<open>The loop, as far as the pipe reaches; the flag is whether the process has returned.\<close>

fun child_loop :: "nat \<Rightarrow> bytes \<Rightarrow> bytes \<Rightarrow> pipe \<Rightarrow> (bytes list \<times> bool) res" where
  "child_loop 0 line u p = Inr ([], False)"
| "child_loop (Suc fuel) line u p =
     rbind (child_round line u p) (\<lambda>r. case r of
       None \<Rightarrow> Inr ([], True)
     | Some (out, p') \<Rightarrow> rbind (child_loop fuel line u p') (\<lambda>(outs, e). Inr (out @ outs, e)))"

text \<open>The lines of the file that the process writes.\<close>

definition child_file :: "nat \<Rightarrow> bytes \<Rightarrow> bytes \<Rightarrow> bytes \<Rightarrow> pipe \<Rightarrow> (bytes list \<times> bool) res" where
  "child_file fuel csvHead line u p = rbind (child_loop fuel line u p) (\<lambda>(out, e). Inr (csvHead # out, e))"

section \<open>The parent\<close>

text \<open>For every key in the order of its first line: the line at the fork, and the texts sent.\<close>

type_synonym routes = "(bytes \<times> bytes \<times> bytes list) list"

definition route_line :: "bytes \<Rightarrow> routes \<Rightarrow> routes res" where
  "route_line line rs = rbind (splitString line (lit '','')) (\<lambda>spltStrs.
     let strIns = hd spltStrs in
     Inr (if strIns = [] then rs
          else case map_of rs strIns of
            None \<Rightarrow> rs @ [(strIns, line, [line])]
          | Some _ \<Rightarrow> map (\<lambda>(k, l, ts). if k = strIns then (k, l, ts @ [line]) else (k, l, ts)) rs))"

definition split_file :: "bytes list \<Rightarrow> routes res" where
  "split_file lines = rbind (rfold route_line lines []) (\<lambda>rs.
     Inr (map (\<lambda>(k, l, ts). (k, l, ts @ [lit ''end''])) rs))"

section \<open>Lemmas on splitting\<close>

fun join :: "byte \<Rightarrow> bytes list \<Rightarrow> bytes" where
  "join c [] = []" | "join c [x] = x" | "join c (x # xs) = x @ c # join c xs"

lemma join_Cons: "xs \<noteq> [] \<Longrightarrow> join c (x # xs) = x @ c # join c xs"
  by (cases xs) auto

lemma length_takeWhile_less_mem: "c \<in> set xs \<Longrightarrow> length (takeWhile (\<lambda>x. x \<noteq> c) xs) < length xs"
  by (induction xs) auto

lemma takeWhile_not_mem: "c \<notin> set xs \<Longrightarrow> takeWhile (\<lambda>x. x \<noteq> c) xs = xs"
  by (induction xs) auto

lemma find_single:
  "find_first_of s [c] pos = None \<Longrightarrow> c \<notin> set (drop pos s)"
  "find_first_of s [c] pos = Some r \<Longrightarrow> take (r - pos) (drop pos s) = takeWhile (\<lambda>x. x \<noteq> c) (drop pos s) \<and> s ! r = c"
proof -
  assume "find_first_of s [c] pos = None"
  then show "c \<notin> set (drop pos s)"
    using length_takeWhile_less_mem [of c "drop pos s"] by (auto simp: find_first_of_def Let_def split: if_splits)
next
  assume f: "find_first_of s [c] pos = Some r"
  then have "r - pos = length (takeWhile (\<lambda>x. x \<noteq> c) (drop pos s))"
    by (auto simp: find_first_of_def Let_def split: if_splits)
  then show "take (r - pos) (drop pos s) = takeWhile (\<lambda>x. x \<noteq> c) (drop pos s) \<and> s ! r = c"
    using find_first_of_bounds [OF f] takeWhile_eq_take [of "\<lambda>x. x \<noteq> c" "drop pos s"] by auto
qed

lemma split_loop_single:
  "lpos \<le> length s \<Longrightarrow> \<exists>xs. split_loop s [c] lpos = Inr xs \<and> xs \<noteq> [] \<and> join c xs = drop lpos s \<and>
     (\<forall>x \<in> set xs. c \<notin> set x) \<and> hd xs = takeWhile (\<lambda>x. x \<noteq> c) (drop lpos s)"
proof (induction s "[c]" lpos rule: split_loop.induct)
  case (1 s lpos)
  show ?case
  proof (cases "find_first_of s [c] lpos")
    case None
    have tw: "drop lpos s = takeWhile (\<lambda>x. x \<noteq> c) (drop lpos s)"
      using takeWhile_not_mem [OF find_single(1) [OF None]] by (rule sym)
    have "split_loop s [c] lpos = Inr [drop lpos s]" using 1(2) None by (subst split_loop.simps) simp
    then show ?thesis using find_single(1) [OF None] by (intro exI [of _ "[drop lpos s]"] conjI) (simp_all add: tw [symmetric])
  next
    case (Some r)
    note b = find_first_of_bounds [OF Some] and f = find_single(2) [OF Some]
    obtain xs where xs: "split_loop s [c] (r + 1) = Inr xs" "xs \<noteq> []" "join c xs = drop (r + 1) s" "\<forall>x \<in> set xs. c \<notin> set x"
      using 1(1) [OF _ Some] 1(2) b by auto
    have "drop lpos s = take (r - lpos) (drop lpos s) @ c # drop (r + 1) s"
      using b f by (metis Cons_nth_drop_Suc Suc_eq_plus1 append_take_drop_id drop_drop le_add_diff_inverse2)
    moreover have "c \<notin> set (takeWhile (\<lambda>x. x \<noteq> c) (drop lpos s))" by (auto dest: set_takeWhileD)
    moreover have "split_loop s [c] lpos = Inr (take (r - lpos) (drop lpos s) # xs)"
      using 1(2) Some xs(1) by (subst split_loop.simps) simp
    ultimately show ?thesis using xs f by (auto simp: join_Cons)
  qed
qed

lemma splitString_single:
  "\<exists>xs. splitString s [c] = Inr xs \<and> xs \<noteq> [] \<and> join c xs = s \<and> (\<forall>x \<in> set xs. c \<notin> set x) \<and> hd xs = takeWhile (\<lambda>x. x \<noteq> c) s"
  using split_loop_single [of 0 s c] by (simp add: splitString_def)

section \<open>Lemmas on pipes\<close>

lemma fixread_whole:
  "length acc \<le> k \<Longrightarrow> k - length acc \<le> length (concat p) \<Longrightarrow> [] \<notin> set p \<Longrightarrow>
   \<exists>p'. fixread (int k) p acc = (int k, acc @ take (k - length acc) (concat p), p') \<and>
     concat p' = drop (k - length acc) (concat p) \<and> [] \<notin> set p'"
proof (induction "length (concat p)" arbitrary: p acc rule: less_induct)
  case less
  show ?case
  proof (cases "length acc = k")
    case True
    then show ?thesis using less.prems by (subst fixread.simps) simp
  next
    case False
    then obtain c cs where p: "p = c # cs" "c \<noteq> []" using less.prems by (cases p) auto
    define n where "n = min (length c) (k - length acc)"
    define q where "q = (if n = length c then cs else drop n c # cs)"
    have n: "0 < n" "n \<le> length c" "n \<le> k - length acc" using p(2) False less.prems(1) by (auto simp: n_def)
    have "(if int k - int (length acc) < 0 then length c else min (length c) (nat (int k - int (length acc)))) = n"
      using less.prems(1) by (simp add: n_def nat_diff_distrib' of_nat_diff)
    then have step: "fixread (int k) p acc = fixread (int k) q (acc @ take n c)"
      using False p by (subst fixread.simps) (simp add: Let_def q_def)
    have q: "concat q = drop n (concat p)" "[] \<notin> set q" using n(2) less.prems(3) by (auto simp: q_def p)
    have len: "length (acc @ take n c) = length acc + n" using n(2) by simp
    have "length (concat q) < length (concat p)" using n(1,2) p by (simp add: q(1))
    moreover have "length acc + n \<le> k" "k - (length acc + n) \<le> length (concat q)" using n(3) less.prems(1,2) by (auto simp: q(1))
    ultimately obtain p' where
      "fixread (int k) q (acc @ take n c) = (int k, (acc @ take n c) @ take (k - (length acc + n)) (concat q), p')"
      "concat p' = drop (k - (length acc + n)) (concat q)" "[] \<notin> set p'"
      using less.hyps [of q "acc @ take n c", unfolded len] q(2) by blast
    moreover have "take (k - length acc) (concat p) = take n c @ take (k - (length acc + n)) (concat q)"
    proof -
      have "k - length acc = n + (k - (length acc + n))" using n(3) by simp
      then have "take (k - length acc) (concat p) = take n (concat p) @ take (k - (length acc + n)) (drop n (concat p))"
        by (metis take_add)
      then show ?thesis using n(2) by (simp add: q(1) p)
    qed
    moreover have "drop (k - length acc) (concat p) = drop (k - (length acc + n)) (concat q)"
      using n(3) less.prems(1) by (simp add: q(1) add.commute)
    ultimately show ?thesis using step by auto
  qed
qed

section \<open>Lemmas on the processes\<close>

text \<open>Texts that the frames and the buffer of 512 bytes can carry.\<close>

definition text_ok :: "bytes \<Rightarrow> bool" where
  "text_ok t \<longleftrightarrow> t \<noteq> [] \<and> length t < 512 \<and> 0 \<notin> set t"

lemma child_round_frame:
  assumes "text_ok t" "concat p = frame_of t @ rest" "[] \<notin> set p"
  shows "\<exists>p'. child_round line u p = Inr (if stops t then None else Some ([line], p')) \<and> concat p' = rest \<and> [] \<notin> set p'"
proof -
  let ?n = "enc_i32 (word_of_int (int (length t)))"
  have t: "length t < 512" "t \<noteq> []" "0 \<notin> set t" using assms(1) by (auto simp: text_ok_def)
  obtain p1 where 1: "fixread 4 p [] = (4, ?n, p1)" "concat p1 = t @ rest" "[] \<notin> set p1"
    using fixread_whole [of "[]" 4 p] assms(2,3) by (auto simp: frame_of_def)
  have w: "sint (word_of_nat (length t) :: i32) = int (length t)"
    using t(1) by (simp add: sint_uint unsigned_of_nat take_bit_nat_eq_self signed_take_bit_int_eq_self)
  obtain p2 where 2: "fixread (int (length t)) p1 [] = (int (length t), t, p2)" "concat p2 = rest" "[] \<notin> set p2"
    using fixread_whole [of "[]" "length t" p1] 1(2,3) by auto
  have "512 - length t = Suc (511 - length t)" using t(1) by simp
  then have "c_string (t @ replicate (512 - length t) 0) = Inr t" using t(3) by (simp add: c_string_def)
  then have "child_round line u p = Inr (if stops t then None else Some ([line], p2))"
    using t(1,2) by (simp add: child_round_def 1(1) 2(1) w)
  then show ?thesis using 2 by blast
qed

lemma child_loop_frames:
  assumes "\<forall>t \<in> set ts. text_ok t" "stops z" "text_ok z"
  shows "concat p = concat (map frame_of (ts @ [z])) \<Longrightarrow> [] \<notin> set p \<Longrightarrow> length ts < fuel \<Longrightarrow>
    child_loop fuel line u p = Inr (replicate (length (takeWhile (\<lambda>t. \<not> stops t) ts)) line, True)"
  using assms
proof (induction ts arbitrary: p fuel)
  case Nil
  then obtain f where f: "fuel = Suc f" by (cases fuel) auto
  have "concat p = frame_of z @ []" using Nil.prems(1) by simp
  from child_round_frame [OF Nil.prems(6) this Nil.prems(2), of line u] show ?case
    using Nil.prems(5) by (auto simp: f)
next
  case (Cons t ts)
  then obtain f where f: "fuel = Suc f" by (cases fuel) auto
  have ok: "text_ok t" "\<forall>t \<in> set ts. text_ok t" using Cons.prems(4) by simp_all
  have "concat p = frame_of t @ concat (map frame_of (ts @ [z]))" using Cons.prems(1) by simp
  from child_round_frame [OF ok(1) this Cons.prems(2), of line u] obtain p' where
    r: "child_round line u p = Inr (if stops t then None else Some ([line], p'))" "concat p' = concat (map frame_of (ts @ [z]))" "[] \<notin> set p'"
    by blast
  show ?case using r Cons.IH [OF r(2,3) _ ok(2) Cons.prems(5,6), of f] Cons.prems(3) by (auto simp: f)
qed

text \<open>The routing of the parent.\<close>

definition key :: "bytes \<Rightarrow> bytes" where
  "key line = takeWhile (\<lambda>c. c \<noteq> 44) line"

definition routed :: "routes \<Rightarrow> bytes list \<Rightarrow> bool" where
  "routed rs ls \<longleftrightarrow> distinct (map fst rs) \<and> (\<forall>k. map_of rs k =
     (if k \<noteq> [] \<and> filter (\<lambda>l. key l = k) ls \<noteq> [] then Some (hd (filter (\<lambda>l. key l = k) ls), filter (\<lambda>l. key l = k) ls) else None))"

lemma route_line_eq:
  "route_line line rs = Inr (if key line = [] then rs
     else case map_of rs (key line) of
       None \<Rightarrow> rs @ [(key line, line, [line])]
     | Some _ \<Rightarrow> map (\<lambda>(k, l, ts). if k = key line then (k, l, ts @ [line]) else (k, l, ts)) rs)"
proof -
  have comma: "lit '','' = [44]" by code_simp
  obtain xs where xs: "splitString line [44] = Inr xs" "hd xs = key line" using splitString_single [of line 44] by (auto simp: key_def)
  show ?thesis unfolding route_line_def comma xs(1) rbind_simps Let_def xs(2) ..
qed

lemma map_of_append_text:
  "map_of (map (\<lambda>(k, l, ts). if k = j then (k, l, ts @ [x]) else (k, l, ts)) rs) k =
   map_option (\<lambda>(l, ts). if k = j then (l, ts @ [x]) else (l, ts)) (map_of rs k)"
  by (induction rs) (auto split: if_splits)

lemma route_line_routed:
  assumes "routed rs ls" shows "\<exists>rs'. route_line line rs = Inr rs' \<and> routed rs' (ls @ [line])"
proof (cases "map_of rs (key line)")
  case None
  then have new: "key line \<noteq> [] \<Longrightarrow> filter (\<lambda>l. key l = key line) ls = []"
    using assms unfolding routed_def by (metis option.distinct(1))
  have "key line \<notin> fst ` set rs" using None by (simp add: map_of_eq_None_iff)
  then show ?thesis using assms new None unfolding route_line_eq routed_def
    by (auto simp: map_of_append map_add_def split: option.splits)
next
  case (Some v)
  have d: "distinct (map fst (map (\<lambda>(k, l, ts). if k = key line then (k, l, ts @ [line]) else (k, l, ts)) rs))"
    using assms unfolding routed_def by (simp add: comp_def case_prod_beta if_distrib [of fst] cong: if_cong)
  show ?thesis using assms Some d unfolding route_line_eq routed_def
    by (auto simp: map_of_append_text)
qed


lemma rfold_routed: "routed rs ls \<Longrightarrow> \<exists>rs'. rfold route_line lines rs = Inr rs' \<and> routed rs' (ls @ lines)"
proof (induction lines arbitrary: rs ls)
  case (Cons l lines)
  obtain rs1 where "route_line l rs = Inr rs1" "routed rs1 (ls @ [l])" using route_line_routed [OF Cons.prems] by blast
  then show ?case using Cons.IH [of rs1 "ls @ [l]"] by simp
qed simp

lemma map_of_end: "map_of (map (\<lambda>(k, l, ts). (k, l, ts @ [z])) rs) k = map_option (\<lambda>(l, ts). (l, ts @ [z])) (map_of rs k)"
  by (induction rs) auto

lemma end_ok: "text_ok (lit ''end'')" "stops (lit ''end'')"
  by code_simp+

section \<open>Properties\<close>



end
