(* ===== verification/IpcCount.thy ===== *)
theory IpcCount
  imports Prelude "HOL-Library.Multiset"
begin

text \<open>
  \<^verbatim>\<open>trivials/ipc_lock_trivial.cpp\<close> and \<^verbatim>\<open>trivials/ipc_atomic_trivial.cpp\<close>: a parent and its child count in shared memory,
  under a mutex, under a file lock, with an atomic and without any protection. A process is the list of the
  actions it still has to perform; a run interleaves the two lists. That a locked program counts right
  follows from a static discipline of its text, checked by \<open>disciplined\<close>.
\<close>

section \<open>Processes and shared memory\<close>

datatype pid = Child | Parent

datatype cell = Num | AInt | NInt

text \<open>The text of a line that is printed with a value.\<close>

datatype label = Plus i32 | Atomic | Numeric

text \<open>\<open>StoreAdd\<close> stores what the last \<open>Load\<close> of the process read, plus a constant: \<open>(*num)++\<close> is the two. \<open>Remove\<close> is
  \<open>shmctl(.., IPC_RMID, ..)\<close>, whose failure ends the process.\<close>

datatype act =
    Acquire | Release | Destroy
  | Load cell | StoreAdd cell i32 | FetchAdd cell i32 | Print label
  | Detach cell | Remove cell

record proc =
  todo :: "act list"
  reg :: i32
  status :: int

record sys =
  mem :: "cell \<Rightarrow> i32"
  owner :: "pid option"
  live :: bool
  attached :: "cell \<Rightarrow> nat"
  removed :: "cell \<Rightarrow> bool"
  out :: "(pid \<times> label \<times> i32) list"
  procs :: "pid \<Rightarrow> proc"

definition upd_proc :: "pid \<Rightarrow> (proc \<Rightarrow> proc) \<Rightarrow> sys \<Rightarrow> sys" where
  "upd_proc p f s = s\<lparr>procs := (procs s)(p := f (procs s p))\<rparr>"

text \<open>Locking a destroyed mutex, and destroying a destroyed or a locked one, is undefined. A removed segment is
  gone once nobody is attached.\<close>

definition perform :: "pid \<Rightarrow> act \<Rightarrow> sys \<Rightarrow> sys res" where
  "perform p a s = (case a of
     Acquire \<Rightarrow> if \<not> live s then Inl UseAfterFree else if owner s \<noteq> None then Inl WouldBlock
       else Inr (s\<lparr>owner := Some p\<rparr>)
   | Release \<Rightarrow> Inr (s\<lparr>owner := None\<rparr>)
   | Destroy \<Rightarrow> if \<not> live s \<or> owner s \<noteq> None then Inl UseAfterFree else Inr (s\<lparr>live := False\<rparr>)
   | Load c \<Rightarrow> Inr (upd_proc p (\<lambda>q. q\<lparr>reg := mem s c\<rparr>) s)
   | StoreAdd c k \<Rightarrow> Inr (s\<lparr>mem := (mem s)(c := reg (procs s p) + k)\<rparr>)
   | FetchAdd c k \<Rightarrow> Inr (upd_proc p (\<lambda>q. q\<lparr>reg := mem s c\<rparr>) (s\<lparr>mem := (mem s)(c := mem s c + k)\<rparr>))
   | Print l \<Rightarrow> Inr (s\<lparr>out := out s @ [(p, l, reg (procs s p))]\<rparr>)
   | Detach c \<Rightarrow> Inr (s\<lparr>attached := (attached s)(c := attached s c - 1)\<rparr>)
   | Remove c \<Rightarrow> if removed s c \<and> attached s c = 0 then Inr (upd_proc p (\<lambda>q. q\<lparr>todo := [], status := -1\<rparr>) s)
       else Inr (s\<lparr>removed := (removed s)(c := True)\<rparr>))"

text \<open>A process that has ended has no step.\<close>

definition step_proc :: "pid \<Rightarrow> sys \<Rightarrow> sys res" where
  "step_proc p s = (case todo (procs s p) of
     [] \<Rightarrow> Inl WouldBlock
   | a # as \<Rightarrow> perform p a (upd_proc p (\<lambda>q. q\<lparr>todo := as\<rparr>) s))"

inductive ipc_step :: "sys \<Rightarrow> sys \<Rightarrow> bool" where
  ipc_stepI: "step_proc p s = Inr t \<Longrightarrow> ipc_step s t"

fun run_pids :: "pid list \<Rightarrow> sys \<Rightarrow> sys res" where
  "run_pids [] s = Inr s"
| "run_pids (p # ps) s = rbind (step_proc p s) (run_pids ps)"

section \<open>The programs\<close>

text \<open>\<open>amount_of\<close>: the child adds one, the parent two.\<close>

definition amount_of :: "pid \<Rightarrow> i32" where
  "amount_of p = (case p of Child \<Rightarrow> 1 | Parent \<Rightarrow> 2)"

definition ShareMutexFunc :: "pid \<Rightarrow> act list" where
  "ShareMutexFunc p = (let k = amount_of p in
     concat (replicate 10 [Acquire, Load Num, StoreAdd Num k, Release, Load Num, Print (Plus k)]) @ [Destroy])"

text \<open>A write lock on the whole file excludes the other process; \<open>unlock\<close> frees it.\<close>

definition FileLockFunc :: "pid \<Rightarrow> act list" where
  "FileLockFunc p = (let k = amount_of p in
     concat (replicate 10 [Acquire, Load Num, StoreAdd Num k, Load Num, Print (Plus k), Release]))"

definition ipc_atomic_main :: "pid \<Rightarrow> act list" where
  "ipc_atomic_main p =
     concat (replicate 20 [FetchAdd AInt 1, Print Atomic]) @
     concat (replicate 20 [Load NInt, StoreAdd NInt 1, Print Numeric]) @
     [Detach NInt, Detach AInt, Remove NInt, Remove AInt]"

text \<open>After the fork: both processes are attached to the segments, the cells are zero.\<close>

definition forked :: "(pid \<Rightarrow> act list) \<Rightarrow> sys" where
  "forked prog = \<lparr>mem = \<lambda>_. 0, owner = None, live = True, attached = \<lambda>_. 2, removed = \<lambda>_. False, out = [],
     procs = \<lambda>p. \<lparr>todo = prog p, reg = 0, status = 0\<rparr>\<rparr>"

definition ended :: "sys \<Rightarrow> bool" where
  "ended s \<longleftrightarrow> todo (procs s Child) = [] \<and> todo (procs s Parent) = []"

definition is_forked :: "(pid \<Rightarrow> act list) \<Rightarrow> sys \<Rightarrow> bool" where
  "is_forked prog s \<longleftrightarrow> s = forked prog"

section \<open>Steps\<close>

lemma upd_proc_simps [simp]:
  "mem (upd_proc p f s) = mem s" "owner (upd_proc p f s) = owner s" "live (upd_proc p f s) = live s"
  "attached (upd_proc p f s) = attached s" "removed (upd_proc p f s) = removed s" "out (upd_proc p f s) = out s"
  "procs (upd_proc p f s) q = (if q = p then f (procs s p) else procs s q)"
  by (simp_all add: upd_proc_def)

lemma step_procE:
  assumes "step_proc p s = Inr t"
  obtains a as where "todo (procs s p) = a # as" "perform p a (upd_proc p (\<lambda>q. q\<lparr>todo := as\<rparr>) s) = Inr t"
  using assms by (auto simp: step_proc_def split: list.splits)

text \<open>What a step does to each part.\<close>

lemma step_others: "step_proc p s = Inr t \<Longrightarrow> q \<noteq> p \<Longrightarrow> procs t q = procs s q"
  by (erule step_procE) (auto simp: perform_def split: act.splits if_splits)

lemma step_todo:
  assumes "step_proc p s = Inr t" "todo (procs s p) = a # as"
  shows "todo (procs t p) = (case a of Remove c \<Rightarrow> if removed s c \<and> attached s c = 0 then [] else as | _ \<Rightarrow> as)"
  using assms by (auto simp: step_proc_def perform_def split: act.splits if_splits)

lemma step_shorter: "step_proc p s = Inr t \<Longrightarrow> length (todo (procs t p)) < length (todo (procs s p))"
  by (erule step_procE) (auto simp: perform_def split: act.splits if_splits)

lemma step_mem:
  assumes "step_proc p s = Inr t" "todo (procs s p) = a # as"
  shows "mem t = (case a of StoreAdd c k \<Rightarrow> (mem s)(c := reg (procs s p) + k)
    | FetchAdd c k \<Rightarrow> (mem s)(c := mem s c + k) | _ \<Rightarrow> mem s)"
    "reg (procs t p) = (case a of Load c \<Rightarrow> mem s c | FetchAdd c k \<Rightarrow> mem s c | _ \<Rightarrow> reg (procs s p))"
    "out t = (case a of Print l \<Rightarrow> out s @ [(p, l, reg (procs s p))] | _ \<Rightarrow> out s)"
  using assms by (auto simp: step_proc_def perform_def split: act.splits if_splits)

lemma step_lock:
  assumes "step_proc p s = Inr t" "todo (procs s p) = a # as"
  shows "owner t = (case a of Acquire \<Rightarrow> Some p | Release \<Rightarrow> None | _ \<Rightarrow> owner s)"
    "live t = (live s \<and> a \<noteq> Destroy)" "a = Acquire \<Longrightarrow> owner s = None" "a = Destroy \<Longrightarrow> owner s = None"
  using assms by (auto simp: step_proc_def perform_def split: act.splits if_splits)

lemma step_segments:
  assumes "step_proc p s = Inr t" "todo (procs s p) = a # as"
  shows "attached t = (case a of Detach c \<Rightarrow> (attached s)(c := attached s c - 1) | _ \<Rightarrow> attached s)"
    "removed t = (case a of Remove c \<Rightarrow> (removed s)(c := True) | _ \<Rightarrow> removed s)"
    "status (procs t p) = (case a of Remove c \<Rightarrow> if removed s c \<and> attached s c = 0 then -1 else status (procs s p)
       | _ \<Rightarrow> status (procs s p))"
  using assms by (auto simp: step_proc_def perform_def split: act.splits if_splits)

text \<open>Every step uses up an action, so every run ends.\<close>

definition actions_left :: "sys \<Rightarrow> nat" where
  "actions_left s = length (todo (procs s Child)) + length (todo (procs s Parent))"

lemma ipc_step_decreases: "ipc_step s t \<Longrightarrow> actions_left t < actions_left s"
proof (erule ipc_step.cases)
  fix p s' t' assume h: "s = s'" "t = t'" "step_proc p s' = Inr t'"
  show ?thesis using step_shorter [OF h(3)] step_others [OF h(3)] unfolding h(1,2)
    by (cases p) (auto simp: actions_left_def)
qed

lemma run_pids_reach: "run_pids ps s = Inr t \<Longrightarrow> reach init ipc_step s \<Longrightarrow> reach init ipc_step t"
proof (induction ps arbitrary: s)
  case (Cons p ps)
  then obtain u where "step_proc p s = Inr u" "run_pids ps u = Inr t" by (auto simp: rbind_Inr)
  then show ?case using Cons.IH reach_step [OF Cons.prems(2) ipc_stepI] by blast
qed simp

section \<open>A discipline for locked programs\<close>

text \<open>Where a process is between two uses of the lock: outside, inside, inside with the counter read, written
  (by how much), or written and read again. The strict discipline also wants every change printed before
  the lock is released, and no access outside.\<close>

datatype phase = Free | Held | Read | Written i32 | Shown i32

fun next_phase :: "bool \<Rightarrow> phase \<Rightarrow> act \<Rightarrow> phase option" where
  "next_phase strict Free Acquire = Some Held"
| "next_phase strict Free (Load Num) = (if strict then None else Some Free)"
| "next_phase strict Free (Print l) = (if strict then None else Some Free)"
| "next_phase strict Free Destroy = (if strict then None else Some Free)"
| "next_phase strict Held (Load Num) = Some Read"
| "next_phase strict Held Release = Some Free"
| "next_phase strict Read (StoreAdd Num k) = Some (Written k)"
| "next_phase strict (Written k) (Load Num) = Some (Shown k)"
| "next_phase strict (Written k) Release = (if strict then None else Some Free)"
| "next_phase strict (Shown k) (Print (Plus j)) = (if j = k then Some Held else None)"
| "next_phase strict _ _ = None"

fun disciplined :: "bool \<Rightarrow> phase \<Rightarrow> act list \<Rightarrow> bool" where
  "disciplined strict ph [] \<longleftrightarrow> ph = Free"
| "disciplined strict ph (a # as) \<longleftrightarrow> (case next_phase strict ph a of None \<Rightarrow> False | Some ph' \<Rightarrow> disciplined strict ph' as)"

fun adds :: "act list \<Rightarrow> i32" where
  "adds [] = 0"
| "adds (StoreAdd Num k # as) = k + adds as"
| "adds (a # as) = adds as"

fun amount :: "label \<Rightarrow> i32" where
  "amount (Plus k) = k"
| "amount _ = 0"

definition total :: "(pid \<times> label \<times> i32) list \<Rightarrow> i32" where
  "total evs = sum_list (map (amount \<circ> fst \<circ> snd) evs)"

text \<open>Every printed value is the sum of the amounts up to its line.\<close>

definition prints_sums :: "(pid \<times> label \<times> i32) list \<Rightarrow> bool" where
  "prints_sums evs \<longleftrightarrow> (\<forall>i < length evs. snd (snd (evs ! i)) = total (take (Suc i) evs))"

fun unprinted :: "phase \<Rightarrow> i32" where
  "unprinted (Written k) = k"
| "unprinted (Shown k) = k"
| "unprinted _ = 0"

definition phase_ok :: "bool \<Rightarrow> sys \<Rightarrow> pid \<Rightarrow> phase \<Rightarrow> bool" where
  "phase_ok strict s p ph \<longleftrightarrow> disciplined strict ph (todo (procs s p)) \<and> (ph = Free \<longleftrightarrow> owner s \<noteq> Some p) \<and>
     (ph = Read \<or> (\<exists>k. ph = Shown k) \<longrightarrow> reg (procs s p) = mem s Num)"

definition lock_inv :: "bool \<Rightarrow> i32 \<Rightarrow> sys \<Rightarrow> bool" where
  "lock_inv strict n s \<longleftrightarrow> mem s Num + adds (todo (procs s Child)) + adds (todo (procs s Parent)) = n \<and>
     (\<exists>c p. phase_ok strict s Child c \<and> phase_ok strict s Parent p \<and>
       (strict \<longrightarrow> live s \<and> prints_sums (out s) \<and> mem s Num = total (out s) + unprinted c + unprinted p))"

lemma prints_sums_snoc: "prints_sums (evs @ [e]) \<longleftrightarrow> prints_sums evs \<and> snd (snd e) = total evs + amount (fst (snd e))"
proof -
  have t: "total (evs @ [e]) = total evs + amount (fst (snd e))" by (simp add: total_def)
  show ?thesis unfolding prints_sums_def by (auto simp: nth_append less_Suc_eq t)
qed

lemma total_snoc: "total (evs @ [e]) = total evs + amount (fst (snd e))"
  by (simp add: total_def)

lemma next_phaseE:
  assumes "next_phase strict ph a = Some ph'"
  obtains "ph = Free" "a = Acquire" "ph' = Held"
  | "\<not> strict" "ph = Free" "a = Load Num \<or> (\<exists>l. a = Print l) \<or> a = Destroy" "ph' = Free"
  | "ph = Held" "a = Load Num" "ph' = Read"
  | "ph = Held" "a = Release" "ph' = Free"
  | k where "ph = Read" "a = StoreAdd Num k" "ph' = Written k"
  | k where "ph = Written k" "a = Load Num" "ph' = Shown k"
  | k where "\<not> strict" "ph = Written k" "a = Release" "ph' = Free"
  | k where "ph = Shown k" "a = Print (Plus k)" "ph' = Held"
  using assms by (cases rule: next_phase.cases [of "(strict, ph, a)"]) (auto split: if_splits)

lemma phase_next:
  assumes "todo (procs s p) = a # as" "phase_ok strict s p ph"
  obtains ph' where "next_phase strict ph a = Some ph'" "disciplined strict ph' as"
  using assms by (auto simp: phase_ok_def split: option.splits)

text \<open>The process that steps, with phases \<open>ph\<close> and \<open>ph'\<close> before and after.\<close>

lemma locked_step:
  assumes step: "step_proc p s = Inr t" and todo: "todo (procs s p) = a # as" and ok: "phase_ok strict s p ph"
    and nxt: "next_phase strict ph a = Some ph'" and disc: "disciplined strict ph' as"
  shows "phase_ok strict t p ph'" "mem t Num + adds (todo (procs t p)) = mem s Num + adds (a # as)"
    "owner s = Some q \<Longrightarrow> q \<noteq> p \<Longrightarrow> owner t = Some q \<and> mem t Num = mem s Num"
    "owner s \<noteq> Some q \<Longrightarrow> q \<noteq> p \<Longrightarrow> owner t \<noteq> Some q"
    "strict \<Longrightarrow> live t = live s"
    "strict \<Longrightarrow> mem s Num = total (out s) + unprinted ph \<Longrightarrow> prints_sums (out s) \<Longrightarrow>
       mem t Num = total (out t) + unprinted ph' \<and> prints_sums (out t)"
proof -
  have o: "ph = Free \<longleftrightarrow> owner s \<noteq> Some p" "ph = Read \<or> (\<exists>k. ph = Shown k) \<longrightarrow> reg (procs s p) = mem s Num"
    using ok by (simp_all add: phase_ok_def)
  note eff = step_mem [OF step todo] step_lock [OF step todo]
  have td: "todo (procs t p) = as"
    using nxt by (cases rule: next_phaseE) (auto simp: step_todo [OF step todo])
  show "phase_ok strict t p ph'"
    using nxt unfolding phase_ok_def td by (cases rule: next_phaseE) (use disc o in \<open>auto simp: eff\<close>)
  show "mem t Num + adds (todo (procs t p)) = mem s Num + adds (a # as)"
    using nxt unfolding td by (cases rule: next_phaseE) (use o in \<open>auto simp: eff\<close>)
  show "owner t = Some q \<and> mem t Num = mem s Num" if "owner s = Some q" "q \<noteq> p"
    using nxt by (cases rule: next_phaseE) (use o that in \<open>auto simp: eff\<close>)
  show "owner t \<noteq> Some q" if "owner s \<noteq> Some q" "q \<noteq> p"
    using nxt by (cases rule: next_phaseE) (use o that in \<open>auto simp: eff\<close>)
  show "live t = live s" if "strict"
    using nxt by (cases rule: next_phaseE) (use that in \<open>auto simp: eff\<close>)
  show "mem t Num = total (out t) + unprinted ph' \<and> prints_sums (out t)"
    if "strict" "mem s Num = total (out s) + unprinted ph" "prints_sums (out s)"
    using nxt by (cases rule: next_phaseE) (use o that in \<open>auto simp: eff prints_sums_snoc total_snoc\<close>)
qed

lemma phase_ok_other:
  assumes "phase_ok strict s q o'" "procs t q = procs s q"
    and "owner s = Some q \<Longrightarrow> owner t = Some q \<and> mem t Num = mem s Num" "owner s \<noteq> Some q \<Longrightarrow> owner t \<noteq> Some q"
  shows "phase_ok strict t q o'"
  using assms unfolding phase_ok_def by auto

text \<open>In a strict program the lock is held by whoever has something unprinted, so only one has.\<close>

lemma unprinted_other: "phase_ok strict s p ph \<Longrightarrow> phase_ok strict s q o' \<Longrightarrow> p \<noteq> q \<Longrightarrow> owner s = Some p \<or> strict \<and> owner s = None \<Longrightarrow> unprinted o' = 0"
  by (auto simp: phase_ok_def)

definition other :: "pid \<Rightarrow> pid" where
  "other p = (case p of Child \<Rightarrow> Parent | Parent \<Rightarrow> Child)"

lemma other_simps [simp]: "other p \<noteq> p" "p \<noteq> other p" "other Child = Parent" "other Parent = Child" "other (other p) = p"
  by (cases p; simp add: other_def)+

lemma lock_inv_other: "lock_inv strict n s \<longleftrightarrow> mem s Num + adds (todo (procs s p)) + adds (todo (procs s (other p))) = n \<and>
     (\<exists>ph o'. phase_ok strict s p ph \<and> phase_ok strict s (other p) o' \<and>
       (strict \<longrightarrow> live s \<and> prints_sums (out s) \<and> mem s Num = total (out s) + unprinted ph + unprinted o'))"
proof (cases p)
  case Child
  then show ?thesis by (simp add: lock_inv_def)
next
  case Parent
  have swap: "x + y + z = x + z + y" for x y z :: i32 by simp
  show ?thesis unfolding lock_inv_def Parent other_simps
    by (subst (1 2) swap, subst ex_comm) blast
qed

lemma strict_step_owner:
  assumes "step_proc p s = Inr t" "phase_ok True s p ph"
  shows "owner s = Some p \<or> owner s = None"
proof -
  from assms(1) obtain a as where t: "todo (procs s p) = a # as" by (rule step_procE)
  obtain ph' where n: "next_phase True ph a = Some ph'" using phase_next [OF t assms(2)] .
  show ?thesis using n by (cases rule: next_phaseE) (use assms(2) step_lock(3) [OF assms(1) t] in \<open>auto simp: phase_ok_def\<close>)
qed

lemma lock_inv_step:
  assumes "lock_inv strict n s" "ipc_step s t" shows "lock_inv strict n t"
proof -
  from assms(2) obtain p where p: "step_proc p s = Inr t" by (auto elim: ipc_step.cases)
  from p obtain a as where t: "todo (procs s p) = a # as" by (rule step_procE)
  from assms(1) obtain ph o' where n: "mem s Num + adds (todo (procs s p)) + adds (todo (procs s (other p))) = n"
    and ph: "phase_ok strict s p ph" and o': "phase_ok strict s (other p) o'"
    and st: "strict \<longrightarrow> live s \<and> prints_sums (out s) \<and> mem s Num = total (out s) + unprinted ph + unprinted o'"
    unfolding lock_inv_other [of strict n s p] by blast
  obtain ph' where nx: "next_phase strict ph a = Some ph'" "disciplined strict ph' as" using phase_next [OF t ph] .
  note l = locked_step [OF p t ph nx]
  have same: "procs t (other p) = procs s (other p)" using step_others [OF p] by simp
  have "phase_ok strict t (other p) o'" by (rule phase_ok_other [OF o' same]) (use l(3,4) in simp_all)
  moreover have "mem t Num + adds (todo (procs t p)) + adds (todo (procs t (other p))) = n"
    using l(2) n by (simp add: same t)
  moreover have "live t \<and> prints_sums (out t) \<and> mem t Num = total (out t) + unprinted ph' + unprinted o'" if strict
  proof -
    have "unprinted o' = 0"
      using strict_step_owner [OF p] ph o' that unprinted_other [OF ph o'] by auto
    then show ?thesis using l(5,6) [OF that] st that by simp
  qed
  ultimately show ?thesis unfolding lock_inv_other [of strict n t p] using l(1) by blast
qed

lemma lock_inv_forked:
  assumes "disciplined strict Free (prog Child)" "disciplined strict Free (prog Parent)"
  shows "lock_inv strict (adds (prog Child) + adds (prog Parent)) (forked prog)"
  using assms by (auto simp: lock_inv_def phase_ok_def forked_def prints_sums_def total_def intro!: exI [of _ Free])

lemma disciplined_programs: "disciplined True Free (FileLockFunc p)" "disciplined False Free (ShareMutexFunc p)"
  by (cases p; code_simp)+

lemma adds_programs: "adds (FileLockFunc Child) + adds (FileLockFunc Parent) = 30" "adds (ShareMutexFunc Child) + adds (ShareMutexFunc Parent) = 30"
  by code_simp+

interpretation flock: invariant_system "is_forked FileLockFunc" ipc_step "lock_inv True 30"
  by unfold_locales
    (use lock_inv_forked [of True FileLockFunc] lock_inv_step in \<open>simp_all add: is_forked_def disciplined_programs adds_programs\<close>)

interpretation mutex: invariant_system "is_forked ShareMutexFunc" ipc_step "lock_inv False 30"
  by unfold_locales
    (use lock_inv_forked [of False ShareMutexFunc] lock_inv_step in \<open>simp_all add: is_forked_def disciplined_programs adds_programs\<close>)

text \<open>No deadlock: the owner of the lock can go on, and if there is none anybody can.\<close>

lemma strict_step_possible:
  assumes "live s" "phase_ok True s p ph" "owner s = None \<or> owner s = Some p" "todo (procs s p) \<noteq> []"
  shows "\<exists>t. step_proc p s = Inr t"
proof -
  from assms(4) obtain a as where t: "todo (procs s p) = a # as" by (cases "todo (procs s p)") auto
  obtain ph' where n: "next_phase True ph a = Some ph'" using phase_next [OF t assms(2)] .
  show ?thesis using n
    by (cases rule: next_phaseE) (use assms(1,2,3) in \<open>auto simp: step_proc_def t perform_def phase_ok_def\<close>)
qed

lemma owner_not_done: "phase_ok strict s p ph \<Longrightarrow> owner s = Some p \<Longrightarrow> todo (procs s p) \<noteq> []"
  by (auto simp: phase_ok_def)

lemma strict_progress:
  assumes "lock_inv True n s" "\<not> ended s" shows "\<exists>t. ipc_step s t"
proof -
  obtain p where p: "todo (procs s p) \<noteq> []" "owner s = None \<or> owner s = Some p"
  proof (cases "owner s")
    case None
    then show thesis using that assms(2) by (auto simp: ended_def)
  next
    case (Some p)
    from assms(1) obtain ph where "phase_ok True s p ph" unfolding lock_inv_other [of True n s p] by blast
    then show thesis using that Some owner_not_done by blast
  qed
  from assms(1) obtain ph where "phase_ok True s p ph" "live s" unfolding lock_inv_other [of True n s p] by blast
  then show ?thesis using strict_step_possible p by (blast intro: ipc_stepI)
qed

lemma lock_inv_ended:
  assumes "lock_inv strict n s" "ended s"
  shows "mem s Num = n" "strict \<Longrightarrow> total (out s) = n"
proof -
  from assms(1) obtain c p where ph: "phase_ok strict s Child c" "phase_ok strict s Parent p"
    "strict \<longrightarrow> mem s Num = total (out s) + unprinted c + unprinted p"
    and n: "mem s Num + adds (todo (procs s Child)) + adds (todo (procs s Parent)) = n" by (auto simp: lock_inv_def)
  have e: "todo (procs s Child) = []" "todo (procs s Parent) = []" using assms(2) by (simp_all add: ended_def)
  show m: "mem s Num = n" using n by (simp add: e)
  have "c = Free" "p = Free" using ph(1,2) by (simp_all add: phase_ok_def e)
  then show "total (out s) = n" if strict using ph(3) m that by simp
qed

text \<open>Each process prints its own lines only, and all of them.\<close>

fun is_print :: "act \<Rightarrow> bool" where
  "is_print (Print l) = True"
| "is_print _ = False"

definition print_inv :: "nat \<Rightarrow> sys \<Rightarrow> bool" where
  "print_inv n s \<longleftrightarrow> (\<forall>p. length (filter (\<lambda>e. fst e = p) (out s)) + length (filter is_print (todo (procs s p))) = n \<and>
     (\<forall>a \<in> set (todo (procs s p)). (\<forall>c. a \<noteq> Remove c) \<and> (\<forall>l. a = Print l \<longrightarrow> l = Plus (amount_of p)))) \<and>
     (\<forall>e \<in> set (out s). fst (snd e) = Plus (amount_of (fst e)))"

lemma print_inv_step:
  assumes "print_inv n s" "ipc_step s t" shows "print_inv n t"
proof -
  from assms(2) obtain p where p: "step_proc p s = Inr t" by (auto elim: ipc_step.cases)
  from p obtain a as where t: "todo (procs s p) = a # as" by (rule step_procE)
  have a: "\<forall>c. a \<noteq> Remove c" "\<forall>l. a = Print l \<longrightarrow> l = Plus (amount_of p)" using assms(1) [unfolded print_inv_def, THEN conjunct1, rule_format, of p] by (simp_all add: t)
  have as: "todo (procs t p) = as" using step_todo [OF p t] a(1) by (cases a) auto
  show ?thesis unfolding print_inv_def
  proof (intro conjI allI)
    fix q
    show "length (filter (\<lambda>e. fst e = q) (out t)) + length (filter is_print (todo (procs t q))) = n"
      "\<forall>a \<in> set (todo (procs t q)). (\<forall>c. a \<noteq> Remove c) \<and> (\<forall>l. a = Print l \<longrightarrow> l = Plus (amount_of q))"
      using assms(1) [unfolded print_inv_def, THEN conjunct1, rule_format, of q] step_mem(3) [OF p t] step_others [OF p, of q] as t
      by (cases "q = p"; cases a; simp)+
  next
    show "\<forall>e \<in> set (out t). fst (snd e) = Plus (amount_of (fst e))"
      using assms(1) [unfolded print_inv_def, THEN conjunct2] step_mem(3) [OF p t] a(2) by (cases a) auto
  qed
qed

lemma print_inv_forked: "print_inv 10 (forked FileLockFunc)"
proof -
  have "length (filter is_print (FileLockFunc p)) = 10 \<and>
      (\<forall>a \<in> set (FileLockFunc p). (\<forall>c. a \<noteq> Remove c) \<and> (\<forall>l. a = Print l \<longrightarrow> l = Plus (amount_of p)))" for p
    by (cases p) (simp_all add: FileLockFunc_def amount_of_def numeral_eq_Suc)
  then show ?thesis by (simp add: print_inv_def forked_def)
qed

interpretation fprint: invariant_system "is_forked FileLockFunc" ipc_step "print_inv 10"
  by unfold_locales (use print_inv_forked print_inv_step in \<open>simp_all add: is_forked_def\<close>)

section \<open>Counting without a lock\<close>

text \<open>The shape of what is left of \<open>ipc_atomic_main\<close>: an atomic increment is followed by its line, a store follows
  its load, and the segments are given up at the end.\<close>

definition atomic_acts :: "act set" where
  "atomic_acts = {FetchAdd AInt 1, Print Atomic, Load NInt, StoreAdd NInt 1, Print Numeric,
     Detach NInt, Detach AInt, Remove NInt, Remove AInt}"

fun chained :: "act list \<Rightarrow> bool" where
  "chained [] \<longleftrightarrow> True"
| "chained [a] \<longleftrightarrow> a \<noteq> FetchAdd AInt 1"
| "chained (a # b # as) \<longleftrightarrow> (b = Print Atomic \<longleftrightarrow> a = FetchAdd AInt 1) \<and> (b = StoreAdd NInt 1 \<longrightarrow> a = Load NInt) \<and> chained (b # as)"

fun removals_last :: "act list \<Rightarrow> bool" where
  "removals_last [] \<longleftrightarrow> True"
| "removals_last (Remove NInt # as) \<longleftrightarrow> as = [Remove AInt]"
| "removals_last (Remove AInt # as) \<longleftrightarrow> as = []"
| "removals_last (Detach c # as) \<longleftrightarrow> Remove NInt \<in> set as \<and> removals_last as"
| "removals_last (a # as) \<longleftrightarrow> removals_last as"

definition shape :: "sys \<Rightarrow> bool" where
  "shape s \<longleftrightarrow> (\<forall>p. let as = todo (procs s p) in set as \<subseteq> atomic_acts \<and> chained as \<and> removals_last as)"

lemma shapeD:
  assumes "shape s" "todo (procs s p) = a # as"
  shows "a \<in> atomic_acts" "set as \<subseteq> atomic_acts" "chained (a # as)" "chained as" "removals_last (a # as)" "removals_last as"
proof -
  have h: "set (a # as) \<subseteq> atomic_acts" "chained (a # as)" "removals_last (a # as)"
    using assms(1) [unfolded shape_def Let_def, rule_format, of p] by (simp_all add: assms(2))
  then show "a \<in> atomic_acts" "set as \<subseteq> atomic_acts" "chained (a # as)" "removals_last (a # as)" by simp_all
  show "chained as" using h(2) by (cases as) auto
  show "removals_last as" using h(3) by (cases rule: removals_last.cases [of "a # as"]) auto
qed

lemma shape_step:
  assumes "shape s" "ipc_step s t" shows "shape t"
proof -
  from assms(2) obtain p where p: "step_proc p s = Inr t" by (auto elim: ipc_step.cases)
  from p obtain a as where a: "todo (procs s p) = a # as" by (rule step_procE)
  have "todo (procs t p) \<in> {as, []}" using step_todo [OF p a] by (auto split: act.splits)
  then have "let as = todo (procs t q) in set as \<subseteq> atomic_acts \<and> chained as \<and> removals_last as" for q
    using shapeD [OF assms(1) a] assms(1) step_others [OF p, of q] by (cases "q = p") (auto simp: shape_def)
  then show ?thesis by (simp add: shape_def)
qed

text \<open>Counting actions: a removal that fails drops none of those that count.\<close>

definition left :: "act \<Rightarrow> sys \<Rightarrow> pid \<Rightarrow> nat" where
  "left a s p = count_list (todo (procs s p)) a"

lemma left_step:
  assumes "shape s" "step_proc p s = Inr t" "todo (procs s p) = b # as" "\<forall>c. a \<noteq> Remove c"
  shows "left a s p = left a t p + (if a = b then 1 else 0)" "q \<noteq> p \<Longrightarrow> left a t q = left a s q"
proof -
  have "count_list (todo (procs t p)) a = count_list as a"
    using step_todo [OF assms(2,3)] shapeD(1,5) [OF assms(1,3)] assms(4)
    by (auto simp: atomic_acts_def split: if_splits)
  then show "left a s p = left a t p + (if a = b then 1 else 0)" by (auto simp: left_def assms(3))
  show "q \<noteq> p \<Longrightarrow> left a t q = left a s q" by (simp add: left_def step_others [OF assms(2)])
qed

text \<open>The atomic counter: its value and the increments left make 40, and the values fetched, printed or still to be
  printed, are the numbers below it.\<close>

abbreviation fetches :: "sys \<Rightarrow> pid \<Rightarrow> nat" where
  "fetches \<equiv> left (FetchAdd AInt 1)"

abbreviation stores :: "sys \<Rightarrow> pid \<Rightarrow> nat" where
  "stores \<equiv> left (StoreAdd NInt 1)"

definition shown :: "label \<Rightarrow> sys \<Rightarrow> i32 list" where
  "shown l s = map (snd \<circ> snd) (filter (\<lambda>e. fst (snd e) = l) (out s))"

definition fetched :: "sys \<Rightarrow> pid \<Rightarrow> i32 multiset" where
  "fetched s p = (case todo (procs s p) of Print Atomic # _ \<Rightarrow> {#reg (procs s p)#} | _ \<Rightarrow> {#})"

definition fetch_inv :: "sys \<Rightarrow> bool" where
  "fetch_inv s \<longleftrightarrow> unat (mem s AInt) + fetches s Child + fetches s Parent = 40 \<and>
     mset (shown Atomic s) + fetched s Child + fetched s Parent = mset (map of_nat [0..<unat (mem s AInt)])"

lemma fetch_inv_other: "fetch_inv s \<longleftrightarrow> unat (mem s AInt) + fetches s p + fetches s (other p) = 40 \<and>
     mset (shown Atomic s) + fetched s p + fetched s (other p) = mset (map of_nat [0..<unat (mem s AInt)])"
  by (cases p) (simp_all add: fetch_inv_def ac_simps)

lemma unat_Suc_small: "unat (x :: i32) < 100 \<Longrightarrow> unat (x + 1) = Suc (unat x)"
  by (simp add: unat_word_ariths)

lemma fetched_step:
  assumes "shape s" "step_proc p s = Inr t" "todo (procs s p) = a # as"
  shows "fetched t p = (if a = FetchAdd AInt 1 then {#mem s AInt#} else {#})"
    "fetched s p = (if a = Print Atomic then {#reg (procs s p)#} else {#})"
    "shown Atomic t = shown Atomic s @ (if a = Print Atomic then [reg (procs s p)] else [])"
proof -
  note sh = shapeD [OF assms(1,3)]
  show "fetched s p = (if a = Print Atomic then {#reg (procs s p)#} else {#})"
    unfolding fetched_def assms(3) by (auto split: act.splits label.splits)
  show "shown Atomic t = shown Atomic s @ (if a = Print Atomic then [reg (procs s p)] else [])"
    unfolding shown_def step_mem(3) [OF assms(2,3)] by (auto split: act.splits)
  show "fetched t p = (if a = FetchAdd AInt 1 then {#mem s AInt#} else {#})"
  proof (cases as)
    case Nil
    then show ?thesis using sh(1,3) step_todo [OF assms(2,3)] by (auto simp: fetched_def atomic_acts_def)
  next
    case (Cons b bs)
    then have "b = Print Atomic \<longleftrightarrow> a = FetchAdd AInt 1" using sh(3) by simp
    then show ?thesis using sh(1,5) step_todo [OF assms(2,3)] step_mem(2) [OF assms(2,3)]
      by (auto simp: fetched_def Cons atomic_acts_def split: if_splits act.splits label.splits)
  qed
qed

lemma fetch_inv_step:
  assumes "shape s" "fetch_inv s" "ipc_step s t" shows "fetch_inv t"
proof -
  from assms(3) obtain p where p: "step_proc p s = Inr t" by (auto elim: ipc_step.cases)
  from p obtain a as where a: "todo (procs s p) = a # as" by (rule step_procE)
  note f = fetched_step [OF assms(1) p a]
  have l: "fetches s p = fetches t p + (if FetchAdd AInt 1 = a then 1 else 0)" "fetches t (other p) = fetches s (other p)"
    using left_step [OF assms(1) p a] by simp_all
  have o: "fetched t (other p) = fetched s (other p)" unfolding fetched_def step_others [OF p other_simps(1)] ..
  have inv: "unat (mem s AInt) + fetches s p + fetches s (other p) = 40"
    "mset (shown Atomic s) + fetched s p + fetched s (other p) = mset (map of_nat [0..<unat (mem s AInt)])"
    using assms(2) unfolding fetch_inv_other [of s p] by simp_all
  have m: "mem t AInt = (if a = FetchAdd AInt 1 then mem s AInt + 1 else mem s AInt)"
    using step_mem(1) [OF p a] shapeD(1) [OF assms(1) a] by (auto simp: atomic_acts_def)
  show ?thesis
  proof (cases "a = FetchAdd AInt 1")
    case True
    have u: "unat (mem t AInt) = Suc (unat (mem s AInt))" using inv(1) by (simp add: m True unat_Suc_small)
    show ?thesis unfolding fetch_inv_other [of t p] u using inv f l o by (simp add: True)
  next
    case False
    then show ?thesis unfolding fetch_inv_other [of t p] using inv f l o by (auto simp: m)
  qed
qed

text \<open>The plain counter: increments can be lost, but no process loses its last one completely.\<close>

definition store_next :: "sys \<Rightarrow> pid \<Rightarrow> bool" where
  "store_next s p \<longleftrightarrow> (\<exists>as. todo (procs s p) = StoreAdd NInt 1 # as)"

definition plain_inv :: "sys \<Rightarrow> bool" where
  "plain_inv s \<longleftrightarrow> (let n = unat (mem s NInt); left = stores s Child + stores s Parent in
     n + left \<le> 40 \<and> (\<forall>p. store_next s p \<longrightarrow> unat (reg (procs s p)) + left \<le> 40) \<and>
     ((\<exists>p. stores s p < 20) \<longrightarrow> 1 \<le> n) \<and> (\<forall>p. store_next s p \<and> stores s p < 20 \<longrightarrow> 1 \<le> unat (reg (procs s p))) \<and>
     (left = 0 \<longrightarrow> 2 \<le> n))"

lemma stores_sum: "stores s Child + stores s Parent = stores s p + stores s (other p)"
  by (cases p) simp_all

lemma store_next_step:
  assumes "shape s" "step_proc p s = Inr t" "todo (procs s p) = a # as"
  shows "store_next t p \<Longrightarrow> a = Load NInt" "store_next t (other p) = store_next s (other p)"
    "store_next s p = (a = StoreAdd NInt 1)"
proof -
  note sh = shapeD [OF assms(1,3)]
  show "store_next t p \<Longrightarrow> a = Load NInt"
    using sh(1,3,5) step_todo [OF assms(2,3)] by (cases as) (auto simp: store_next_def atomic_acts_def split: if_splits)
  show "store_next t (other p) = store_next s (other p)"
    unfolding store_next_def step_others [OF assms(2) other_simps(1)] ..
  show "store_next s p = (a = StoreAdd NInt 1)" by (auto simp: store_next_def assms(3))
qed

lemma all_pids: "(\<forall>q. P q) \<longleftrightarrow> P p \<and> P (other p)" and ex_pids: "(\<exists>q. P q) \<longleftrightarrow> P p \<or> P (other p)"
  by (cases p; metis other_simps(3,4) pid.exhaust)+

lemma plain_inv_step:
  assumes "shape s" "plain_inv s" "ipc_step s t" shows "plain_inv t"
proof -
  from assms(3) obtain p where p: "step_proc p s = Inr t" by (auto elim: ipc_step.cases)
  from p obtain a as where a: "todo (procs s p) = a # as" by (rule step_procE)
  have l: "stores s p = stores t p + (if StoreAdd NInt 1 = a then 1 else 0)" "stores t (other p) = stores s (other p)"
    using left_step [OF assms(1) p a] by simp_all
  note n = store_next_step [OF assms(1) p a]
  have o: "procs t (other p) = procs s (other p)" using step_others [OF p] by simp
  have r: "a = Load NInt \<Longrightarrow> reg (procs t p) = mem s NInt" by (simp add: step_mem(2) [OF p a])
  have m: "mem t NInt = (if a = StoreAdd NInt 1 then reg (procs s p) + 1 else mem s NInt)"
    using step_mem(1) [OF p a] shapeD(1) [OF assms(1) a] by (auto simp: atomic_acts_def)
  have inv: "unat (mem s NInt) + (stores s p + stores s (other p)) \<le> 40"
    "a = StoreAdd NInt 1 \<Longrightarrow> unat (reg (procs s p)) + (stores s p + stores s (other p)) \<le> 40"
    "store_next s (other p) \<Longrightarrow> unat (reg (procs s (other p))) + (stores s p + stores s (other p)) \<le> 40"
    "stores s p < 20 \<or> stores s (other p) < 20 \<Longrightarrow> 1 \<le> unat (mem s NInt)"
    "a = StoreAdd NInt 1 \<Longrightarrow> stores s p < 20 \<Longrightarrow> 1 \<le> unat (reg (procs s p))"
    "store_next s (other p) \<Longrightarrow> stores s (other p) < 20 \<Longrightarrow> 1 \<le> unat (reg (procs s (other p)))"
    "stores s p + stores s (other p) = 0 \<Longrightarrow> 2 \<le> unat (mem s NInt)"
    using assms(2) unfolding plain_inv_def Let_def stores_sum [of s p] all_pids [of _ p] ex_pids [of _ p] n(3) by (blast | simp)+
  show ?thesis
  proof (cases "a = StoreAdd NInt 1")
    case True
    have u: "unat (mem t NInt) = Suc (unat (reg (procs s p)))" using inv(2) True by (simp add: m unat_Suc_small)
    have "\<not> store_next t p" using n(1) True by auto
    then show ?thesis unfolding plain_inv_def Let_def stores_sum [of t p] all_pids [of _ p] ex_pids [of _ p] n(2) u l(2) o
      using inv l(1) True by (auto intro: Suc_leI)
  next
    case False
    then have "mem t NInt = mem s NInt" "stores t p = stores s p" using m l by auto
    then show ?thesis unfolding plain_inv_def Let_def stores_sum [of t p] all_pids [of _ p] ex_pids [of _ p] n(2) l(2) o
      using inv n(1) r by auto
  qed
qed

text \<open>The end: whoever comes second to remove the plain counter finds it gone.\<close>

definition gave_up :: "sys \<Rightarrow> pid \<Rightarrow> bool" where
  "gave_up s p \<longleftrightarrow> Remove NInt \<notin> set (todo (procs s p))"

definition failed :: "sys \<Rightarrow> pid \<Rightarrow> bool" where
  "failed s p \<longleftrightarrow> status (procs s p) \<noteq> 0"

definition exit_inv :: "sys \<Rightarrow> bool" where
  "exit_inv s \<longleftrightarrow> attached s NInt = left (Detach NInt) s Child + left (Detach NInt) s Parent \<and>
     (removed s NInt \<longleftrightarrow> gave_up s Child \<or> gave_up s Parent) \<and>
     (\<forall>p. failed s p \<longrightarrow> todo (procs s p) = [] \<and> gave_up s (other p) \<and> status (procs s p) = -1) \<and>
     (gave_up s Child \<and> gave_up s Parent \<longrightarrow> failed s Child \<noteq> failed s Parent) \<and>
     (removed s AInt \<longrightarrow> (\<exists>p. \<not> failed s p \<and> todo (procs s p) = []))"

lemma detached: "shape s \<Longrightarrow> gave_up s p \<Longrightarrow> left (Detach NInt) s p = 0"
proof -
  have "removals_last as \<Longrightarrow> Remove NInt \<notin> set as \<Longrightarrow> Detach NInt \<notin> set as" for as
    by (induction as rule: removals_last.induct) auto
  moreover assume "shape s" "gave_up s p"
  ultimately show ?thesis by (auto simp: left_def gave_up_def shape_def Let_def count_list_0_iff)
qed

lemma exit_inv_other: "exit_inv s \<longleftrightarrow> attached s NInt = left (Detach NInt) s p + left (Detach NInt) s (other p) \<and>
     (removed s NInt \<longleftrightarrow> gave_up s p \<or> gave_up s (other p)) \<and>
     (\<forall>p. failed s p \<longrightarrow> todo (procs s p) = [] \<and> gave_up s (other p) \<and> status (procs s p) = -1) \<and>
     (gave_up s p \<and> gave_up s (other p) \<longrightarrow> failed s p \<noteq> failed s (other p)) \<and>
     (removed s AInt \<longrightarrow> (\<exists>p. \<not> failed s p \<and> todo (procs s p) = []))"
  by (cases p) (auto simp: exit_inv_def)

text \<open>A step other than a removal, the first removal, the second one, and that of the atomic counter.\<close>

lemma exit_inv_plain:
  assumes "shape s" "exit_inv s" "step_proc p s = Inr t" "todo (procs s p) = a # as" "\<forall>c. a \<noteq> Remove c"
  shows "exit_inv t"
proof -
  have l: "left (Detach NInt) s p = left (Detach NInt) t p + (if Detach NInt = a then 1 else 0)"
    "left (Detach NInt) t (other p) = left (Detach NInt) s (other p)"
    using left_step [OF assms(1,3,4)] by simp_all
  have o: "procs t (other p) = procs s (other p)" using step_others [OF assms(3)] by simp
  have td: "todo (procs t p) = as" "status (procs t p) = status (procs s p)"
    using step_todo [OF assms(3,4)] step_segments(3) [OF assms(3,4)] assms(5) by (auto split: act.splits)
  have seg: "removed t = removed s" "attached t NInt = attached s NInt - (if Detach NInt = a then 1 else 0)"
    using step_segments(1,2) [OF assms(3,4)] assms(5) by (auto split: act.splits)
  have g: "gave_up t q = gave_up s q" "failed t q = failed s q" for q
    using o td assms(4,5) by (cases p; cases q; auto simp: gave_up_def failed_def)+
  have nf: "\<not> failed s p" using assms(2,4) by (auto simp: exit_inv_def)
  have inv: "attached s NInt = left (Detach NInt) s p + left (Detach NInt) s (other p)"
    "removed s NInt \<longleftrightarrow> gave_up s p \<or> gave_up s (other p)"
    "failed s (other p) \<Longrightarrow> todo (procs s (other p)) = [] \<and> gave_up s (other (other p)) \<and> status (procs s (other p)) = -1"
    "gave_up s p \<and> gave_up s (other p) \<longrightarrow> failed s p \<noteq> failed s (other p)"
    "removed s AInt \<Longrightarrow> \<not> failed s (other p) \<and> todo (procs s (other p)) = []"
    using assms(2) unfolding exit_inv_other [of s p] all_pids [of _ p] ex_pids [of _ p] using assms(4) by auto
  show ?thesis unfolding exit_inv_other [of t p] all_pids [of _ p] ex_pids [of _ p] g seg(1) l(2) o
  proof (intro conjI)
    show "attached t NInt = left (Detach NInt) t p + left (Detach NInt) s (other p)"
      using inv(1) by (simp add: seg(2) l(1))
  qed (use inv nf in blast)+
qed

lemma exit_inv_remove:
  assumes "shape s" "exit_inv s" "step_proc p s = Inr t" "todo (procs s p) = Remove NInt # as"
  shows "exit_inv t"
proof -
  have o: "procs t (other p) = procs s (other p)" using step_others [OF assms(3)] by simp
  have go: "gave_up t (other p) = gave_up s (other p)" "failed t (other p) = failed s (other p)"
    "left (Detach NInt) t (other p) = left (Detach NInt) s (other p)" by (simp_all add: gave_up_def failed_def left_def o)
  have as: "as = [Remove AInt]" using shapeD(5) [OF assms(1,4)] by simp
  have gp: "\<not> gave_up s p" by (simp add: gave_up_def assms(4))
  have inv: "attached s NInt = left (Detach NInt) s p + left (Detach NInt) s (other p)"
    "removed s NInt \<longleftrightarrow> gave_up s (other p)" "\<not> failed s p" "\<not> failed s (other p)"
    "removed s AInt \<Longrightarrow> todo (procs s (other p)) = []"
    using assms(2,4) gp unfolding exit_inv_other [of s p] all_pids [of _ p] ex_pids [of _ p] by auto
  have d: "left (Detach NInt) s p = 0" "left (Detach NInt) t p = 0"
    using left_step(1) [OF assms(1,3,4), of "Detach NInt"] by (simp_all add: left_def assms(4) as)
  note seg = step_segments [OF assms(3,4)] and td = step_todo [OF assms(3,4)]
  have gt: "gave_up t p" using td by (auto simp: gave_up_def as)
  have ft: "failed t p \<longleftrightarrow> gave_up s (other p)" "failed t p \<Longrightarrow> todo (procs t p) = [] \<and> status (procs t p) = -1"
    using seg(3) td inv(1,2,3) d(1) detached [OF assms(1), of "other p"] by (auto simp: failed_def)
  show ?thesis unfolding exit_inv_other [of t p] all_pids [of _ p] ex_pids [of _ p] go
    using inv(1,2,4,5) d gt ft by (simp add: seg(1,2) o) 
qed

lemma exit_inv_remove_atomic:
  assumes "shape s" "exit_inv s" "step_proc p s = Inr t" "todo (procs s p) = Remove AInt # as"
  shows "exit_inv t"
proof -
  have o: "procs t (other p) = procs s (other p)" using step_others [OF assms(3)] by simp
  have go: "gave_up t (other p) = gave_up s (other p)" "failed t (other p) = failed s (other p)"
    "left (Detach NInt) t (other p) = left (Detach NInt) s (other p)" by (simp_all add: gave_up_def failed_def left_def o)
  have as: "as = []" using shapeD(5) [OF assms(1,4)] by simp
  have gp: "gave_up s p" by (simp add: gave_up_def assms(4) as)
  have inv: "attached s NInt = left (Detach NInt) s p + left (Detach NInt) s (other p)"
    "removed s NInt" "\<not> failed s p" "failed s (other p) \<longleftrightarrow> gave_up s (other p)"
    "failed s (other p) \<Longrightarrow> todo (procs s (other p)) = [] \<and> status (procs s (other p)) = -1" "\<not> removed s AInt"
    using assms(2,4) gp unfolding exit_inv_other [of s p] all_pids [of _ p] ex_pids [of _ p] by (auto simp: gave_up_def)
  have d: "left (Detach NInt) s p = 0" "left (Detach NInt) t p = 0"
    using left_step(1) [OF assms(1,3,4), of "Detach NInt"] by (simp_all add: left_def assms(4) as)
  note seg = step_segments [OF assms(3,4)]
  have td: "todo (procs t p) = []" using step_todo [OF assms(3,4)] as by auto
  have pt: "gave_up t p" "\<not> failed t p" using seg(3) inv(3,6) td by (simp_all add: gave_up_def failed_def)
  show ?thesis unfolding exit_inv_other [of t p] all_pids [of _ p] ex_pids [of _ p] go other_simps(5)
    using inv d pt td by (simp add: seg(1,2) o)
qed

lemma exit_inv_step:
  assumes "shape s" "exit_inv s" "ipc_step s t" shows "exit_inv t"
proof -
  from assms(3) obtain p where p: "step_proc p s = Inr t" by (auto elim: ipc_step.cases)
  from p obtain a as where a: "todo (procs s p) = a # as" by (rule step_procE)
  consider "\<forall>c. a \<noteq> Remove c" | "a = Remove NInt" | "a = Remove AInt"
    using shapeD(1) [OF assms(1) a] by (auto simp: atomic_acts_def)
  then show ?thesis
    using exit_inv_plain [OF assms(1,2) p a] exit_inv_remove [OF assms(1,2) p] exit_inv_remove_atomic [OF assms(1,2) p] a
    by cases auto
qed

text \<open>Together, from the start.\<close>

definition atomic_inv :: "sys \<Rightarrow> bool" where
  "atomic_inv s \<longleftrightarrow> shape s \<and> fetch_inv s \<and> plain_inv s \<and> exit_inv s"

lemma atomic_inv_forked: "atomic_inv (forked ipc_atomic_main)"
proof -
  have "set (ipc_atomic_main p) \<subseteq> atomic_acts \<and> chained (ipc_atomic_main p) \<and> removals_last (ipc_atomic_main p)" for p
    by (simp add: ipc_atomic_main_def atomic_acts_def numeral_eq_Suc)
  then have sh: "shape (forked ipc_atomic_main)" by (simp add: shape_def forked_def)
  have l: "left (FetchAdd AInt 1) (forked ipc_atomic_main) p = 20" "left (StoreAdd NInt 1) (forked ipc_atomic_main) p = 20"
    "left (Detach NInt) (forked ipc_atomic_main) p = 1" for p
    by (simp_all add: left_def forked_def ipc_atomic_main_def numeral_eq_Suc)
  have n: "Remove NInt \<in> set (ipc_atomic_main p)" "\<exists>as. ipc_atomic_main p = FetchAdd AInt 1 # as" for p
    by (simp_all add: ipc_atomic_main_def numeral_eq_Suc)
  have h: "fetched (forked ipc_atomic_main) p = {#}" "\<not> store_next (forked ipc_atomic_main) p"
    "\<not> gave_up (forked ipc_atomic_main) p" "\<not> failed (forked ipc_atomic_main) p" for p
    using n [of p] by (auto simp: fetched_def store_next_def gave_up_def failed_def forked_def)
  have z: "mem (forked prog) c = 0" "attached (forked prog) c = 2" "\<not> removed (forked prog) c" "shown lab (forked prog) = []" for prog c lab
    by (simp_all add: forked_def shown_def)
  show ?thesis using sh unfolding atomic_inv_def fetch_inv_def plain_inv_def exit_inv_def l Let_def by (simp add: h z)
qed

lemma atomic_inv_step: "atomic_inv s \<Longrightarrow> ipc_step s t \<Longrightarrow> atomic_inv t"
  unfolding atomic_inv_def using shape_step fetch_inv_step plain_inv_step exit_inv_step by blast

interpretation counters: invariant_system "is_forked ipc_atomic_main" ipc_step atomic_inv
  by unfold_locales (use atomic_inv_forked in \<open>simp add: is_forked_def\<close>, rule atomic_inv_step)

lemma atomic_progress:
  assumes "shape s" "\<not> ended s" shows "\<exists>t. ipc_step s t"
proof -
  obtain p a as where p: "todo (procs s p) = a # as" using assms(2) by (auto simp: ended_def neq_Nil_conv)
  have "\<exists>t. step_proc p s = Inr t"
    using shapeD(1) [OF assms(1) p] by (auto simp: step_proc_def p perform_def atomic_acts_def)
  then show ?thesis by (blast intro: ipc_stepI)
qed

section \<open>Properties\<close>

text \<open>C38: Under the file lock, in every interleaving every line that \<open>FileLockFunc\<close> prints shows the sum of the
  amounts printed so far. The processes cannot block each other for good, every step brings the end nearer, and at the end the
  counter is 30 and each process has printed its ten lines.\<close>

theorem file_lock_counts:
  assumes "reach (is_forked FileLockFunc) ipc_step s"
  shows "prints_sums (out s) \<and> (\<not> ended s \<longrightarrow> (\<exists>t. ipc_step s t)) \<and> (\<forall>t. ipc_step s t \<longrightarrow> actions_left t < actions_left s) \<and>
    (ended s \<longrightarrow> mem s Num = 30 \<and> total (out s) = 30 \<and> (\<forall>p. length (filter (\<lambda>e. fst e = p) (out s)) = 10))"
proof -
  from flock.reach_inv [OF assms] have inv: "lock_inv True 30 s" .
  then have "prints_sums (out s)" by (auto simp: lock_inv_def)
  moreover have "length (filter (\<lambda>e. fst e = p) (out s)) = 10" if "ended s" for p
    using fprint.reach_inv [OF assms, unfolded print_inv_def, THEN conjunct1, rule_format, of p] that
    by (cases p) (simp_all add: ended_def)
  ultimately show ?thesis using strict_progress [OF inv] ipc_step_decreases lock_inv_ended [OF inv] by simp
qed

theorem file_lock_counts_witness:
  "\<exists>s. reach (is_forked FileLockFunc) ipc_step s \<and> ended s \<and> prints_sums (out s) \<and> total (out s) = 30 \<and> mem s Num = 30"
proof -
  have "\<exists>t. reach (is_forked FileLockFunc) ipc_step t \<and> ended t" if "reach (is_forked FileLockFunc) ipc_step s" for s
    using that
  proof (induction "actions_left s" arbitrary: s rule: less_induct)
    case less
    then show ?case using file_lock_counts [OF less.prems] reach_step [OF less.prems] by blast
  qed
  moreover have "reach (is_forked FileLockFunc) ipc_step (forked FileLockFunc)" by (rule reach_init) (simp add: is_forked_def)
  ultimately obtain s where s: "reach (is_forked FileLockFunc) ipc_step s" "ended s" by blast
  then show ?thesis using file_lock_counts [OF s(1)] by blast
qed

text \<open>Under the mutex the counter is right as well, but the process that ends first destroys the mutex that the
  other one still uses.\<close>

lemma share_mutex_counts:
  "reach (is_forked ShareMutexFunc) ipc_step s \<Longrightarrow>
   mem s Num + adds (todo (procs s Child)) + adds (todo (procs s Parent)) = 30"
  using mutex.reach_inv by (simp add: lock_inv_def)

lemma share_mutex_locks_destroyed:
  "\<exists>s. reach (is_forked ShareMutexFunc) ipc_step s \<and> todo (procs s Child) = [] \<and> mem s Num = 10 \<and>
     step_proc Parent s = Inl UseAfterFree"
proof -
  have "(case run_pids (replicate 61 Child) (forked ShareMutexFunc) of Inl _ \<Rightarrow> False
    | Inr s \<Rightarrow> todo (procs s Child) = [] \<and> mem s Num = 10 \<and> (case step_proc Parent s of Inl f \<Rightarrow> f = UseAfterFree | Inr _ \<Rightarrow> False))"
    by code_simp
  then obtain s where "run_pids (replicate 61 Child) (forked ShareMutexFunc) = Inr s"
    "todo (procs s Child) = []" "mem s Num = 10" "step_proc Parent s = Inl UseAfterFree"
    by (auto split: sum.splits)
  moreover have "reach (is_forked ShareMutexFunc) ipc_step (forked ShareMutexFunc)" by (rule reach_init) (simp add: is_forked_def)
  ultimately show ?thesis using run_pids_reach by blast
qed

text \<open>C39: Of the two counters of \<open>ipc_atomic_main\<close>, the atomic one is exact: in every interleaving it ends at 40 and
  the forty values printed are 0 to 39, each once. The plain one ends anywhere between 2 and 40. No process blocks, and
  exactly one of them ends with status -1, because the other one has removed the segment.\<close>

theorem atomic_and_plain_counters:
  assumes "reach (is_forked ipc_atomic_main) ipc_step s"
  shows "(\<not> ended s \<longrightarrow> (\<exists>t. ipc_step s t)) \<and> (\<forall>t. ipc_step s t \<longrightarrow> actions_left t < actions_left s) \<and>
    (ended s \<longrightarrow> mem s AInt = 40 \<and> mset (shown Atomic s) = mset (map of_nat [0..<40]) \<and>
      unat (mem s NInt) \<in> {2..40} \<and> (\<exists>p. status (procs s p) = -1 \<and> status (procs s (other p)) = 0))"
proof -
  note inv = counters.reach_inv [OF assms, unfolded atomic_inv_def]
  have "mem s AInt = 40 \<and> mset (shown Atomic s) = mset (map of_nat [0..<40]) \<and>
      unat (mem s NInt) \<in> {2..40} \<and> (\<exists>p. status (procs s p) = -1 \<and> status (procs s (other p)) = 0)" if "ended s"
  proof -
    have e: "todo (procs s p) = []" for p using that by (cases p) (simp_all add: ended_def)
    then have z: "left a s p = 0" "fetched s p = {#}" "gave_up s p" for a p by (simp_all add: left_def fetched_def gave_up_def)
    have a: "unat (mem s AInt) = 40" "mset (shown Atomic s) = mset (map of_nat [0..<40])"
      using inv by (simp_all add: fetch_inv_def z)
    have "mem s AInt = 40" by (rule unsigned_word_eqI [where 'a = nat]) (simp add: a(1))
    moreover have "unat (mem s NInt) \<in> {2..40}" using inv by (simp add: plain_inv_def Let_def z)
    moreover have "\<exists>p. failed s p \<and> \<not> failed s (other p)" "\<forall>p. failed s p \<longrightarrow> status (procs s p) = -1"
      using inv by (auto simp: exit_inv_def z ex_pids [of _ Child])
    ultimately show ?thesis using a(2) by (auto simp: failed_def)
  qed
  then show ?thesis using atomic_progress inv ipc_step_decreases by blast
qed

definition lost_updates :: "pid list" where
  "lost_updates = replicate 40 Child @ replicate 41 Parent @ replicate 57 Child @ [Parent, Parent, Child] @
     replicate 57 Parent @ [Child, Child] @ replicate 4 Parent @ replicate 3 Child"

theorem atomic_and_plain_counters_witness:
  "\<exists>s. reach (is_forked ipc_atomic_main) ipc_step s \<and> ended s \<and> mem s AInt = 40 \<and> mem s NInt = 2 \<and>
     mset (shown Atomic s) = mset (map of_nat [0..<40]) \<and> (\<exists>p. status (procs s p) = -1 \<and> status (procs s (other p)) = 0)"
proof -
  have "case run_pids lost_updates (forked ipc_atomic_main) of Inl _ \<Rightarrow> False | Inr s \<Rightarrow> ended s \<and> mem s NInt = 2"
    by code_simp
  then obtain s where s: "run_pids lost_updates (forked ipc_atomic_main) = Inr s" "ended s" "mem s NInt = 2"
    by (auto split: sum.splits)
  have "reach (is_forked ipc_atomic_main) ipc_step (forked ipc_atomic_main)" by (rule reach_init) (simp add: is_forked_def)
  from run_pids_reach [OF s(1) this] have r: "reach (is_forked ipc_atomic_main) ipc_step s" .
  show ?thesis using r atomic_and_plain_counters [OF r] s(2,3) by blast
qed

end
