(* ===== verification/TcpDemo.thy ===== *)
theory TcpDemo
  imports Anet
begin

text \<open>
  \<^verbatim>\<open>anet/tcpServer.cpp\<close> and \<^verbatim>\<open>anet/tcpClient.cpp\<close>: a server that reads what a client sends and answers it, and its
  client, both on the wrappers of \<^verbatim>\<open>Anet\<close>. The programs retry a read or a write until it succeeds; \<open>fuel\<close> bounds the
  retries. A buffer is the bytes last stored in front of what it held.
\<close>

section \<open>Retrying\<close>

definition store :: "bytes \<Rightarrow> bytes \<Rightarrow> bytes" where
  "store d buf = d @ drop (length d) buf"

text \<open>\<open>while ((nWrite = anetWrite(...)) <= 0) usleep(1000)\<close>\<close>

fun write_retry :: "os \<Rightarrow> nat \<Rightarrow> int \<Rightarrow> bytes \<Rightarrow> int option anet" where
  "write_retry K 0 fd txt = State_Monad.return None"
| "write_retry K (Suc n) fd txt = do {
     r \<leftarrow> anetWrite K (length txt) fd txt (int (length txt)) 0;
     case r of
       None \<Rightarrow> State_Monad.return None
     | Some nWrite \<Rightarrow> if nWrite \<le> 0 then write_retry K n fd txt else State_Monad.return (Some nWrite) }"

section \<open>The server\<close>

text \<open>The lines printed while the reads succeed; \<open>readBuf\<close> has 1024 bytes, the last one of which stays zero.\<close>

fun server_read_loop :: "os \<Rightarrow> nat \<Rightarrow> int \<Rightarrow> bytes \<Rightarrow> bytes list option anet" where
  "server_read_loop K 0 fd readBuf = State_Monad.return None"
| "server_read_loop K (Suc n) fd readBuf = do {
     r \<leftarrow> anetRead K 1023 fd 1023 0 [];
     case r of
       None \<Rightarrow> State_Monad.return None
     | Some (d, nRead) \<Rightarrow>
         if nRead > 0 then do {
           outs \<leftarrow> server_read_loop K n fd (store d readBuf);
           State_Monad.return (map_option (\<lambda>o'. cstr (store d readBuf) # o') outs) }
         else State_Monad.return (Some []) }"

definition server_thread_func :: "os \<Rightarrow> nat \<Rightarrow> int \<Rightarrow> bytes list option anet" where
  "server_thread_func K fuel sockClient = do {
     outs \<leftarrow> server_read_loop K fuel sockClient (replicate 1024 0);
     case outs of
       None \<Rightarrow> State_Monad.return None
     | Some os \<Rightarrow> do {
         w \<leftarrow> write_retry K fuel sockClient (lit ''Hello From Server...'');
         case w of
           None \<Rightarrow> State_Monad.return None
         | Some _ \<Rightarrow> do { _ \<leftarrow> sys K (SysClose sockClient); State_Monad.return (Some os) } } }"

text \<open>One round of the accept loop of \<open>main\<close>.\<close>

definition server_accept :: "os \<Rightarrow> nat \<Rightarrow> int \<Rightarrow> bytes list option anet" where
  "server_accept K fuel sock_serv = do {
     r \<leftarrow> anetTcpAccept K fuel sock_serv 64;
     case r of
       None \<Rightarrow> State_Monad.return None
     | Some (sock_client, _) \<Rightarrow>
         if sock_client \<noteq> ANET_ERR then do {
           _ \<leftarrow> anetNonBlock K sock_client;
           server_thread_func K fuel sock_client }
         else State_Monad.return (Some []) }"

section \<open>The client\<close>

text \<open>\<open>readBuf\<close> has 128 bytes and is not initialised.\<close>

fun client_read_loop :: "os \<Rightarrow> nat \<Rightarrow> int \<Rightarrow> bytes \<Rightarrow> bytes res option anet" where
  "client_read_loop K 0 fd readBuf = State_Monad.return None"
| "client_read_loop K (Suc n) fd readBuf = do {
     r \<leftarrow> anetRead K 128 fd 128 0 [];
     case r of
       None \<Rightarrow> State_Monad.return None
     | Some (d, nRead) \<Rightarrow>
         if nRead \<le> 0 then client_read_loop K n fd (store d readBuf)
         else State_Monad.return (Some (c_string (store d readBuf))) }"

text \<open>A failed connection is reported, and then read from.\<close>

definition client_thread_func :: "os \<Rightarrow> nat \<Rightarrow> bytes \<Rightarrow> bytes \<Rightarrow> int \<Rightarrow> bytes res option anet" where
  "client_thread_func K fuel readBuf addr port = do {
     sockfd \<leftarrow> anetTcpNonBlockConnect K addr port;
     w \<leftarrow> (if sockfd \<noteq> ANET_ERR then write_retry K fuel sockfd (lit ''Hello From Client'') else State_Monad.return (Some 0));
     case w of
       None \<Rightarrow> State_Monad.return None
     | Some _ \<Rightarrow> do {
         answer \<leftarrow> client_read_loop K fuel sockfd readBuf;
         case answer of
           None \<Rightarrow> State_Monad.return None
         | Some line \<Rightarrow> do { _ \<leftarrow> sys K (SysClose sockfd); State_Monad.return (Some line) } } }"

section \<open>Reads that stop short\<close>

lemma anetRead_first:
  assumes "0 < count" "os_ret K (calls s) (SysRead fd count) = r" "r = 0 \<or> r = -1"
  shows "run_state (anetRead K (Suc n) fd count 0 []) s = (Some ([], r), s\<lparr>calls := calls s @ [SysRead fd count]\<rparr>)"
  using anetRead_round [of 0 count "SysRead fd count" fd K n "[]" s] assms by (auto simp: Let_def)

lemma anetRead_second:
  assumes "0 < k" "int k < count" "os_ret K (calls s) (SysRead fd count) = int k"
    and "os_ret K (calls s @ [SysRead fd count]) (SysRead fd (count - int k)) = r" "r = 0 \<or> r = -1"
  shows "run_state (anetRead K (Suc (Suc n)) fd count 0 []) s =
    (Some (os_data K (calls s @ [SysRead fd count]), if r = 0 then int k else -1),
     s\<lparr>calls := calls s @ [SysRead fd count, SysRead fd (count - int k)]\<rparr>)"
  using anetRead_round [of 0 count "SysRead fd count" fd K "Suc n" "[]" s]
    anetRead_round [of "int k" count "SysRead fd (count - int k)" fd K n "os_data K (calls s @ [SysRead fd count])"
      "s\<lparr>calls := calls s @ [SysRead fd count]\<rparr>"] assms
  by (auto simp: Let_def)

lemma client_read_loop_spins:
  assumes "\<forall>h. os_ret K (calls s @ h) (SysRead fd 128) \<in> {0, -1}"
  shows "fst (run_state (client_read_loop K fuel fd buf) s) = None"
  using assms
proof (induction fuel arbitrary: s buf)
  case (Suc n)
  let ?r = "os_ret K (calls s) (SysRead fd 128)" and ?s = "s\<lparr>calls := calls s @ [SysRead fd 128]\<rparr>"
  have r: "?r = 0 \<or> ?r = -1" using Suc.prems [rule_format, of "[]"] by simp
  have run: "run_state (anetRead K 128 fd 128 0 []) s = (Some ([], ?r), ?s)"
    using anetRead_first [of 128 K s fd ?r 127] r by (simp add: numeral_eq_Suc)
  have "\<forall>h. os_ret K (calls ?s @ h) (SysRead fd 128) \<in> {0, -1}" using Suc.prems by simp
  from Suc.IH [OF this] show ?case using r by (auto simp: run)
qed simp

section \<open>Properties\<close>

text \<open>A message of \<open>k\<close> bytes arrives in one piece, and the next read returns \<open>r\<close>: zero at the end of the file, -1 when it
  would block.\<close>

definition message_read :: "os \<Rightarrow> int \<Rightarrow> int \<Rightarrow> trace \<Rightarrow> nat \<Rightarrow> int \<Rightarrow> bool" where
  "message_read K fd count h k r \<longleftrightarrow> 0 < k \<and> int k < count \<and> os_ret K h (SysRead fd count) = int k \<and>
     os_ret K (h @ [SysRead fd count]) (SysRead fd (count - int k)) = r"

text \<open>On their non-blocking sockets the programs only get a message that the end of the file follows at once:
  then the client prints it. When the next read would block instead, the server prints nothing, and a client that then only finds the end of the file never
  ends. Nor does one whose connection failed, since it goes on to read from descriptor -1.\<close>

theorem short_messages_are_lost:
  "(message_read K fd 128 (calls s) k 0 \<longrightarrow>
      fst (run_state (client_read_loop K (Suc n) fd buf) s) = Some (c_string (store (os_data K (calls s @ [SysRead fd 128])) buf))) \<and>
   (message_read K fd 1023 (calls s) k (-1) \<longrightarrow> fst (run_state (server_read_loop K (Suc n) fd buf) s) = Some []) \<and>
   (message_read K fd 128 (calls s) k (-1) \<and>
      (\<forall>h. os_ret K (calls s @ [SysRead fd 128, SysRead fd (128 - int k)] @ h) (SysRead fd 128) \<in> {0, -1}) \<longrightarrow>
      fst (run_state (client_read_loop K fuel fd buf) s) = None) \<and>
   (fst (run_state (anetTcpNonBlockConnect K addr port) s) = ANET_ERR \<and> (\<forall>h. os_ret K h (SysRead (-1) 128) = -1) \<longrightarrow>
      fst (run_state (client_thread_func K fuel buf addr port) s) = None)"
proof (intro conjI impI)
  show "fst (run_state (client_read_loop K (Suc n) fd buf) s) = Some (c_string (store (os_data K (calls s @ [SysRead fd 128])) buf))"
    if "message_read K fd 128 (calls s) k 0"
    using that anetRead_second [of k 128 K s fd 0 126] by (simp add: message_read_def)
  show "fst (run_state (server_read_loop K (Suc n) fd buf) s) = Some []" if "message_read K fd 1023 (calls s) k (-1)"
    using that anetRead_second [of k 1023 K s fd "-1" 1021] by (simp add: message_read_def)
next
  let ?s = "s\<lparr>calls := calls s @ [SysRead fd 128, SysRead fd (128 - int k)]\<rparr>"
  assume h: "message_read K fd 128 (calls s) k (-1) \<and>
    (\<forall>h. os_ret K (calls s @ [SysRead fd 128, SysRead fd (128 - int k)] @ h) (SysRead fd 128) \<in> {0, -1})"
  then have "\<forall>h. os_ret K (calls ?s @ h) (SysRead fd 128) \<in> {0, -1}" by simp
  note spins = client_read_loop_spins [OF this]
  show "fst (run_state (client_read_loop K fuel fd buf) s) = None"
    using h anetRead_second [of k 128 K s fd "-1" 126] by (cases fuel) (simp_all add: spins message_read_def)
next
  assume h: "fst (run_state (anetTcpNonBlockConnect K addr port) s) = ANET_ERR \<and> (\<forall>h. os_ret K h (SysRead (-1) 128) = -1)"
  then obtain s1 where s1: "run_state (anetTcpNonBlockConnect K addr port) s = (ANET_ERR, s1)"
    by (cases "run_state (anetTcpNonBlockConnect K addr port) s") auto
  obtain s2 where "run_state (client_read_loop K fuel (-1) buf) s1 = (None, s2)"
    using client_read_loop_spins [of K s1 "-1" fuel buf] h by (cases "run_state (client_read_loop K fuel (-1) buf) s1") auto
  then show "fst (run_state (client_thread_func K fuel buf addr port) s) = None"
    by (simp add: client_thread_func_def s1 ANET_ERR_def)
qed

text \<open>A system on which five bytes arrive first, then nothing, then the end of the file.\<close>

definition slow_os :: os where
  "slow_os = sample_os\<lparr>os_ret := \<lambda>h c. case c of
     SysRead fd n \<Rightarrow> if fd = -1 then -1 else if h = [] then 5 else if length h = 1 then -1 else 0
   | _ \<Rightarrow> -1\<rparr>"

theorem short_messages_are_lost_witness:
  "fst (run_state (server_read_loop slow_os 1 3 (replicate 1024 0)) \<lparr>calls = [], err = None\<rparr>) = Some [] \<and>
   (\<forall>fuel. fst (run_state (client_read_loop slow_os fuel 3 (replicate 128 0)) \<lparr>calls = [], err = None\<rparr>) = None)"
proof -
  have "message_read slow_os 3 1023 [] 5 (-1)" "message_read slow_os 3 128 [] 5 (-1)"
    "\<forall>h. os_ret slow_os ([SysRead 3 128, SysRead 3 (128 - int 5)] @ h) (SysRead 3 128) \<in> {0, -1}"
    by (simp_all add: message_read_def slow_os_def)
  then show ?thesis
    using short_messages_are_lost [of slow_os 3 "\<lparr>calls = [], err = None\<rparr>" 5 0 "replicate 1024 0"]
      short_messages_are_lost [of slow_os 3 "\<lparr>calls = [], err = None\<rparr>" 5 0 "replicate 128 0"] by simp
qed

end
