(* ===== verification/CvQueue.thy ===== *)
theory CvQueue
  imports Prelude
begin

text \<open>
  \<^verbatim>\<open>trivials/cv_trivial.cpp\<close>: \<open>gcount\<close> producer threads each push their number on a queue, under a mutex, and notify a
  condition variable; one consumer pops as many. A run interleaves the steps of the threads; a waiting thread
  may also wake up without a notification.
\<close>

section \<open>Threads and shared state\<close>

datatype thread = Producer nat | Consumer

text \<open>The next operation of a producer, and of the consumer; \<open>CWoken\<close> is \<open>wait\<close> taking the mutex again.\<close>

datatype ppoint = PLock | PPush | PUnlock | PNotify | PDone

datatype cpoint = CTest | CLock | CEmpty | CWaiting | CWoken | CPop | CUnlock | CDone

datatype line = Produce nat | Consume nat

record cv_state =
  mtx :: "thread option"
  gqueue :: "nat list"
  k :: nat
  cat :: cpoint
  pat :: "nat \<Rightarrow> ppoint"
  lines :: "line list"

definition producer_step :: "nat \<Rightarrow> cv_state \<Rightarrow> cv_state option" where
  "producer_step i s = (case pat s i of
     PLock \<Rightarrow> if mtx s = None then Some (s\<lparr>mtx := Some (Producer i), pat := (pat s)(i := PPush)\<rparr>) else None
   | PPush \<Rightarrow> Some (s\<lparr>gqueue := gqueue s @ [i], lines := lines s @ [Produce i], pat := (pat s)(i := PUnlock)\<rparr>)
   | PUnlock \<Rightarrow> Some (s\<lparr>mtx := None, pat := (pat s)(i := PNotify)\<rparr>)
   | PNotify \<Rightarrow> Some (s\<lparr>cat := if cat s = CWaiting then CWoken else cat s, pat := (pat s)(i := PDone)\<rparr>)
   | PDone \<Rightarrow> None)"

text \<open>\<open>front\<close> and \<open>pop\<close> of an empty queue are undefined; \<open>count_inv\<close> excludes that case.\<close>

definition consumer_step :: "cv_state \<Rightarrow> cv_state option" where
  "consumer_step s = (case cat s of
     CTest \<Rightarrow> Some (s\<lparr>cat := if k s \<noteq> 0 then CLock else CDone\<rparr>)
   | CLock \<Rightarrow> if mtx s = None then Some (s\<lparr>mtx := Some Consumer, cat := CEmpty\<rparr>) else None
   | CEmpty \<Rightarrow> if gqueue s = [] then Some (s\<lparr>mtx := None, cat := CWaiting\<rparr>) else Some (s\<lparr>cat := CPop\<rparr>)
   | CWaiting \<Rightarrow> None
   | CWoken \<Rightarrow> if mtx s = None then Some (s\<lparr>mtx := Some Consumer, cat := CEmpty\<rparr>) else None
   | CPop \<Rightarrow> (case gqueue s of
       [] \<Rightarrow> None
     | x # xs \<Rightarrow> Some (s\<lparr>lines := lines s @ [Consume x], gqueue := xs, k := k s - 1, cat := CUnlock\<rparr>))
   | CUnlock \<Rightarrow> Some (s\<lparr>mtx := None, cat := CTest\<rparr>)
   | CDone \<Rightarrow> None)"

text \<open>Steps of the program proper, and a wake-up for no reason.\<close>

inductive cv_step :: "nat \<Rightarrow> cv_state \<Rightarrow> cv_state \<Rightarrow> bool" for n where
  producer: "i < n \<Longrightarrow> producer_step i s = Some t \<Longrightarrow> cv_step n s t"
| consumer: "consumer_step s = Some t \<Longrightarrow> cv_step n s t"

inductive cv_any :: "nat \<Rightarrow> cv_state \<Rightarrow> cv_state \<Rightarrow> bool" for n where
  proper: "cv_step n s t \<Longrightarrow> cv_any n s t"
| spurious: "cat s = CWaiting \<Longrightarrow> cv_any n s (s\<lparr>cat := CWoken\<rparr>)"

definition cv_start :: "nat \<Rightarrow> cv_state \<Rightarrow> bool" where
  "cv_start n s \<longleftrightarrow> s = \<lparr>mtx = None, gqueue = [], k = n, cat = CTest, pat = \<lambda>_. PLock, lines = []\<rparr>"

definition cv_done :: "nat \<Rightarrow> cv_state \<Rightarrow> bool" where
  "cv_done n s \<longleftrightarrow> cat s = CDone \<and> (\<forall>i < n. pat s i = PDone)"

section \<open>Invariants\<close>

fun produced :: "line list \<Rightarrow> nat list" where
  "produced [] = []"
| "produced (Produce i # ls) = i # produced ls"
| "produced (Consume i # ls) = produced ls"

fun consumed :: "line list \<Rightarrow> nat list" where
  "consumed [] = []"
| "consumed (Consume i # ls) = i # consumed ls"
| "consumed (Produce i # ls) = consumed ls"

lemma produced_snoc [simp]: "produced (ls @ [l]) = produced ls @ (case l of Produce i \<Rightarrow> [i] | Consume i \<Rightarrow> [])"
  by (induction ls rule: produced.induct) (simp_all split: line.splits)

lemma consumed_snoc [simp]: "consumed (ls @ [l]) = consumed ls @ (case l of Consume i \<Rightarrow> [i] | Produce i \<Rightarrow> [])"
  by (induction ls rule: consumed.induct) (simp_all split: line.splits)

text \<open>Who holds the mutex.\<close>

definition mutex_inv :: "nat \<Rightarrow> cv_state \<Rightarrow> bool" where
  "mutex_inv n s \<longleftrightarrow> (\<forall>i. pat s i \<in> {PPush, PUnlock} \<longleftrightarrow> mtx s = Some (Producer i)) \<and>
     (cat s \<in> {CEmpty, CPop, CUnlock} \<longleftrightarrow> mtx s = Some Consumer) \<and> (\<forall>i \<ge> n. pat s i = PLock)"

text \<open>The producers that have pushed.\<close>

definition pushed :: "(nat \<Rightarrow> ppoint) \<Rightarrow> nat set" where
  "pushed f = {i. f i \<in> {PUnlock, PNotify, PDone}}"

lemma pushed_upd [simp]: "pushed (f(i := x)) = (if x \<in> {PUnlock, PNotify, PDone} then insert i (pushed f) else pushed f - {i})"
  by (auto simp: pushed_def)

lemma pushed_iff: "i \<in> pushed f \<longleftrightarrow> f i \<in> {PUnlock, PNotify, PDone}"
  by (simp add: pushed_def)

text \<open>What was produced was consumed or is in the queue, in this order; the consumer counts down.\<close>

definition queue_inv :: "cv_state \<Rightarrow> bool" where
  "queue_inv s \<longleftrightarrow> produced (lines s) = consumed (lines s) @ gqueue s \<and> distinct (consumed (lines s) @ gqueue s) \<and>
     set (consumed (lines s) @ gqueue s) = pushed (pat s)"

definition count_inv :: "nat \<Rightarrow> cv_state \<Rightarrow> bool" where
  "count_inv n s \<longleftrightarrow> k s + length (consumed (lines s)) = n \<and> (cat s = CPop \<longrightarrow> gqueue s \<noteq> []) \<and>
     (cat s \<in> {CLock, CEmpty, CWaiting, CWoken, CPop} \<longrightarrow> k s \<noteq> 0) \<and> (cat s = CDone \<longrightarrow> k s = 0)"

text \<open>No wake-up is lost.\<close>

definition wake_inv :: "cv_state \<Rightarrow> bool" where
  "wake_inv s \<longleftrightarrow> (cat s = CWaiting \<and> gqueue s \<noteq> [] \<longrightarrow> (\<exists>i. pat s i \<in> {PUnlock, PNotify}))"

definition cv_inv :: "nat \<Rightarrow> cv_state \<Rightarrow> bool" where
  "cv_inv n s \<longleftrightarrow> mutex_inv n s \<and> queue_inv s \<and> count_inv n s \<and> wake_inv s"

lemma producer_cases:
  assumes "producer_step i s = Some t"
  obtains "pat s i = PLock" "mtx s = None" "t = s\<lparr>mtx := Some (Producer i), pat := (pat s)(i := PPush)\<rparr>"
  | "pat s i = PPush" "t = s\<lparr>gqueue := gqueue s @ [i], lines := lines s @ [Produce i], pat := (pat s)(i := PUnlock)\<rparr>"
  | "pat s i = PUnlock" "t = s\<lparr>mtx := None, pat := (pat s)(i := PNotify)\<rparr>"
  | "pat s i = PNotify" "t = s\<lparr>cat := if cat s = CWaiting then CWoken else cat s, pat := (pat s)(i := PDone)\<rparr>"
  using assms by (cases "pat s i") (auto simp: producer_step_def split: if_splits)

lemma consumer_cases:
  assumes "consumer_step s = Some t"
  obtains "cat s = CTest" "t = s\<lparr>cat := if k s \<noteq> 0 then CLock else CDone\<rparr>"
  | "cat s \<in> {CLock, CWoken}" "mtx s = None" "t = s\<lparr>mtx := Some Consumer, cat := CEmpty\<rparr>"
  | "cat s = CEmpty" "gqueue s = []" "t = s\<lparr>mtx := None, cat := CWaiting\<rparr>"
  | "cat s = CEmpty" "gqueue s \<noteq> []" "t = s\<lparr>cat := CPop\<rparr>"
  | x xs where "cat s = CPop" "gqueue s = x # xs" "t = s\<lparr>lines := lines s @ [Consume x], gqueue := xs, k := k s - 1, cat := CUnlock\<rparr>"
  | "cat s = CUnlock" "t = s\<lparr>mtx := None, cat := CTest\<rparr>"
  using assms by (cases "cat s") (auto simp: consumer_step_def split: if_splits list.splits)

lemma producer_mutex:
  assumes "mutex_inv n s" "i < n" "producer_step i s = Some t" shows "mutex_inv n t"
proof -
  have own: "pat s j = PPush \<or> pat s j = PUnlock \<longleftrightarrow> mtx s = Some (Producer j)" for j using assms(1) by (simp add: mutex_inv_def)
  have rest: "cat s \<in> {CEmpty, CPop, CUnlock} \<longleftrightarrow> mtx s = Some Consumer" "\<forall>i \<ge> n. pat s i = PLock"
    using assms(1) by (simp_all add: mutex_inv_def)
  from assms(3) show ?thesis
  proof (cases rule: producer_cases)
    case 1
    then show ?thesis using own rest assms(2) by (auto simp: mutex_inv_def)
  next
    case 2
    then show ?thesis using own own [of i] rest assms(2) by (auto simp: mutex_inv_def)
  next
    case 3
    then have m: "mtx s = Some (Producer i)" using own [of i] by simp
    have "pat s j \<noteq> PPush \<and> pat s j \<noteq> PUnlock" if "j \<noteq> i" for j using own [of j] m that by simp
    then show ?thesis using 3 m rest assms(2) by (simp add: mutex_inv_def)
  next
    case 4
    then have m: "mtx s \<noteq> Some (Producer i)" using own [of i] by simp
    then show ?thesis using 4 own rest assms(2) by (cases "cat s = CWaiting") (simp_all add: mutex_inv_def)
  qed
qed

lemma consumer_mutex: "mutex_inv n s \<Longrightarrow> consumer_step s = Some t \<Longrightarrow> mutex_inv n t"
  by (erule consumer_cases) (auto simp: mutex_inv_def)

lemma producer_queue:
  assumes "queue_inv s" "producer_step i s = Some t" shows "queue_inv t"
proof -
  have q: "produced (lines s) = consumed (lines s) @ gqueue s" "distinct (consumed (lines s) @ gqueue s)"
    "set (consumed (lines s) @ gqueue s) = pushed (pat s)" using assms(1) by (simp_all add: queue_inv_def)
  have i: "i \<in> set (consumed (lines s)) \<or> i \<in> set (gqueue s) \<longleftrightarrow> pat s i \<in> {PUnlock, PNotify, PDone}"
    using q(3) pushed_iff [of i "pat s"] by auto
  from assms(2) show ?thesis
    by (cases rule: producer_cases) (use q i in \<open>auto simp: queue_inv_def pushed_iff\<close>)
qed

lemma producer_count: "count_inv n s \<Longrightarrow> producer_step i s = Some t \<Longrightarrow> count_inv n t"
  by (erule producer_cases) (auto simp: count_inv_def)

lemma consumer_queue: "queue_inv s \<Longrightarrow> consumer_step s = Some t \<Longrightarrow> queue_inv t"
  by (erule consumer_cases) (simp_all add: queue_inv_def)

lemma consumer_count: "count_inv n s \<Longrightarrow> consumer_step s = Some t \<Longrightarrow> count_inv n t"
  by (erule consumer_cases) (auto simp: count_inv_def)

lemma producer_wake:
  assumes "wake_inv s" "producer_step i s = Some t" shows "wake_inv t"
  using assms(2)
proof (cases rule: producer_cases)
  case 1
  have "j \<noteq> i" if "pat s j \<in> {PUnlock, PNotify}" for j using that 1(1) by auto
  then show ?thesis using assms(1) 1(3) by (fastforce simp: wake_inv_def)
qed (use assms(1) in \<open>auto simp: wake_inv_def intro: exI [of _ i]\<close>)

lemma consumer_wake: "wake_inv s \<Longrightarrow> consumer_step s = Some t \<Longrightarrow> wake_inv t"
  by (erule consumer_cases) (auto simp: wake_inv_def)

lemma cv_inv_start: "cv_start n s \<Longrightarrow> cv_inv n s"
  by (simp add: cv_start_def cv_inv_def mutex_inv_def queue_inv_def count_inv_def wake_inv_def pushed_def)

lemma cv_inv_step: "cv_inv n s \<Longrightarrow> cv_any n s t \<Longrightarrow> cv_inv n t"
proof (erule cv_any.cases)
  fix s' t' assume inv: "cv_inv n s" and h: "s = s'" "t = t'" "cv_step n s' t'"
  from h(3) show ?thesis unfolding h(1,2) [symmetric] using inv
    by (cases rule: cv_step.cases)
      (auto simp: cv_inv_def intro: producer_mutex producer_queue producer_count producer_wake
         consumer_mutex consumer_queue consumer_count consumer_wake)
qed (auto simp: cv_inv_def mutex_inv_def queue_inv_def count_inv_def wake_inv_def)

interpretation cvq: invariant_system "cv_start n" "cv_any n" "cv_inv n" for n
  by unfold_locales (rule cv_inv_start, assumption, rule cv_inv_step)

section \<open>Progress\<close>

fun prank :: "ppoint \<Rightarrow> nat" where
  "prank PLock = 4" | "prank PPush = 3" | "prank PUnlock = 2" | "prank PNotify = 1" | "prank PDone = 0"

fun crank :: "cpoint \<Rightarrow> nat" where
  "crank CTest = 6" | "crank CLock = 5" | "crank CEmpty = 4" | "crank CWaiting = 0" | "crank CWoken = 5"
| "crank CPop = 3" | "crank CUnlock = 7" | "crank CDone = 0"

text \<open>What the program still has to do.\<close>

definition cv_work :: "nat \<Rightarrow> cv_state \<Rightarrow> nat" where
  "cv_work n s = 10 * (\<Sum>i < n. prank (pat s i)) + 6 * k s + crank (cat s)"

lemma sum_upd: "i < n \<Longrightarrow> (\<Sum>j < n. prank ((f(i := x)) j)) + prank (f i) = (\<Sum>j < n. prank (f j)) + prank x"
  for f :: "nat \<Rightarrow> ppoint"
  by (simp add: sum.remove [of "{..<n}" i])

lemma cv_work_decreases:
  assumes "cv_inv n s" "cv_step n s t" shows "cv_work n t < cv_work n s"
  using assms(2)
proof (cases rule: cv_step.cases)
  case (producer i)
  have u: "(\<Sum>j < n. prank (((pat s)(i := x)) j)) + prank (pat s i) = (\<Sum>j < n. prank (pat s j)) + prank x" for x
    by (rule sum_upd [OF producer(1)])
  from producer(2) show ?thesis
  proof (cases rule: producer_cases)
    case 1
    then show ?thesis using u [of PPush] by (simp add: cv_work_def)
  next
    case 2
    then show ?thesis using u [of PUnlock] by (simp add: cv_work_def)
  next
    case 3
    then show ?thesis using u [of PNotify] by (simp add: cv_work_def)
  next
    case 4
    then show ?thesis using u [of PDone] by (simp add: cv_work_def)
  qed
next
  case consumer
  then show ?thesis
    by (cases rule: consumer_cases) (use assms(1) in \<open>auto simp: cv_work_def cv_inv_def count_inv_def\<close>)
qed

lemma producer_can: "pat s i \<noteq> PDone \<Longrightarrow> pat s i = PLock \<longrightarrow> mtx s = None \<Longrightarrow> \<exists>t. producer_step i s = Some t"
  by (cases "pat s i") (auto simp: producer_step_def)

lemma consumer_can:
  "count_inv n s \<Longrightarrow> cat s \<notin> {CDone, CWaiting} \<Longrightarrow> cat s \<in> {CLock, CWoken} \<longrightarrow> mtx s = None \<Longrightarrow> \<exists>t. consumer_step s = Some t"
  by (cases "cat s") (auto simp: consumer_step_def count_inv_def split: list.splits)

text \<open>With every producer done, the consumer does not wait.\<close>

lemma not_waiting:
  assumes "cv_inv n s" "\<forall>i < n. pat s i = PDone" shows "cat s \<noteq> CWaiting"
proof
  assume w: "cat s = CWaiting"
  have out: "pat s i = PLock" if "n \<le> i" for i using assms(1) that by (simp add: cv_inv_def mutex_inv_def)
  have ip: "i \<in> pushed (pat s) \<longleftrightarrow> i < n" for i using assms(2) out [of i] by (cases "i < n") (auto simp: pushed_iff)
  then have all: "pushed (pat s) = {..<n}" by auto
  have "\<not> pat s i \<in> {PUnlock, PNotify}" for i using assms(2) out [of i] by (cases "i < n") auto
  then have "gqueue s = []" using assms(1) w by (auto simp: cv_inv_def wake_inv_def)
  then have "distinct (consumed (lines s))" "set (consumed (lines s)) = {..<n}" using assms(1) all by (auto simp: cv_inv_def queue_inv_def)
  then have "length (consumed (lines s)) = n" by (metis card_lessThan distinct_card)
  then show False using assms(1) w by (auto simp: cv_inv_def count_inv_def)
qed

lemma cv_progress:
  assumes "cv_inv n s" "\<not> cv_done n s" shows "\<exists>t. cv_step n s t"
proof -
  have m: "\<And>i. pat s i \<in> {PPush, PUnlock} \<longleftrightarrow> mtx s = Some (Producer i)" "cat s \<in> {CEmpty, CPop, CUnlock} \<longleftrightarrow> mtx s = Some Consumer"
    "\<And>i. n \<le> i \<Longrightarrow> pat s i = PLock" and c: "count_inv n s" using assms(1) by (simp_all add: cv_inv_def mutex_inv_def)
  show ?thesis
  proof (cases "mtx s")
    case None
    show ?thesis
    proof (cases "\<forall>i < n. pat s i = PDone")
      case True
      then have "cat s \<notin> {CDone, CWaiting}" using not_waiting [OF assms(1)] assms(2) by (auto simp: cv_done_def)
      then show ?thesis using consumer_can [OF c] None by (blast intro: cv_step.consumer)
    next
      case False
      then show ?thesis using producer_can None by (blast intro: cv_step.producer)
    qed
  next
    case (Some th)
    show ?thesis
    proof (cases th)
      case (Producer i)
      then have "pat s i \<in> {PPush, PUnlock}" using m(1) [of i] Some by simp
      moreover from this have "i < n" using m(3) [of i] by (cases "i < n") auto
      ultimately show ?thesis using producer_can [of s i] cv_step.producer [of i n s] by fastforce
    next
      case Consumer
      then have "cat s \<in> {CEmpty, CPop, CUnlock}" using m(2) Some by simp
      then show ?thesis using consumer_can [OF c] cv_step.consumer [of s _ n] by fastforce
    qed
  qed
qed

section \<open>Properties\<close>

text \<open>C40: Whatever the interleaving and the spurious wake-ups, the consumer prints the numbers in the order in which they
  were produced. Until all threads are done one of them can go on, without a spurious wake-up, and every such step reduces
  the work left; at the end every number below \<open>gcount\<close> has been produced and consumed exactly once.\<close>

theorem cv_delivers_all:
  assumes "reach (cv_start n) (cv_any n) s"
  shows "(\<exists>rest. produced (lines s) = consumed (lines s) @ rest) \<and>
    (\<not> cv_done n s \<longrightarrow> (\<exists>t. cv_step n s t)) \<and> (\<forall>t. cv_step n s t \<longrightarrow> cv_work n t < cv_work n s) \<and>
    (cv_done n s \<longrightarrow> consumed (lines s) = produced (lines s) \<and> distinct (consumed (lines s)) \<and> set (consumed (lines s)) = {..<n})"
proof -
  have inv: "cv_inv n s" using assms by (rule cvq.reach_inv)
  then have q: "produced (lines s) = consumed (lines s) @ gqueue s" "distinct (consumed (lines s) @ gqueue s)"
    "set (consumed (lines s) @ gqueue s) = pushed (pat s)" by (simp_all add: cv_inv_def queue_inv_def)
  have "gqueue s = [] \<and> set (consumed (lines s)) = {..<n}" if "cv_done n s"
  proof -
    have "pat s i = PLock" if "n \<le> i" for i using inv that by (simp add: cv_inv_def mutex_inv_def)
    then have "i \<in> pushed (pat s) \<longleftrightarrow> i < n" for i using \<open>cv_done n s\<close> by (cases "i < n") (auto simp: pushed_iff cv_done_def)
    then have all: "pushed (pat s) = {..<n}" by auto
    then have "length (consumed (lines s) @ gqueue s) = n" using q(2,3) by (metis card_lessThan distinct_card)
    moreover have "length (consumed (lines s)) = n" using inv that by (simp add: cv_inv_def count_inv_def cv_done_def)
    ultimately show ?thesis using q(3) all by simp
  qed
  then show ?thesis using q cv_progress [OF inv] cv_work_decreases [OF inv] by auto
qed

theorem cv_delivers_all_witness:
  "\<exists>s. reach (cv_start 10) (cv_any 10) s \<and> cv_done 10 s \<and> set (consumed (lines s)) = {..<10}"
proof -
  have "\<exists>t. reach (cv_start 10) (cv_any 10) t \<and> cv_done 10 t" if "reach (cv_start 10) (cv_any 10) s" for s
    using that
  proof (induction "cv_work 10 s" arbitrary: s rule: less_induct)
    case less
    then show ?case using cv_delivers_all [OF less.prems] reach_step [OF less.prems] cv_any.proper by blast
  qed
  moreover have "\<exists>s. reach (cv_start 10) (cv_any 10) s" by (rule exI, rule reach_init) (simp add: cv_start_def)
  ultimately obtain s where s: "reach (cv_start 10) (cv_any 10) s" "cv_done 10 s" by blast
  then show ?thesis using cv_delivers_all [OF s(1)] by blast
qed

end
