(* ===== verification/SockPair.thy ===== *)
theory SockPair
  imports Prelude
begin

text \<open>
  \<^verbatim>\<open>trivials/sockpair_trivial.cpp\<close>: a parent starts workers, each with a socket pair, and wants to pass the parent's end
  of a new pair to the workers started before. A socket is the queue of the messages sent to its peer, keyed
  by the parent's end; a message has its bytes and possibly a descriptor. The loops that exchange greetings
  consist of system calls only; of them the first greeting of the parent matters here.
\<close>

record msg =
  data :: bytes
  rights :: "int option"

type_synonym socks = "int \<Rightarrow> msg list"

text \<open>The descriptor to pass is also the one the message is sent on.\<close>

definition send_fd :: "int \<Rightarrow> int \<Rightarrow> socks \<Rightarrow> socks" where
  "send_fd sock fd q = q(fd := q fd @ [\<lparr>data = lit ''0'', rights = Some fd\<rparr>])"

text \<open>The next message, of which 32 bytes are taken; without a descriptor the result is what the control buffer held
  (\<open>u\<close>). \<open>WouldBlock\<close> when there is no message. A descriptor that arrives has the number \<open>dup\<close>
  gives it. (Messages without a descriptor could arrive joined; no more than one is in a queue here.)\<close>

definition recv_fd :: "(int \<Rightarrow> int) \<Rightarrow> int \<Rightarrow> msg list \<Rightarrow> (int \<times> msg list) res" where
  "recv_fd dup u ms = (case ms of
     [] \<Rightarrow> Inl WouldBlock
   | m # rest \<Rightarrow> Inr (case rights m of Some fd \<Rightarrow> dup fd | None \<Rightarrow> u,
       if length (data m) \<le> 32 then rest else \<lparr>data = drop 32 (data m), rights = None\<rparr> # rest))"

text \<open>The parent after the fork of worker \<open>i\<close>, whose pair has the end \<open>fd\<close>.\<close>

definition parent_round :: "int \<Rightarrow> int list \<times> socks \<Rightarrow> int list \<times> socks" where
  "parent_round fd st = (case st of (workChnel, q) \<Rightarrow>
     (workChnel @ [fd], fold (\<lambda>j. send_fd ((workChnel @ [fd]) ! j) fd) [0..<length workChnel] q))"

definition start_workers :: "int list \<Rightarrow> int list \<times> socks" where
  "start_workers fds = fold parent_round fds ([], \<lambda>_. [])"

text \<open>The parent's first greeting on a channel.\<close>

definition greet :: "bytes \<Rightarrow> int \<Rightarrow> socks \<Rightarrow> socks" where
  "greet pid fd q = q(fd := q fd @ [\<lparr>data = lit ''Hello from parent process '' @ pid, rights = None\<rparr>])"

text \<open>Worker \<open>index\<close> of \<open>cnt\<close> receives the ends of the workers after it.\<close>

fun recv_brothers :: "(int \<Rightarrow> int) \<Rightarrow> int \<Rightarrow> nat \<Rightarrow> msg list \<Rightarrow> (int list \<times> msg list) res" where
  "recv_brothers dup u 0 ms = Inr ([], ms)"
| "recv_brothers dup u (Suc m) ms = rbind (recv_fd dup u ms) (\<lambda>(t, ms').
     rbind (recv_brothers dup u m ms') (\<lambda>(ts, ms''). Inr (t # ts, ms'')))"

definition worker_start :: "(int \<Rightarrow> int) \<Rightarrow> int \<Rightarrow> nat \<Rightarrow> nat \<Rightarrow> msg list \<Rightarrow> (int list \<times> msg list) res" where
  "worker_start dup u cnt index ms = recv_brothers dup u (cnt - Suc index) ms"

section \<open>What the workers get\<close>

lemma fold_send: "fold (\<lambda>j. send_fd (f j) fd) js q =
  q(fd := q fd @ replicate (length js) \<lparr>data = lit ''0'', rights = Some fd\<rparr>)"
  by (induction js arbitrary: q) (simp_all add: send_fd_def)

lemma parent_round_eq: "parent_round fd (ws, q) =
  (ws @ [fd], q(fd := q fd @ replicate (length ws) \<lparr>data = lit ''0'', rights = Some fd\<rparr>))"
  unfolding parent_round_def prod.case fold_send by simp

lemma start_workers_fold:
  assumes "distinct (ws @ fds)" "\<forall>fd \<in> set fds. q fd = []"
  shows "fst (fold parent_round fds (ws, q)) = ws @ fds \<and>
    (\<forall>i < length fds. snd (fold parent_round fds (ws, q)) (fds ! i) = replicate (length ws + i) \<lparr>data = lit ''0'', rights = Some (fds ! i)\<rparr>) \<and>
    (\<forall>fd. fd \<notin> set fds \<longrightarrow> snd (fold parent_round fds (ws, q)) fd = q fd)"
  using assms
proof (induction fds arbitrary: ws q)
  case (Cons fd fds)
  define q' where "q' = q(fd := q fd @ replicate (length ws) \<lparr>data = lit ''0'', rights = Some fd\<rparr>)"
  have "distinct ((ws @ [fd]) @ fds)" "\<forall>f \<in> set fds. q' f = []" using Cons.prems by (auto simp: q'_def)
  note ih = Cons.IH [OF this]
  have eq: "fold parent_round (fd # fds) (ws, q) = fold parent_round fds (ws @ [fd], q')" by (simp add: parent_round_eq q'_def)
  have nf: "fd \<notin> set fds" "q fd = []" using Cons.prems by auto
  have q': "q' fd = replicate (length ws) \<lparr>data = lit ''0'', rights = Some fd\<rparr>" "f \<noteq> fd \<Longrightarrow> q' f = q f" for f
    using nf(2) by (simp_all add: q'_def)
  have "snd (fold parent_round fds (ws @ [fd], q')) ((fd # fds) ! i) =
      replicate (length ws + i) \<lparr>data = lit ''0'', rights = Some ((fd # fds) ! i)\<rparr>" if "i < length (fd # fds)" for i
    using ih nf(1) that q' by (cases i) simp_all
  moreover have "snd (fold parent_round fds (ws @ [fd], q')) f = q f" if "f \<notin> set (fd # fds)" for f
    using ih that q'(2) by simp
  ultimately show ?case unfolding eq using ih by simp
qed simp

text \<open>Every worker has messages with its own parent's end, as many as there are workers before it, and none with the end
  of another worker.\<close>

theorem workers_get_own_end:
  assumes "distinct fds" "i < length fds"
  shows "snd (start_workers fds) (fds ! i) = replicate i \<lparr>data = lit ''0'', rights = Some (fds ! i)\<rparr>"
  using start_workers_fold [of "[]" fds "\<lambda>_. []"] assms by (simp add: start_workers_def)

text \<open>With the two workers of the program, the first one waits for a descriptor, and takes the parent's greeting for the
  message that carries it.\<close>

theorem first_worker_gets_garbage:
  assumes "f0 \<noteq> f1"
  shows "worker_start dup u 2 0 (snd (start_workers [f0, f1]) f0) = Inl WouldBlock"
    "length pid \<le> 6 \<Longrightarrow> worker_start dup u 2 0 (greet pid f0 (snd (start_workers [f0, f1])) f0) = Inr ([u], [])"
proof -
  have q: "snd (start_workers [f0, f1]) f0 = []" using workers_get_own_end [of "[f0, f1]" 0] assms by simp
  have n: "length (lit ''Hello from parent process '') = 26" by code_simp
  show "worker_start dup u 2 0 (snd (start_workers [f0, f1]) f0) = Inl WouldBlock"
    by (simp add: q worker_start_def recv_fd_def numeral_eq_Suc)
  show "length pid \<le> 6 \<Longrightarrow> worker_start dup u 2 0 (greet pid f0 (snd (start_workers [f0, f1])) f0) = Inr ([u], [])"
    using n by (simp add: q greet_def worker_start_def recv_fd_def numeral_eq_Suc)
qed

end
