(* ===== verification/SolWire.thy ===== *)
theory SolWire
  imports SolServer
begin

text \<open>
  The client of \<^verbatim>\<open>SolcomApi.cpp\<close> and the server of \<^verbatim>\<open>SolConnServer.cpp\<close> over one connection: what users post travels
  through the ring of the client, the byte stream, the receive machine and the tasks of the server, and the
  answers travel back to the SPI.
\<close>

section \<open>What a client queues\<close>

type_synonym message = "ISerializable \<times> i32 \<times> EPkgReqRtnType"

abbreviation image :: "message \<Rightarrow> bytes" where
  "image \<equiv> \<lambda>(y, r, q). package_image y r q"

text \<open>The messages an event may add to the ring: a post its command, the idle callback a heart beat.\<close>

fun offers :: "api_event \<Rightarrow> message list list" where
  "offers (EvPost m r q) = [[], [(m, r, q)]]"
| "offers EvIdle = [[], [(new_HeartbeatCommand, 0, Type_Req)]]"
| "offers _ = [[]]"

definition may_queue :: "(int \<times> api_event) list \<Rightarrow> message list \<Rightarrow> bool" where
  "may_queue evs ms \<longleftrightarrow> (\<exists>mss. list_all2 (\<lambda>p ms. ms \<in> set (offers (snd p))) evs mss \<and> ms = concat mss)"

lemma may_queue_Nil: "may_queue [] []"
  by (simp add: may_queue_def)

lemma may_queue_Cons: "ms \<in> set (offers ev) \<Longrightarrow> may_queue evs ms' \<Longrightarrow> may_queue ((now, ev) # evs) (ms @ ms')"
  unfolding may_queue_def by (metis (no_types, lifting) concat.simps(2) list_all2_Cons snd_conv)

lemma postMsg_queues:
  assumes "send_inv s" "obj_ok m" "postMsg g m r q s = Inr (rc, t, e)"
  shows "queuings e = [] \<or> queuings e = [package_image m r q]"
proof -
  obtain rc' s' e' where "postMsg g m r q s = Inr (rc', s', e')"
    "rc' = ERR_SUCCESS \<Longrightarrow> e' = [Queued (package_image m r q)]" "rc' \<noteq> ERR_SUCCESS \<Longrightarrow> s' = s \<and> e' = []"
    using postMsg_spec [OF assms(1,2), of g r q] by metis
  then show ?thesis using assms(3) by (cases "rc' = ERR_SUCCESS") auto
qed

lemma idle_keepalive_queues:
  assumes "send_inv s" "idle_keepalive g now s = Inr (t, e)"
  shows "queuings e = [] \<or> queuings e = [package_image new_HeartbeatCommand 0 Type_Req]"
proof (cases "\<not> bStop s \<and> now - lastWrite s > MAX_WRITE_IDLE_INTERVAL")
  case True
  obtain rc s1 e1 where p: "postMsg g new_HeartbeatCommand 0 Type_Req s = Inr (rc, s1, e1)"
    using postMsg_spec [OF assms(1) new_Heartbeat_ok, of g 0 Type_Req] by metis
  then have "e = e1" using assms(2) True by (simp add: idle_keepalive_def sendHeartbeat_def MAX_IDLE_INTERVAL_def)
  then show ?thesis using postMsg_queues [OF assms(1) new_Heartbeat_ok p] by simp
next
  case False
  then show ?thesis using assms(2) by (auto simp: idle_keepalive_def MAX_IDLE_INTERVAL_def MAX_WRITE_IDLE_INTERVAL_def split: if_splits)
qed

lemma idle_cb_queues:
  assumes "send_inv s" "idle_cb g now s = Inr (t, e)"
  shows "queuings e = [] \<or> queuings e = [package_image new_HeartbeatCommand 0 Type_Req]"
proof (cases "bConnected s")
  case False
  then show ?thesis using assms(2) by (auto simp: idle_cb_def closeConnection_def split: if_splits)
next
  case True
  obtain s1 e1 where w: "idle_write s = (s1, e1)" by fastforce
  have ws: "send_inv s1" "queuings e1 = []" using idle_write_spec [OF assms(1) w] by blast+
  obtain s2 e2 where k: "idle_keepalive g now s1 = Inr (s2, e2)" using idle_keepalive_spec [OF ws(1), of g now] by metis
  have "queuings e = queuings e2"
    using assms(2) True w k ws(2) by (auto simp: idle_cb_def Let_def closeConnection_def split: if_splits)
  then show ?thesis using idle_keepalive_queues [OF ws(1) k] by simp
qed

lemma handle_queues:
  assumes "client_inv s" "ev_ok s ev" "api_handle g now ev s = Inr (t, e)"
  shows "\<exists>ms \<in> set (offers ev). queuings e = map image ms"
proof -
  have inv: "send_inv s" using assms(1) by (simp add: client_inv_def)
  show ?thesis
  proof (cases ev)
    case (EvPost m r q)
    then show ?thesis using postMsg_queues [OF inv, of m g r q] assms(2,3) by (auto simp: rbind_Inr)
  next
    case EvIdle
    then show ?thesis using idle_cb_queues [OF inv, of g now t e] assms(3) by auto
  next
    case (EvWritten st)
    then show ?thesis using req_write_cb_spec [OF inv, of st now t e] assms(2,3) by auto
  next
    case (EvRead d)
    then show ?thesis using deliver_frame [of g d now s t e] assms(3) by simp
  next
    case (EvReadError n)
    then show ?thesis using read_cb_frame [of g n now s t e] assms(3) by simp
  qed (use assms(3) in \<open>auto simp: connect_cb_def arm_reconnect_def reconn_timer_cb_def init_timer_cb_def connectServer_def
      rbind_Inr split: if_splits\<close>)
qed

lemma run_queues:
  assumes "client_inv s" "run_ok g evs s" "api_run g evs s = Inr (t, e)"
  shows "\<exists>ms. may_queue evs ms \<and> queuings e = map image ms"
  using assms
proof (induction evs arbitrary: s e)
  case Nil
  then show ?case using may_queue_Nil by auto
next
  case (Cons p evs)
  obtain now ev where p: "p = (now, ev)" by fastforce
  obtain s1 e1 e2 where h: "api_handle g now ev s = Inr (s1, e1)" "api_run g evs s1 = Inr (t, e2)" "e = e1 @ e2"
    using Cons.prems(3) p by (auto simp: rbind_Inr)
  have ok: "ev_ok s ev" "run_ok g evs s1" using Cons.prems(2) p h(1) by simp_all
  obtain ms where ms: "ms \<in> set (offers ev)" "queuings e1 = map image ms" using handle_queues [OF Cons.prems(1) ok(1) h(1)] by blast
  obtain ms' where ms': "may_queue evs ms'" "queuings e2 = map image ms'"
    using Cons.IH [OF api_handle_inv(1) [OF Cons.prems(1) ok(1) h(1)] ok(2) h(2)] by blast
  have "queuings e = map image (ms @ ms')" by (simp add: h(3) ms(2) ms'(2))
  with may_queue_Cons [OF ms(1) ms'(1), of now] show ?case unfolding p by blast
qed

text \<open>All of it has the layout of its class.\<close>

lemma may_queue_ok:
  assumes "may_queue evs ms" "\<forall>(_, ev) \<in> set evs. \<forall>m r q. ev = EvPost m r q \<longrightarrow> obj_ok m"
  shows "\<forall>(y, _, _) \<in> set ms. obj_ok y"
proof -
  obtain mss where mss: "list_all2 (\<lambda>p ms. ms \<in> set (offers (snd p))) evs mss" "ms = concat mss"
    using assms(1) by (auto simp: may_queue_def)
  from mss(1) assms(2) have "\<forall>ms \<in> set mss. \<forall>(y, _, _) \<in> set ms. obj_ok y"
  proof (induction rule: list_all2_induct)
    case (Cons p evs ms mss)
    have "\<forall>(y, _, _) \<in> set ms. obj_ok y" using Cons.hyps(1) Cons.prems by (cases p; cases "snd p") auto
    then show ?case using Cons.IH Cons.prems by auto
  qed simp
  then show ?thesis using mss(2) by auto
qed

lemma run_posts_ok:
  "run_ok g evs s \<Longrightarrow> api_run g evs s = Inr (t, e) \<Longrightarrow> \<forall>(_, ev) \<in> set evs. \<forall>m r q. ev = EvPost m r q \<longrightarrow> obj_ok m"
proof (induction evs arbitrary: s e)
  case (Cons p evs)
  obtain now ev where p: "p = (now, ev)" by fastforce
  obtain s1 e1 e2 where h: "api_handle g now ev s = Inr (s1, e1)" "api_run g evs s1 = Inr (t, e2)"
    using Cons.prems(2) p by (auto simp: rbind_Inr)
  show ?case using Cons.IH [OF _ h(2)] Cons.prems(1) p h(1) by auto
qed simp

section \<open>A client that only sends keeps its receive machine\<close>

definition sends :: "api_event \<Rightarrow> bool" where
  "sends ev \<longleftrightarrow> (\<exists>m r q. ev = EvPost m r q) \<or> ev = EvIdle \<or> (\<exists>st. ev = EvWritten st)"

definition same_side :: "SolcomApi \<Rightarrow> SolcomApi \<Rightarrow> bool" where
  "same_side s t \<longleftrightarrow> same_recv s t \<and> solcomSpi t = solcomSpi s \<and> serializeObjCache t = serializeObjCache s"

lemma same_side_refl: "same_side s s"
  by (simp add: same_side_def same_recv_def)

lemma same_side_trans: "same_side s t \<Longrightarrow> same_side t u \<Longrightarrow> same_side s u"
  by (simp add: same_side_def same_recv_def)

lemma postMsg_side: "postMsg g m r q s = Inr (rc, t, e) \<Longrightarrow> same_side s t"
  by (auto simp: postMsg_def same_side_def same_recv_def rbind_Inr split: if_splits option.splits)

lemma idle_cb_side:
  assumes "idle_cb g now s = Inr (t, e)" shows "same_side s t"
proof -
  have w: "same_side s s1" if "idle_write s = (s1, e1)" for s1 e1
    using that by (auto simp: idle_write_def same_side_def same_recv_def Let_def split: if_splits option.splits)
  have c: "same_side a a1" if "closeConnection a = (a1, e1)" for a a1 e1
    using that by (auto simp: closeConnection_def same_side_def same_recv_def)
  have hb: "same_side a (a1\<lparr>lastWrite := x\<rparr>)" if "sendHeartbeat g a = Inr (a1, e1)" for a a1 e1 x
    using that by (auto simp: sendHeartbeat_def rbind_Inr same_side_def same_recv_def dest!: postMsg_side)
  have k: "same_side a b" if "idle_keepalive g now a = Inr (b, e1)" for a b e1
    using that by (auto simp: idle_keepalive_def rbind_Inr split: if_splits prod.splits
        dest!: hb c intro: same_side_refl same_side_trans)
  show ?thesis using assms
    by (auto simp: idle_cb_def rbind_Inr Let_def split: if_splits prod.splits dest!: w k c intro: same_side_refl same_side_trans)
qed

lemma handle_side: "sends ev \<Longrightarrow> api_handle g now ev s = Inr (t, e) \<Longrightarrow> same_side s t"
  by (auto simp: sends_def rbind_Inr req_write_cb_def closeConnection_def same_side_def same_recv_def Let_def
      split: if_splits dest!: postMsg_side idle_cb_side)

lemma run_side: "\<forall>(_, ev) \<in> set evs. sends ev \<Longrightarrow> api_run g evs s = Inr (t, e) \<Longrightarrow> same_side s t"
proof (induction evs arbitrary: s e)
  case Nil
  then show ?case by (simp add: same_side_refl)
next
  case (Cons p evs)
  obtain now ev where p: "p = (now, ev)" by fastforce
  obtain s1 e1 e2 where h: "api_handle g now ev s = Inr (s1, e1)" "api_run g evs s1 = Inr (t, e2)"
    using Cons.prems(2) p by (auto simp: rbind_Inr)
  then show ?case using Cons.IH [OF _ h(2)] Cons.prems(1) p handle_side [OF _ h(1)] same_side_trans by auto
qed

lemma same_side_mid: "same_side s t \<Longrightarrow> mid s [] [] \<Longrightarrow> mid t [] []" "same_side s t \<Longrightarrow> cache_ok s \<Longrightarrow> cache_ok t"
  by (simp_all add: same_side_def same_recv_def mid_def recv_inv_def cache_ok_def Let_def)

section \<open>The tasks of a connection\<close>

lemma conn_read_frame:
  "conn_read g tst i n c = Inr (c', ts) \<Longrightarrow> same_conn c c' \<and> (\<forall>t \<in> set ts. t_client t = i)"
  by (auto simp: conn_read_def same_conn_def rbind_Inr Let_def split: if_splits option.splits prod.splits)

definition grown :: "nat \<Rightarrow> SolConnServer \<Rightarrow> SolConnServer \<Rightarrow> bool" where
  "grown i s s' \<longleftrightarrow> (\<forall>c. heap s i = Some c \<longrightarrow> (\<exists>c' ts. s' = put i c' (s\<lparr>works := works s @ ts\<rparr>) \<and> same_conn c c' \<and>
     (\<forall>t \<in> set ts. t_client t = i)))"

lemma grownI: "heap s i = Some c \<Longrightarrow> same_conn c c' \<Longrightarrow> \<forall>t \<in> set ts. t_client t = i \<Longrightarrow> grown i s (put i c' (s\<lparr>works := works s @ ts\<rparr>))"
  unfolding grown_def by auto

lemma grown_trans:
  assumes "grown i s s1" "grown i s1 s2" "heap s i = Some c" shows "grown i s s2"
proof -
  obtain c1 ts where 1: "s1 = put i c1 (s\<lparr>works := works s @ ts\<rparr>)" "same_conn c c1" "\<forall>t \<in> set ts. t_client t = i"
    using assms(1,3) by (auto simp: grown_def)
  have "heap s1 i = Some c1" by (simp add: 1(1) put_def)
  then obtain c2 us where 2: "s2 = put i c2 (s1\<lparr>works := works s1 @ us\<rparr>)" "same_conn c1 c2" "\<forall>t \<in> set us. t_client t = i"
    using assms(2) by (auto simp: grown_def)
  have "s2 = put i c2 (s\<lparr>works := works s @ (ts @ us)\<rparr>)" by (simp add: 2(1) 1(1) put_def)
  moreover have "same_conn c c2" using 1(2) 2(2) by (simp add: same_conn_def)
  ultimately show ?thesis using grownI [OF assms(3), of c2 "ts @ us"] 1(3) 2(3) by auto
qed

lemma srv_deliver_grown:
  assumes "heap s i = Some c" "srv_deliver g tst i d now s = Inr (s', e)" shows "grown i s s'"
proof -
  obtain m where m: "srv_read_cb g tst i (int (length d)) now (put i (c\<lparr>c_recvBuffer := (c_recvBuffer c)\<lparr>pCharArr := m\<rparr>\<rparr>) s) = Inr (s', e)"
    using assms by (auto simp: srv_deliver_def deref_def rbind_Inr)
  let ?c = "c\<lparr>c_recvBuffer := (c_recvBuffer c)\<lparr>pCharArr := m\<rparr>\<rparr>"
  show ?thesis
  proof (cases "d = []")
    case True
    then have "s' = put i (?c\<lparr>c_lastRead := now\<rparr>) (s\<lparr>works := works s @ []\<rparr>)"
      using m by (simp add: srv_read_cb_def deref_def put_def)
    then show ?thesis using grownI [OF assms(1), of "?c\<lparr>c_lastRead := now\<rparr>" "[]"] by (simp add: same_conn_def)
  next
    case False
    then obtain c1 ts where c1: "conn_read g tst i (int (length d)) ?c = Inr (c1, ts)"
      "s' = put i (c1\<lparr>c_lastRead := now\<rparr>) (s\<lparr>works := works s @ ts\<rparr>)"
      using m by (auto simp: srv_read_cb_def deref_def put_def rbind_Inr)
    then show ?thesis using grownI [OF assms(1), of "c1\<lparr>c_lastRead := now\<rparr>" ts] conn_read_frame [OF c1(1)]
      by (simp add: same_conn_def)
  qed
qed

lemma srv_stream_grown:
  "heap s i = Some c \<Longrightarrow> srv_stream g tst i ks bs now s = Inr (rest, s', e) \<Longrightarrow> grown i s s'"
proof (induction ks arbitrary: s c bs e)
  case Nil
  then have "s' = put i c (s\<lparr>works := works s @ []\<rparr>)" by (simp add: put_def fun_upd_idem)
  then show ?case using grownI [OF Nil.prems(1), of c "[]"] by (simp add: same_conn_def)
next
  case (Cons k ks)
  obtain d s1 e1 e2 bs2 where h: "srv_deliver g tst i d now s = Inr (s1, e1)" "srv_stream g tst i ks bs2 now s1 = Inr (rest, s', e2)"
    using Cons.prems by (auto simp: deref_def rbind_Inr Let_def)
  have g1: "grown i s s1" by (rule srv_deliver_grown [OF Cons.prems(1) h(1)])
  then obtain c1 where "heap s1 i = Some c1" using Cons.prems(1) by (auto simp: grown_def put_def)
  from Cons.IH [OF this h(2)] show ?case using grown_trans [OF g1 _ Cons.prems(1)] by blast
qed

section \<open>The answers\<close>

definition answer :: "ISerializable \<Rightarrow> ISerializable \<Rightarrow> ISerializable" where
  "answer tst cmd = (if nType cmd = TypeReq_Heartbeat then new_HeartbeatCommand else tst)"

lemma answer_ok: "obj_ok tst \<Longrightarrow> obj_ok (answer tst cmd)"
  by (simp add: answer_def)

text \<open>A worker handles the oldest task, the loop writes the answer, and the write completes.\<close>

definition answer_events :: "nat \<Rightarrow> int \<Rightarrow> ISerializable \<Rightarrow> (int \<times> srv_event) list" where
  "answer_events i now tst = [(now, SvWork tst), (now, SvIdle), (now, SvWritten i 0)]"

text \<open>The server is idle but for its tasks, and the connection can take an answer.\<close>

definition ready :: "nat \<Rightarrow> SolConnServer \<Rightarrow> bool" where
  "ready i s \<longleftrightarrow> srv_inv s \<and> \<not> s_bStop s \<and> listWevent s = [] \<and> listWeventBck s = [] \<and>
     (\<exists>c. heap s i = Some c \<and> c_bConnected c \<and> c_data c \<and> \<not> snd (reqBuffer c))"

lemma work_posts_answer:
  assumes "ready i s" "works s = t # ts" "t_client t = i" "obj_ok (t_cmd t)" "obj_ok tst"
  obtains b c where "heap s i = Some c" "c_bConnected c" "c_data c"
    "work_cb g (flag_now s) tst s =
      Inr (put i (c\<lparr>reqBuffer := (b, True)\<rparr>) (s\<lparr>works := ts, listWevent := [i]\<rparr>), [SrvPrint (t_cmd t)])"
    "take (nat (RightPos b)) (pCharArr b) = package_image (answer tst (t_cmd t)) 0 Type_Req"
proof -
  obtain c where c: "heap s i = Some c" "c_bConnected c" "c_data c" "\<not> snd (reqBuffer c)" and inv: "srv_inv s"
    and st: "\<not> s_bStop s" "listWevent s = []" using assms(1) by (auto simp: ready_def)
  let ?s = "s\<lparr>works := ts\<rparr>" and ?m = "answer tst (t_cmd t)"
  have f: "\<not> flag_now s 0" using c assms(2,3) by (simp add: flag_now_def)
  obtain b s1 where b: "conn_postMsg g (flag_now s) i ?m 1 0 Type_Req ?s = Inr (0, s1)"
    "s1 = put i (c\<lparr>reqBuffer := (b, True)\<rparr>) (?s\<lparr>listWevent := listWevent ?s @ [i]\<rparr>)"
    "ba_wf b" "nLeft b = 0" "content b = package_image ?m 0 Type_Req"
  proof -
    have "srv_inv ?s" "heap ?s i = Some c" "obj_ok ?m" "\<not> s_bStop ?s" using inv c(1) answer_ok [OF assms(5)] st(1) by simp_all
    from conn_postMsg_spec [OF this(1,2,3) c(2,3) this(4) wait_req_free [of "flag_now s" 1, OF f] f, of g 0 Type_Req] show ?thesis using that by blast
  qed
  have "nType (t_cmd t) = TypeReq_Heartbeat \<or> nType (t_cmd t) = TypeReq_TestCmd" using assms(4) by (cases "t_cmd t") auto
  then have "work_cb g (flag_now s) tst s = Inr (s1, [SrvPrint (t_cmd t)])"
    using b(1) assms(2,3) by (auto simp: work_cb_def CmdHandle_def answer_def TypeReq_Heartbeat_def TypeReq_TestCmd_def split: if_splits)
  moreover have "take (nat (RightPos b)) (pCharArr b) = package_image ?m 0 Type_Req"
    using window_take [OF b(3,4)] b(5) by (simp add: RightPos_def)
  ultimately show ?thesis using that [OF c(1-3)] b(2) st(2) by simp
qed

lemma answer_round:
  assumes "ready i s" "works s = t # ts" "t_client t = i" "obj_ok (t_cmd t)" "obj_ok tst"
    and "same_class tst0 (TestCommand 0 [] 0 0)"
  shows "\<exists>s'. srv_run g tst0 (answer_events i now tst) s =
      Inr (s', [SrvPrint (t_cmd t), SrvWrite i (package_image (answer tst (t_cmd t)) 0 Type_Req)]) \<and> ready i s' \<and> works s' = ts"
proof -
  obtain b c where c: "heap s i = Some c" "c_bConnected c" "c_data c"
    "work_cb g (flag_now s) tst s =
      Inr (put i (c\<lparr>reqBuffer := (b, True)\<rparr>) (s\<lparr>works := ts, listWevent := [i]\<rparr>), [SrvPrint (t_cmd t)])"
    "take (nat (RightPos b)) (pCharArr b) = package_image (answer tst (t_cmd t)) 0 Type_Req"
    using work_posts_answer [OF assms(1-5)] .
  let ?s1 = "put i (c\<lparr>reqBuffer := (b, True)\<rparr>) (s\<lparr>works := ts, listWevent := [i]\<rparr>)"
  let ?s2 = "?s1\<lparr>listWevent := []\<rparr>"
  let ?s3 = "put i (c\<lparr>reqBuffer := (Init b, False), c_lastWrite := now\<rparr>) (s\<lparr>works := ts, listWevent := []\<rparr>)"
  have st: "srv_inv s" "\<not> s_bStop s" "listWevent s = []" "listWeventBck s = []" using assms(1) by (auto simp: ready_def)
  have h1: "srv_handle g tst0 now (SvWork tst) s = Inr (?s1, [SrvPrint (t_cmd t)])" using c(4) by simp
  have h2: "srv_handle g tst0 now SvIdle ?s1 = Inr (?s2, [SrvWrite i (package_image (answer tst (t_cmd t)) 0 Type_Req)])"
    using c(2,5) st by (simp add: srv_idle_cb_def writeHandle_def deref_def put_def)
  have h3: "srv_handle g tst0 now (SvWritten i 0) ?s2 = Inr (?s3, [])"
    by (simp add: srv_req_write_cb_def deref_def put_def)
  have i1: "srv_inv ?s1" using srv_handle_good [OF st(1) _ assms(6), of "SvWork tst" g now] assms(5) h1 by (simp add: srv_good_def)
  have i2: "srv_inv ?s2" using srv_handle_good [OF i1 _ assms(6), of SvIdle g now] h2 by (simp add: srv_good_def)
  have i3: "srv_inv ?s3" using srv_handle_good [OF i2 _ assms(6), of "SvWritten i 0" g now] h3 by (simp add: srv_good_def)
  have "srv_run g tst0 (answer_events i now tst) s =
      Inr (?s3, [SrvPrint (t_cmd t), SrvWrite i (package_image (answer tst (t_cmd t)) 0 Type_Req)])"
    unfolding answer_events_def srv_run.simps h1 h2 h3 rbind_simps prod.case by simp
  moreover have "ready i ?s3" "works ?s3 = ts" using i3 st c(2,3) by (simp_all add: ready_def put_def)
  ultimately show ?thesis by blast
qed

fun written :: "nat \<Rightarrow> srv_call list \<Rightarrow> bytes" where
  "written i [] = []"
| "written i (SrvWrite j d # es) = (if j = i then d else []) @ written i es"
| "written i (_ # es) = written i es"

lemma written_append [simp]: "written i (xs @ ys) = written i xs @ written i ys"
  by (induction i xs rule: written.induct) auto

lemma srv_run_append: "srv_run g tst xs s = Inr (s1, e1) \<Longrightarrow> srv_run g tst ys s1 = Inr (s2, e2) \<Longrightarrow> srv_run g tst (xs @ ys) s = Inr (s2, e1 @ e2)"
proof (induction xs arbitrary: s e1)
  case (Cons p xs)
  obtain now ev where p: "p = (now, ev)" by fastforce
  show ?case using Cons.prems Cons.IH unfolding p by (auto simp: rbind_Inr)
qed simp

text \<open>All tasks, one after the other; \<open>tsts\<close> are the commands that the workers construct.\<close>

lemma answer_all:
  assumes "same_class tst0 (TestCommand 0 [] 0 0)"
  shows "ready i s \<Longrightarrow> \<forall>t \<in> set (works s). t_client t = i \<and> obj_ok (t_cmd t) \<Longrightarrow> length tsts = length (works s) \<Longrightarrow>
    \<forall>t \<in> set tsts. obj_ok t \<Longrightarrow>
    \<exists>s' e. srv_run g tst0 (concat (map (answer_events i now) tsts)) s = Inr (s', e) \<and> ready i s' \<and> works s' = [] \<and>
      written i e = concat (map (\<lambda>(tst, t). package_image (answer tst (t_cmd t)) 0 Type_Req) (zip tsts (works s)))"
proof (induction tsts arbitrary: s)
  case (Cons tst tsts)
  then obtain t ts where w: "works s = t # ts" by (cases "works s") auto
  obtain s1 where s1: "srv_run g tst0 (answer_events i now tst) s =
      Inr (s1, [SrvPrint (t_cmd t), SrvWrite i (package_image (answer tst (t_cmd t)) 0 Type_Req)])" "ready i s1" "works s1 = ts"
    using answer_round [OF Cons.prems(1) w _ _ _ assms, of tst g now] Cons.prems(2,4) w by auto
  obtain s' e where s': "srv_run g tst0 (concat (map (answer_events i now) tsts)) s1 = Inr (s', e)" "ready i s'" "works s' = []"
      "written i e = concat (map (\<lambda>(tst, t). package_image (answer tst (t_cmd t)) 0 Type_Req) (zip tsts ts))"
    using Cons.IH [OF s1(2)] Cons.prems(2,3,4) w s1(3) by auto
  from srv_run_append [OF s1(1) s'(1)] show ?case using s'(2-4) w by auto
qed auto

section \<open>Properties\<close>

lemma fresh_connection:
  assumes "srv_inv s" "\<not> s_bStop s" "listWevent s = []" "listWeventBck s = []"
  shows "ready (nextId s) (fst (srv_connect_cb g 0 0 key t0 s))"
    "\<exists>c. heap (fst (srv_connect_cb g 0 0 key t0 s)) (nextId s) = Some c \<and> mid (as_api c) [] []"
    "works (fst (srv_connect_cb g 0 0 key t0 s)) = works s"
proof -
  let ?s = "fst (srv_connect_cb g 0 0 key t0 s)"
  let ?c = "(new_SolConnClient g)\<lparr>objKey := key, c_data := True, c_lastRead := t0, c_lastWrite := t0, c_bConnected := True\<rparr>"
  have h: "heap ?s (nextId s) = Some ?c" and w: "works ?s = works s" by (simp_all add: srv_connect_cb_def put_def Let_def)
  show "works ?s = works s" by (rule w)
  have "recv_inv (as_api ?c)" using new_conn_inv [of g] by (simp add: conn_inv_def as_api_def recv_inv_def)
  then show "\<exists>c. heap ?s (nextId s) = Some c \<and> mid (as_api c) [] []"
    using h by (simp add: mid_def as_api_def new_SolConnClient_def content_new)
  have "same_class (TestCommand 0 [] 0 0) (TestCommand 0 [] 0 0)" by simp
  from srv_handle_good [OF assms(1) _ this, of "SvConnect 0 0 key" g t0] have "srv_inv ?s"
    by (cases "srv_connect_cb g 0 0 key t0 s") (simp add: srv_good_def)
  then show "ready (nextId s) ?s"
    using assms h unfolding ready_def by (simp add: srv_connect_cb_def put_def Let_def new_SolConnClient_def)
qed

lemma grown_ready:
  assumes "grown i s s'" "ready i s" "srv_inv s'" shows "ready i s'"
  using assms unfolding ready_def grown_def by (auto simp: put_def same_conn_def)

lemma grown_inv:
  assumes "grown i s s'" "srv_inv s" "heap s i = Some c" "heap s' i = Some c'" "recv_inv (as_api c')"
  shows "srv_inv s'"
proof -
  obtain c1 ts where s': "s' = put i c1 (s\<lparr>works := works s @ ts\<rparr>)" "same_conn c c1" using assms(1,3) by (auto simp: grown_def)
  have "c1 = c'" using assms(4) by (simp add: s'(1) put_def)
  then have "conn_inv c1" using assms(2,3,5) s'(2) by (auto simp: conn_inv_def same_conn_def srv_inv_def)
  then show ?thesis using assms(2,3) unfolding s'(1) by (intro srv_inv_put) simp_all
qed

lemma client_sent:
  assumes "new_SolcomApi g (new_TestCommand g db r) = Inr s0" and "c0 = fst (connect_cb 0 (RegistSpi True s0))"
    and "\<forall>(_, ev) \<in> set evs. sends ev" and "run_ok g evs c0" and "api_run g evs c0 = Inr (c1, e)"
  obtains msgs rest where "may_queue evs (msgs @ rest)" "writes e = map image msgs" "unwritten c1 = map image rest"
    "\<forall>(y, _, _) \<in> set msgs. obj_ok y" "mid c1 [] []" "solcomSpi c1" "cache_ok c1"
proof -
  let ?tst = "new_TestCommand g db r"
  obtain a where a: "new_SolcomApi g ?tst = Inr a" "client_inv a" "queued a = []" "\<not> bReqWritereqBusy a" "recvStat a = Type_RecvHead"
    "serializeObjCache a = \<lparr>hbCmd = new_HeartbeatCommand, tstCmd = ?tst\<rparr>" using new_SolcomApi_spec [of g ?tst] by metis
  have s0: "s0 = a" using a(1) assms(1) by simp
  have ri: "recv_inv c0" unfolding assms(2)
    by (rule connect_cb_recv) (use a(2) in \<open>simp add: s0 client_inv_def RegistSpi_def recv_inv_def\<close>)
  have c0: "client_inv c0" "unwritten c0 = []" "mid c0 [] []" "solcomSpi c0" "cache_ok c0"
    using ri a by (simp_all add: assms(2) s0 client_inv_def send_inv_def unwritten_def queued_def mid_def connect_cb_def
        RegistSpi_def content_Init cache_ok_def new_HeartbeatCommand_def new_TestCommand_def)
  obtain ms where ms: "may_queue evs ms" "queuings e = map image ms" using run_queues [OF c0(1) assms(4,5)] by blast
  have fifo: "map image ms = writes e @ unwritten c1" using api_run_good [OF c0(1) assms(4,5)] c0(2) ms(2) by simp
  define msgs rest where "msgs = take (length (writes e)) ms" and "rest = drop (length (writes e)) ms"
  have mr: "ms = msgs @ rest" "writes e = map image msgs" "unwritten c1 = map image rest"
    using fifo by (simp_all add: msgs_def rest_def flip: take_map drop_map)
  have "\<forall>(y, _, _) \<in> set msgs. obj_ok y" using may_queue_ok [OF ms(1) run_posts_ok [OF assms(4,5)]] mr(1) by auto
  moreover have "mid c1 [] []" "solcomSpi c1" "cache_ok c1"
    using same_side_mid [OF run_side [OF assms(3,5)]] c0 run_side [OF assms(3,5)] by (auto simp: same_side_def)
  ultimately show thesis using that ms(1) mr by blast
qed

text \<open>Tasks of a fresh connection to an idle server.\<close>

lemma server_tasks:
  assumes "srv_inv s" "\<not> s_bStop s" "listWevent s = []" "listWeventBck s = []" "works s = []"
    and "same_class tst (TestCommand 0 [] 0 0)" "\<forall>(y, _, _) \<in> set msgs. obj_ok y" "length (concat (map image msgs)) \<le> length ks"
  obtains s1 where "srv_stream g tst (nextId s) ks (concat (map image msgs)) now (fst (srv_connect_cb g 0 0 key t0 s)) = Inr ([], s1, [])"
    "map t_cmd (works s1) = map fst msgs" "ready (nextId s) s1" "\<forall>t \<in> set (works s1). t_client t = nextId s \<and> obj_ok (t_cmd t)"
proof -
  let ?i = "nextId s" and ?s = "fst (srv_connect_cb g 0 0 key t0 s)"
  note fr = fresh_connection [OF assms(1-4), of g key t0]
  obtain c where c: "heap ?s ?i = Some c" "mid (as_api c) [] []" using fr(2) by blast
  obtain s1 c' where s1: "srv_stream g tst ?i ks (concat (map image msgs)) now ?s = Inr ([], s1, [])"
    "heap s1 ?i = Some c'" "mid (as_api c') [] []" "map t_cmd (works s1) = map fst msgs"
    using srv_stream_messages [OF c assms(6-8), of g now] fr(3) by (auto simp: assms(5))
  have g1: "grown ?i ?s s1" by (rule srv_stream_grown [OF c(1) s1(1)])
  have "ready ?i s1"
    using grown_ready [OF g1 fr(1) grown_inv [OF g1 _ c(1) s1(2)]] fr(1) s1(3) by (auto simp: ready_def mid_def)
  moreover have "t_client t = ?i \<and> obj_ok (t_cmd t)" if "t \<in> set (works s1)" for t
  proof -
    have "t_cmd t \<in> set (map fst msgs)" unfolding s1(4) [symmetric] using that by simp
    then show ?thesis using assms(7) g1 c(1) that by (auto simp: grown_def put_def fr(3) assms(5))
  qed
  ultimately show thesis using that s1(1,4) by blast
qed

text \<open>The answers, back at the client.\<close>

lemma answers_received:
  assumes "same_class tst0 (TestCommand 0 [] 0 0)" "ready i s" "\<forall>t \<in> set (works s). t_client t = i \<and> obj_ok (t_cmd t)"
    and "length tsts = length (works s)" "\<forall>t \<in> set tsts. obj_ok t" and "mid c [] []" "solcomSpi c" "cache_ok c"
  obtains s' f where "srv_run g tst0 (concat (map (answer_events i now) tsts)) s = Inr (s', f)"
    "\<And>ks. length (written i f) \<le> length ks \<Longrightarrow> \<exists>c'. uv_stream g ks (written i f) now c =
       Inr ([], c', concat (map spi_calls (map2 answer tsts (map t_cmd (works s)))))"
proof -
  obtain s' f where f: "srv_run g tst0 (concat (map (answer_events i now) tsts)) s = Inr (s', f)"
    "written i f = concat (map (\<lambda>(tst, t). package_image (answer tst (t_cmd t)) 0 Type_Req) (zip tsts (works s)))"
    using answer_all [OF assms(1-5), of g now] by blast
  define as where "as = map (\<lambda>y. (y, 0 :: i32, Type_Req)) (map2 answer tsts (map t_cmd (works s)))"
  have w: "written i f = concat (map image as)" unfolding f(2) as_def by (simp add: zip_map2 comp_def case_prod_unfold)
  have "\<forall>(y, _, _) \<in> set as. obj_ok y" using assms(5) by (auto simp: as_def dest!: set_zip_leftD intro: answer_ok)
  note uv_stream_messages [OF assms(6-8) this, of _ g now]
  moreover have "concat (map (\<lambda>(y, r, q). spi_calls y) as) = concat (map spi_calls (map2 answer tsts (map t_cmd (works s))))"
    by (simp add: as_def comp_def)
  ultimately show thesis using that [OF f(1)] unfolding w by metis
qed


lemma heartbeat_sent:
  obtains s0 c1 e where "new_SolcomApi g (new_TestCommand g db r) = Inr s0"
    "api_run g [(0, EvPost new_HeartbeatCommand 0 Type_Req), (0, EvIdle)] (fst (connect_cb 0 (RegistSpi True s0))) = Inr (c1, e)"
    "writes e = [package_image new_HeartbeatCommand 0 Type_Req]"
proof -
  obtain s0 where s0: "new_SolcomApi g (new_TestCommand g db r) = Inr s0" "client_inv s0" "queued s0 = []"
    "\<not> bReqWritereqBusy s0" using new_SolcomApi_spec [of g "new_TestCommand g db r"] by metis
  let ?c = "fst (connect_cb 0 (RegistSpi True s0))"
  have c: "send_inv ?c" "bConnected ?c" "queued ?c = []" "\<not> bReqWritereqBusy ?c"
    using s0 by (simp_all add: connect_cb_def RegistSpi_def send_inv_def client_inv_def queued_def)
  have "0 < capacity (sendCache ?c)" using c(1) capacity_pos by (auto simp: send_inv_def)
  then obtain s1 e1 where s1: "postMsg g new_HeartbeatCommand 0 Type_Req ?c = Inr (ERR_SUCCESS, s1, e1)" "send_inv s1"
    "s1 = ?c\<lparr>sendCache := sendCache s1\<rparr>" "e1 = [Queued (package_image new_HeartbeatCommand 0 Type_Req)]"
    "queued s1 = queued ?c @ queuings e1"
    using postMsg_spec [OF c(1) new_Heartbeat_ok, of g 0 Type_Req] c(2,3) by (metis length_0_conv)
  have f: "bConnected s1" "\<not> bReqWritereqBusy s1" by (subst s1(3), use c in simp)+
  have q: "queued s1 = [package_image new_HeartbeatCommand 0 Type_Req]" using s1(4,5) c(3) by simp
  obtain s2 e2 where s2: "idle_cb g 0 s1 = Inr (s2, e2)" "writes e2 = [package_image new_HeartbeatCommand 0 Type_Req]"
    using idle_cb_spec [OF s1(2), of g 0] f q by (metis list.distinct(1) list.sel(1))
  show thesis using that [OF s0(1), of s2 "e1 @ e2"] s1(1,4) s2 by simp
qed


end
