(* ===== verification/ShmRw.thy ===== *)
theory ShmRw
  imports Prelude
begin

text \<open>
  \<^verbatim>\<open>shmrw/shmWrite.cpp\<close> and \<^verbatim>\<open>shmrw/shmRead.cpp\<close>: a program that fills twenty records of a shared segment and one that
  prints the first ten and removes it. \<open>F\<close> says which system calls fail; the segment of 4096 bytes keeps its
  content between the programs.
\<close>

section \<open>The programs\<close>

datatype shm_call = Ftok | Shmget | Shmat | Shmdt | Shmctl

text \<open>Record \<open>i\<close> is \<open>char name[4]\<close> and \<open>int age\<close>; only the first byte of the name is stored.\<close>

definition put_people :: "nat \<Rightarrow> bytes \<Rightarrow> bytes res" where
  "put_people i seg =
     rbind (mem_write (8 * int i) [word_of_int (97 + int i)] seg) (\<lambda>seg.
     mem_write (8 * int i + 4) (enc_i32 (word_of_int (20 + int i))) seg)"

definition shmWrite :: "(shm_call \<Rightarrow> bool) \<Rightarrow> bytes \<Rightarrow> (int \<times> bytes) res" where
  "shmWrite F seg =
     (if F Ftok then Inr (1, seg) else if F Shmget then Inr (-1, seg) else if F Shmat then Inr (-1, seg)
      else rbind (rfold put_people [0..<20] seg) (\<lambda>seg. Inr (if F Shmdt then 1 else 0, seg)))"

text \<open>\<open>printf("%s")\<close> reads on to the next zero byte of the segment.\<close>

definition show_people :: "nat \<Rightarrow> bytes \<Rightarrow> (bytes \<times> i32) res" where
  "show_people i seg =
     rbind (c_string (drop (8 * i) seg)) (\<lambda>name.
     rbind (mem_read (8 * int i + 4) 4 seg) (\<lambda>age. Inr (name, dec_i32 age)))"

fun show_all :: "nat list \<Rightarrow> bytes \<Rightarrow> (bytes \<times> i32) list res" where
  "show_all [] seg = Inr []"
| "show_all (i # is) seg = rbind (show_people i seg) (\<lambda>x. rbind (show_all is seg) (\<lambda>xs. Inr (x # xs)))"

text \<open>The result, the lines, and whether the segment was removed.\<close>

definition shmRead :: "(shm_call \<Rightarrow> bool) \<Rightarrow> bytes \<Rightarrow> (int \<times> (bytes \<times> i32) list \<times> bool) res" where
  "shmRead F seg =
     (if F Ftok \<or> F Shmget \<or> F Shmat then Inr (-1, [], False)
      else rbind (show_all [0..<10] seg) (\<lambda>ls.
        if F Shmdt then Inr (-1, ls, False) else if F Shmctl then Inr (-1, ls, False) else Inr (0, ls, True)))"

section \<open>Lemmas\<close>

definition block :: "nat \<Rightarrow> bytes \<Rightarrow> bytes" where
  "block i seg = take 8 (drop (8 * i) seg)"

lemma block_here: "length p = 8 * i \<Longrightarrow> length r = 8 \<Longrightarrow> block i (p @ r @ q) = r"
  by (simp add: block_def)

lemma block_other:
  assumes "length p = 8 * i" "length r = 8" "length r' = 8" "j \<noteq> i"
  shows "block j (p @ r @ q) = block j (p @ r' @ q)"
proof (cases "j < i")
  case True
  then have "8 * j + 8 \<le> length p" using assms(1) by simp
  then show ?thesis by (simp add: block_def)
next
  case False
  then have "8 * i + 8 \<le> 8 * j" using assms(4) by simp
  then show ?thesis using assms(1-3) by (simp add: block_def)
qed

lemma record_split:
  assumes "8 * Suc i \<le> length seg"
  obtains p x b age q where "seg = p @ (x # b @ age) @ q" "length p = 8 * i" "length b = 3" "length age = 4"
proof -
  let ?r = "drop (8 * i) seg"
  have l: "8 \<le> length ?r" using assms by simp
  then obtain x t where x: "?r = x # t" by (cases ?r) auto
  have "t = take 3 t @ drop 3 t" "drop 3 t = take 4 (drop 3 t) @ drop 4 (drop 3 t)" by (simp_all only: append_take_drop_id)
  then have t: "t = take 3 t @ take 4 (drop 3 t) @ drop 4 (drop 3 t)" by metis
  have "seg = take (8 * i) seg @ x # t" using append_take_drop_id [of "8 * i" seg] x by simp
  then have "seg = take (8 * i) seg @ (x # take 3 t @ take 4 (drop 3 t)) @ drop 4 (drop 3 t)" using t by simp
  then show thesis by (rule that) (use l x assms in auto)
qed

definition entry :: "nat \<Rightarrow> bytes \<Rightarrow> bytes" where
  "entry i b = word_of_int (97 + int i) # b @ enc_i32 (word_of_int (20 + int i))"

lemma put_people_block:
  assumes "8 * Suc i \<le> length seg"
  shows "\<exists>seg'. put_people i seg = Inr seg' \<and> length seg' = length seg \<and>
    block i seg' = entry i (take 3 (tl (block i seg))) \<and> (\<forall>j. j \<noteq> i \<longrightarrow> block j seg' = block j seg)"
proof -
  obtain p x b age q where s: "seg = p @ (x # b @ age) @ q" "length p = 8 * i" "length b = 3" "length age = 4"
    using record_split [OF assms] .
  let ?s = "p @ entry i b @ q"
  have r: "length (entry i b) = 8" "length (x # b @ age) = 8" using s(3,4) by (simp_all add: entry_def)
  have "mem_write (8 * int i) [word_of_int (97 + int i)] seg = Inr (p @ (word_of_int (97 + int i) # b @ age) @ q)"
    using s by (simp add: mem_simps nat_mult_distrib)
  moreover have "mem_write (8 * int i + 4) (enc_i32 (word_of_int (20 + int i))) (p @ (word_of_int (97 + int i) # b @ age) @ q) = Inr ?s"
    using s(2-4) by (simp add: mem_simps entry_def nat_add_distrib nat_mult_distrib)
  ultimately have "put_people i seg = Inr ?s" by (simp add: put_people_def)
  moreover have "block i ?s = entry i (take 3 (tl (block i seg)))"
    using block_here [OF s(2) r(1)] block_here [OF s(2) r(2), of q] s(1,3) by simp
  ultimately show ?thesis using block_other [OF s(2) r, of _ q] s(1) r by auto
qed

lemma put_all:
  "8 * n \<le> length seg \<Longrightarrow> \<exists>seg'. rfold put_people [0..<n] seg = Inr seg' \<and> length seg' = length seg \<and>
    (\<forall>i < n. block i seg' = entry i (take 3 (tl (block i seg)))) \<and> (\<forall>i \<ge> n. block i seg' = block i seg)"
proof (induction n)
  case (Suc n)
  then obtain s1 where s1: "rfold put_people [0..<n] seg = Inr s1" "length s1 = length seg"
    "\<forall>i < n. block i s1 = entry i (take 3 (tl (block i seg)))" "\<forall>i \<ge> n. block i s1 = block i seg" by auto
  obtain s2 where s2: "put_people n s1 = Inr s2" "length s2 = length s1" "block n s2 = entry n (take 3 (tl (block n s1)))"
    "\<forall>j. j \<noteq> n \<longrightarrow> block j s2 = block j s1" using put_people_block [of n s1] Suc.prems s1(2) by auto
  have "rfold put_people [0..<Suc n] seg = Inr s2" using s1(1) s2(1) by (simp add: rfold_append)
  then show ?case using s1 s2 by (auto simp: less_Suc_eq)
qed simp

lemma show_people_entry:
  assumes "8 * Suc i \<le> length seg" "block i seg = entry i (0 # b)" "length b = 2" "i < 20"
  shows "show_people i seg = Inr ([word_of_int (97 + int i)], word_of_int (20 + int i))"
proof -
  obtain p x c age q where s: "seg = p @ (x # c @ age) @ q" "length p = 8 * i" "length c = 3" "length age = 4"
    using record_split [OF assms(1)] .
  have "x # c @ age = entry i (0 # b)" using block_here [OF s(2), of "x # c @ age" q] s assms(2) by simp
  then have seg: "seg = p @ entry i (0 # b) @ q" using s(1) by simp
  have nz: "word_of_int (97 + int i) \<noteq> (0 :: byte)"
  proof
    assume "word_of_int (97 + int i) = (0 :: byte)"
    then have "uint (word_of_int (97 + int i) :: byte) = 0" by (simp only: unsigned_0)
    then have "(97 + int i) mod 256 = 0" unfolding uint_word_of_int by simp
    then show False using assms(4) by simp
  qed
  have "c_string (drop (8 * i) seg) = Inr [word_of_int (97 + int i)]"
    using s(2) nz by (simp add: seg entry_def c_string_def cstr_def)
  moreover have "mem_read (8 * int i + 4) 4 seg = Inr (enc_i32 (word_of_int (20 + int i)))"
    using s(2) assms(3) by (simp add: seg mem_simps entry_def nat_add_distrib nat_mult_distrib)
  ultimately show ?thesis by (simp add: show_people_def)
qed

lemma show_all_map: "\<forall>i \<in> set is. show_people i seg = Inr (f i) \<Longrightarrow> show_all is seg = Inr (map f is)"
  by (induction "is") simp_all

section \<open>Properties\<close>

text \<open>When the segment is new, or at least the second byte of every name is zero, the reader prints the letters and
  ages that the writer stored, and removes the segment.\<close>

theorem people_roundtrip:
  assumes "length seg = 4096" "\<forall>i < 10. seg ! (8 * i + 1) = 0" "\<And>c. \<not> F c"
  shows "\<exists>seg'. shmWrite F seg = Inr (0, seg') \<and>
    shmRead F seg' = Inr (0, map (\<lambda>i. ([word_of_int (97 + int i)], word_of_int (20 + int i))) [0..<10], True)"
proof -
  obtain seg' where s: "rfold put_people [0..<20] seg = Inr seg'" "length seg' = 4096"
    "\<forall>i < 20. block i seg' = entry i (take 3 (tl (block i seg)))" using put_all [of 20 seg] assms(1) by auto
  have "show_people i seg' = Inr ([word_of_int (97 + int i)], word_of_int (20 + int i))" if i: "i < 10" for i
  proof -
    have "8 * Suc i \<le> length seg" using i assms(1) by simp
    from record_split [OF this] obtain p x b age q where r: "seg = p @ (x # b @ age) @ q" "length p = 8 * i" "length b = 3" "length age = 4" .
    then obtain y b' where b: "b = y # b'" by (cases b) auto
    have "y = 0" using assms(2) i r(1,2) b by (auto simp: nth_append)
    moreover have "take 3 (tl (block i seg)) = b" using block_here [OF r(2), of "x # b @ age" q] r(1,3,4) by simp
    ultimately have "block i seg' = entry i (0 # b')" "length b' = 2" using s(3) i b r(3) by auto
    then show ?thesis using show_people_entry [of i seg' b'] i s(2) by simp
  qed
  then have "show_all [0..<10] seg' = Inr (map (\<lambda>i. ([word_of_int (97 + int i)], word_of_int (20 + int i))) [0..<10])"
    by (intro show_all_map) simp
  then show ?thesis using s(1) assms(3) by (simp add: shmWrite_def shmRead_def)
qed

theorem people_roundtrip_witness:
  "\<exists>seg'. shmWrite (\<lambda>_. False) (replicate 4096 0) = Inr (0, seg') \<and>
    shmRead (\<lambda>_. False) seg' = Inr (0, map (\<lambda>i. ([word_of_int (97 + int i)], word_of_int (20 + int i))) [0..<10], True)"
  by (rule people_roundtrip) simp_all

end
