(* ===== verification/DispSession.thy ===== *)
theory DispSession
  imports DispWire
begin

text \<open>
  Sessions from the side of the clients: a login or logout request, from the call of \<^verbatim>\<open>DispatcherManager\<close> through the
  service to the callback, for any sequence of requests of any clients.
\<close>

section \<open>Requests and their answers\<close>

text \<open>A request: the clock readings and the uninitialised bytes the service meets, the peer, the client, the identity
  it logs in with, and the request id.\<close>

record session_request =
  rq_times :: poll_times
  rq_junk :: bytes
  rq_peer :: bytes
  rq_client :: DispatcherManager
  rq_cmd :: ECommandType
  rq_id :: i32

text \<open>What the client sends; a login repeats the identity the client has.\<close>

definition session_frames :: "session_request \<Rightarrow> frame list" where
  "session_frames x =
     (if rq_cmd x = TLogin then snd (snd (ReqLogin (m_strIdentity (rq_client x)) (rq_id x) (rq_client x)))
      else snd (ReqLogout (rq_id x) (rq_client x)))"

definition request_ok :: "session_request \<Rightarrow> bool" where
  "request_ok x \<longleftrightarrow> length (rq_junk x) = 64 \<and> IsConnected (azmqApi (rq_client x)) \<and>
     stateMachine (rq_client x) = StatInit \<and> m_strIdentity (rq_client x) \<noteq> [] \<and> (rq_cmd x = TLogin \<or> rq_cmd x = TLogout)"

text \<open>The service answers the requests one after the other; the client of each receives the frames that
  follow the routing frame. The result has the peer and the callbacks of every request.\<close>

fun serve :: "session_request list \<Rightarrow> DispatcherService \<Rightarrow> ((bytes \<times> mgr_call list) list \<times> DispatcherService) res" where
  "serve [] s = Inr ([], s)"
| "serve (x # xs) s =
     rbind (recv_request (rq_times x) (rq_junk x) (s\<lparr>bindIn := (rq_peer x, True) # session_frames x\<rparr>)) (\<lambda>s1.
     case drop (length (bindOut s)) (bindOut s1) of
       [] \<Rightarrow> Inl WouldBlock
     | (peer, bMore) # ans \<Rightarrow>
         rbind (recv_frames ans (rq_client x)) (\<lambda>(m, calls).
         rbind (serve xs s1) (\<lambda>(rest, s2). Inr ((peer, calls) # rest, s2))))"

text \<open>The specification: the verdict on a request depends on the known users and the session of the identity only.\<close>

fun verdict :: "ECommandType \<Rightarrow> bool \<Rightarrow> bytes \<Rightarrow> bytes option \<Rightarrow> EResponseErrType \<times> string" where
  "verdict cmd False r ses = (TIdentifyErr, ''Identify Error'')"
| "verdict cmd True r None = (if cmd = TLogin then (TSuccess, ''Login Successfully'') else (TNoLogin, ''No-Login Error''))"
| "verdict cmd True r (Some r') =
     (if r' \<noteq> r then (TMultiLogin, ''Multi-Login Error'')
      else if cmd = TLogin then (TReplicatedLogin, ''Replicated Login'') else (TSuccess, ''Logout Successfully''))"

definition answers :: "EResponseErrType \<times> string \<Rightarrow> session_request \<Rightarrow> ReqResponse \<Rightarrow> bool" where
  "answers v x rsp \<longleftrightarrow> rsp_ok rsp \<and> ErrorID rsp = err_code (fst v) \<and> cstr (ErrMsg rsp) = lit (snd v) \<and>
     RequestID rsp = rq_id x \<and> CmdType rsp = cmd_code (rq_cmd x)"

definition rsp_callback :: "session_request \<Rightarrow> ReqResponse \<Rightarrow> mgr_call list" where
  "rsp_callback x rsp = [if rq_cmd x = TLogin then OnRspLogin rsp (rq_id x) else OnRspLogout rsp (rq_id x)]"

fun session_trace :: "bytes set \<Rightarrow> session_request list \<Rightarrow> sessions \<Rightarrow> (bytes \<times> mgr_call list) list \<Rightarrow> sessions \<Rightarrow> bool" where
  "session_trace known [] \<sigma> as \<tau> \<longleftrightarrow> as = [] \<and> \<tau> = \<sigma>"
| "session_trace known (x # xs) \<sigma> as \<tau> \<longleftrightarrow>
     (let i = m_strIdentity (rq_client x); r = rq_peer x in
      \<exists>rsp rest. as = (r, rsp_callback x rsp) # rest \<and> answers (verdict (rq_cmd x) (i \<in> known) r (\<sigma> i)) x rsp \<and>
        session_trace known xs (session_spec (i \<in> known) r i (cmd_code (rq_cmd x)) \<sigma>) rest \<tau>)"

section \<open>One request\<close>

lemma session_frames_sent:
  "request_ok x \<Longrightarrow> session_frames x =
    [(m_strIdentity (rq_client x), True), (enc_i32 (cmd_code (rq_cmd x)), True), (enc_i32 (rq_id x), False)]"
  by (auto simp: session_frames_def request_ok_def ReqLogin_def ReqLogout_def sent_def Send_def)

lemma response_spec:
  assumes "length u = 64" "length msg < 64" "0 \<notin> set (lit msg)"
  obtains rsp where "response u e msg q c = Inr rsp" "rsp_ok rsp" "ErrorID rsp = err_code e" "cstr (ErrMsg rsp) = lit msg"
    "RequestID rsp = q" "CmdType rsp = c"
  using assms by (auto simp: response_def rsp_ok_def strcpy_fits cstr_id)

lemma send_response_out [simp]:
  "bindOut (send_response r rsp s) = bindOut s @ [(r, True), (enc_i32 (pattern_code TPassiveResponse), True), (enc_rsp rsp, False)]"
  "bindIn (send_response r rsp s) = bindIn s" "bindMore (send_response r rsp s) = bindMore s"
  "sessions (send_response r rsp s) = sessions s" "m_setManagerCache (send_response r rsp s) = m_setManagerCache s"
  by (simp_all add: send_response_def innerSendMsg_def sessions_def del: pattern_code.simps)

lemma verdict_text: "verdict cmd k r ses = (e, msg) \<Longrightarrow> length msg < 64 \<and> 0 \<notin> set (lit msg)"
  by (cases "(cmd, k, r, ses)" rule: verdict.cases) (auto simp: bytes_of_string_def split: if_splits)

lemma recv_id:
  assumes "bindIn s = [(enc_i32 q, False)]" "bindMore s"
  shows "recv_reqid_unchecked s = Inr (q, s\<lparr>bindIn := [], bindMore := False\<rparr>)"
    "recv_reqid s = Inr (q, s\<lparr>bindIn := [], bindMore := False\<rparr>)"
    "recvPodObject s = Inr (q, s\<lparr>bindIn := [], bindMore := False\<rparr>)"
  using assms by (simp_all add: recv_reqid_unchecked_def recv_reqid_def recvPodObject_def recv_bind_def)

lemma dispatch_answers:
  assumes "cmd = TLogin \<or> cmd = TLogout" and "bindIn s = [(enc_i32 q, False)]" "bindMore s"
    and "verdict cmd (identifyUser i s) r (sessions s i) = (e, msg)"
    and "response u e msg q (cmd_code cmd) = Inr rsp"
  shows "\<exists>z. dispatch T u r i (cmd_code cmd) s = Inr (send_response r rsp z) \<and> bindIn z = [] \<and> \<not> bindMore z \<and>
    bindOut z = bindOut s \<and> m_setManagerCache z = m_setManagerCache s"
proof (cases "identifyUser i s")
  case False
  then have "dispatch T u r i (cmd_code cmd) s = Inr (send_response r rsp (s\<lparr>bindIn := [], bindMore := False\<rparr>))"
    using assms(4,5) by (simp add: dispatch_def recv_id [OF assms(2,3)] reject_def del: cmd_code.simps)
  then show ?thesis by (intro exI conjI) (assumption | simp)+
next
  case True
  obtain c z where c: "find_client (t_client T) i s = (c, z)" by (cases "find_client (t_client T) i s")
  note fc = find_client_effect [OF c]
  have z: "bindIn z = [(enc_i32 q, False)]" "bindMore z" "m_setManagerCache z = m_setManagerCache s"
    using fc(5,6) assms(2,3) c by (auto simp: find_client_def Let_def set_client_def split: option.splits)
  have ses: "sessions s i = (if m_bLogin c then Some (m_strRouter c) else None)" using fc(4) by (simp add: session_of_def)
  let ?z = "z\<lparr>bindIn := [], bindMore := False\<rparr>" and ?c = "c\<lparr>m_strRouter := r, m_tLastRead := t_read T\<rparr>"
  let ?w = "(set_client i ?c z)\<lparr>bindIn := [], bindMore := False\<rparr>"
  have w: "recvPodObject (set_client i ?c z) = Inr (q, ?w)" using recv_id(3) [of "set_client i ?c z"] z by (simp add: set_client_def)
  have codes: "cmd_code TLogin \<noteq> cmd_code TLogout" "cmd_code TLogout \<noteq> cmd_code TKeepAlive"
    "cmd_code TLogin \<noteq> cmd_code TKeepAlive" by simp_all
  have "dispatch T u r i (cmd_code cmd) s = Inr (send_response r rsp
      (if (m_bLogin c \<longrightarrow> m_strRouter c = r) \<and> (m_bLogin c \<or> cmd = TLogin)
       then (if m_bLogin c = (cmd = TLogin) \<and> m_bLogin c then ?w else set_client i (?c\<lparr>m_bLogin := (cmd = TLogin)\<rparr>) ?w)
       else ?z))"
    using assms(1,4,5) True ses recv_id [OF z(1,2)] codes
    by (auto simp: dispatch_def c reject_def onRecvCmd_def onReqLogin_def onReqLogout_def w Let_def simp del: cmd_code.simps
        split: if_splits)
  then show ?thesis using fc(7) z(3) by (intro exI conjI) (assumption | simp add: set_client_def)+
qed

lemma request_answered:
  assumes "length u = 64" "cmd = TLogin \<or> cmd = TLogout"
    and "bindIn s = [(r, True), (i, True), (enc_i32 (cmd_code cmd), True), (enc_i32 q, False)]"
    and "verdict cmd (i \<in> m_setManagerCache s) r (sessions s i) = (e, msg)"
    and "response u e msg q (cmd_code cmd) = Inr rsp"
  obtains s1 where "recv_request T u s = Inr s1"
    "bindOut s1 = bindOut s @ [(r, True), (enc_i32 (pattern_code TPassiveResponse), True), (enc_rsp rsp, False)]"
    "m_setManagerCache s1 = m_setManagerCache s"
    "sessions s1 = session_spec (i \<in> m_setManagerCache s) r i (cmd_code cmd) (sessions s)"
proof -
  let ?s = "s\<lparr>bindIn := [(enc_i32 q, False)], bindMore := True\<rparr>"
  have r: "recv_request T u s = rbind (dispatch T u r i (cmd_code cmd) ?s) skipRemainMFrame"
    using assms(3) by (simp add: recv_request_def recv_bind_def del: cmd_code.simps)
  have "verdict cmd (identifyUser i ?s) r (sessions ?s i) = (e, msg)" using assms(4) by (simp add: identifyUser_def sessions_def)
  from dispatch_answers [OF assms(2) _ _ this assms(5), of T] obtain z where
    z: "dispatch T u r i (cmd_code cmd) ?s = Inr (send_response r rsp z)" "bindIn z = []" "\<not> bindMore z"
      "bindOut z = bindOut s" "m_setManagerCache z = m_setManagerCache s" by auto
  have "sessions z = session_spec (i \<in> m_setManagerCache s) r i (cmd_code cmd) (sessions s)"
    using dispatch_sessions [OF z(1)] by (simp add: identifyUser_def sessions_def del: cmd_code.simps)
  with z show thesis by (intro that) (simp add: r skip_done, simp_all add: sessions_def del: cmd_code.simps)
qed

section \<open>Properties\<close>


definition demo_request :: "byte \<Rightarrow> ECommandType \<Rightarrow> i32 \<Rightarrow> session_request" where
  "demo_request r cmd q = \<lparr>rq_times = demo_times, rq_junk = zeros, rq_peer = [r], rq_client = demo_client, rq_cmd = cmd, rq_id = q\<rparr>"


end
