(* ===== verification/Spec2Isabelle.thy ===== *)
theory Spec2Isabelle
  imports SolServer ThreadPool DispWire QuickSort StockTree UnionFind Anet ShmSync AsioServer ZmqNet SplitMd
    IpcCount TcpDemo CvQueue SockPair SolWire ShmRw DispSession
begin

text \<open>
  \<^bold>\<open>The program.\<close> The repository is a collection of C++ network programs: \<^verbatim>\<open>solcomapi\<close>, an asynchronous
  message client and server on libuv; \<^verbatim>\<open>StragetyDeployer\<close>, a service that keeps deployment
  configurations in SQLite and serves them to clients over ZeroMQ; and small programs on sockets, shared
  memory and algorithms. This development models the two large programs, the socket wrappers of \<^verbatim>\<open>anet\<close>
  and the algorithmic small programs.

  \<^bold>\<open>Conventions.\<close> A C++ object is a record, an enumeration or tagged union a datatype, a fixed-width
  integer a word where it can wrap or crosses a wire. An operation takes the state and returns the new
  one together with the calls it makes to libraries that are not modelled. What the language leaves
  undefined or what aborts is a value: an operation that can hit it returns in the sum type \<open>'a res\<close> of
  \<^verbatim>\<open>Prelude\<close>, with the fault on the left. Libraries (libuv, ZeroMQ, SQLite), the clock, \<open>rand()\<close> and
  uninitialised memory are parameters or the input of a step; no property assumes more of them than
  their documentation says.

  \<^bold>\<open>Theories.\<close>
  \<^item> \<^verbatim>\<open>Prelude\<close>: faults, raw memory, C strings, little-endian images, multipart messages, reachability;
    the locales \<open>fixed_codec\<close> (fixed-size memory images) and \<open>invariant_system\<close> (transition systems with
    an invariant).
  \<^item> \<^verbatim>\<open>ByteArray\<close> (\<^verbatim>\<open>solcomapi/src/CByteArray.h\<close>): the sliding window byte array.
  \<^item> \<^verbatim>\<open>RingBuffer\<close> (\<^verbatim>\<open>CachedBuffer.h\<close> and its use in \<^verbatim>\<open>SolcomApi.cpp\<close>): the single-producer single-consumer ring
    with wrapping 64-bit counters, refined to a bounded FIFO.
  \<^item> \<^verbatim>\<open>Package\<close> (\<^verbatim>\<open>CommonStruct.h\<close>, \<^verbatim>\<open>ISerializable.h\<close>, \<^verbatim>\<open>SillyCommand.h\<close>, \<^verbatim>\<open>PackageCodec.h\<close>, the factory and the
    object cache): the package format; commands round-trip through it.
  \<^item> \<^verbatim>\<open>SolClient\<close> (\<^verbatim>\<open>SolcomApi.{h,cpp}\<close>): all callbacks and operations of the client and its runs as a
    transition system: reassembly of the byte stream for every segmentation, order of the sent packages,
    memory safety, and what goes wrong after a write error or a reconnect.
  \<^item> \<^verbatim>\<open>SolServer\<close> (\<^verbatim>\<open>SolConnServer\<close>, \<^verbatim>\<open>SolConnClient\<close>): the same for the server, whose connections are objects in a
    heap, by simulation with the client's receive machine; the keep-alive timer; answers of the workers.
  \<^item> \<^verbatim>\<open>SolWire\<close>: client and server of \<^verbatim>\<open>solcomapi\<close> composed: posted commands become the server's tasks, and one answer
    to each command returns to the SPI.
  \<^item> \<^verbatim>\<open>DeployTypes\<close> (\<^verbatim>\<open>StragetyDeployer/CommonStruct\<close>): the structures of the tables and of the wire.
  \<^item> \<^verbatim>\<open>DbOps\<close> (\<^verbatim>\<open>SQLiteDatabase\<close>, \<^verbatim>\<open>dbopmacros.h\<close>, \<^verbatim>\<open>dboperatefunc\<close>): the database wrappers and table operations
    over an engine that is a parameter: what is bound, stepped and committed, and what is read back.
  \<^item> \<^verbatim>\<open>ThreadPool\<close> (\<^verbatim>\<open>FixedThreaPool.h\<close>): workers, submitters and the destructor as interleaved steps with the
    mutex and the condition variable: no task lost or run twice, no lost wake-up, and the two defects of
    the destructor.
  \<^item> \<^verbatim>\<open>AsyncZmq\<close> (\<^verbatim>\<open>AsyncZmqApi\<close>): the client's connection and one round of its poll thread.
  \<^item> \<^verbatim>\<open>DispManager\<close> (\<^verbatim>\<open>DispatcherManager\<close>, \<^verbatim>\<open>DispManagerImpl\<close>): the requests of the deployer's client and its
    receive state machine, frame by frame; the buffers of the printing callbacks.
  \<^item> \<^verbatim>\<open>DispService\<close> (\<^verbatim>\<open>DispatcherService\<close>): the service. Its client table refines an abstract table of
    sessions; work is only done for a session; well-formedness of all reachable states; the keep-alive
    timer; the bounds of the statement buffer.
  \<^item> \<^verbatim>\<open>DispWire\<close>: client and service composed: queries and changes from the client's call to its callbacks.
  \<^item> \<^verbatim>\<open>DispSession\<close>: logging in and out, for any sequence of requests of any clients, from the call to the callback:
    the verdicts and the sessions follow a specification.
  \<^item> \<^verbatim>\<open>QuickSort\<close> (\<^verbatim>\<open>test/\<close>): quick sort equals sorting, quick select selects.
  \<^item> \<^verbatim>\<open>StockTree\<close>, \<^verbatim>\<open>UnionFind\<close> (\<^verbatim>\<open>trivials/\<close>): a prefix tree equivalent to a map and a table (a locale with
    three interpretations), and union-find.
  \<^item> \<^verbatim>\<open>Anet\<close> (\<^verbatim>\<open>anet/anet.{h,cpp}\<close>): every wrapper in the state monad over the system calls made, with the
    operating system as a parameter: sockets are returned or closed exactly once (and where they are
    closed twice), buffers are read completely or to an end of file or an error.
  \<^item> \<^verbatim>\<open>ShmSync\<close> (\<^verbatim>\<open>shm_named_sem_sync\<close>, \<^verbatim>\<open>shm_anony_sem_sync\<close>): a writer and a reader process over shared memory
    and two semaphores, as interleaved steps: with named semaphores the records arrive in order, once, and
    without deadlock; with semaphores in the segment a late reader loses one.
  \<^item> \<^verbatim>\<open>ShmRw\<close> (\<^verbatim>\<open>shmrw\<close>): records written to a shared segment by one program and printed by another.
  \<^item> \<^verbatim>\<open>AsioServer\<close> (\<^verbatim>\<open>boostAsioTest\<close>): the handlers of a heart-beat server and its client, with any pending
    operation completing next: what a tick does in every reachable state, the round of a heart beat, and
    how two connections come to share an id.
  \<^item> \<^verbatim>\<open>ZmqNet\<close> (\<^verbatim>\<open>zmqtest\<close>): the echo server and client, which return to every peer what it sent, and the
    request-reply programs with their broker.
  \<^item> \<^verbatim>\<open>SplitMd\<close> (\<^verbatim>\<open>trivials/splitMdFile.cpp\<close>): the CSV splitter: lines are routed to a process per key through
    pipes that deliver chunks of any size; every file repeats its first line.
  \<^item> \<^verbatim>\<open>IpcCount\<close> (\<^verbatim>\<open>trivials/ipc_lock_trivial.cpp\<close>, \<^verbatim>\<open>ipc_atomic_trivial.cpp\<close>): two processes counting in shared memory. A
    static lock discipline is sound, and the programs obey it; the bounds of the counter without a lock.
  \<^item> \<^verbatim>\<open>CvQueue\<close> (\<^verbatim>\<open>trivials/cv_trivial.cpp\<close>): producers and a consumer on a condition variable: order, no lost
    wake-up, completion.
  \<^item> \<^verbatim>\<open>SockPair\<close> (\<^verbatim>\<open>trivials/sockpair_trivial.cpp\<close>): passing descriptors to workers, each of which gets its own.
  \<^item> \<^verbatim>\<open>TcpDemo\<close> (\<^verbatim>\<open>anet/tcpServer.cpp\<close>, \<^verbatim>\<open>tcpClient.cpp\<close>): the server and client on \<^verbatim>\<open>Anet\<close>, and the messages they lose.

  \<^bold>\<open>Interaction.\<close> In \<^verbatim>\<open>solcomapi\<close> a user thread serialises a command into the ring (\<open>postMsg\<close>), the loop
  thread writes one package at a time (\<open>idle_cb\<close>, \<open>req_write_cb\<close>) and reassembles what arrives (\<open>alloc_cb\<close>,
  \<open>read_cb\<close>); the server hands every command to its thread pool and queues the answer on the connection.
  In \<^verbatim>\<open>StragetyDeployer\<close> a client request travels through the in-process socket of \<open>AsyncZmqApi\<close> to the
  service, which checks the session, submits a task (\<open>FixedThreaPool\<close>), and forwards the worker's answer.

  \<^bold>\<open>Bounds and fuel.\<close> The query loop of \<^verbatim>\<open>DbOps\<close> has a bound on the number of rows; it returns for every
  bound not below the number the engine delivers. \<open>uf_find\<close> has a bound on its depth; it returns for every
  bound not below the length of the path. The wait loop of \<open>postMsg\<close> runs over the finite list of values
  it observes. \<open>anetRead\<close> and \<open>anetWrite\<close> have a bound on the rounds, and return for every bound not below the
  count; \<open>anetGenericAccept\<close> has one on the number of interruptions. The
  loop of a child in \<^verbatim>\<open>SplitMd\<close> returns for every bound above the number of its lines. The retries of \<^verbatim>\<open>TcpDemo\<close> may never end, so they have
  a bound, and the results hold for every bound. All other loops are total functions; the loops of \<^verbatim>\<open>QuickSort\<close> have termination proofs.

  \<^bold>\<open>Not modelled.\<close> The demonstrations on language features and the test drivers: what they do is call a library
  and print, and \<^verbatim>\<open>sqlite_test.cpp\<close> and \<^verbatim>\<open>boostAsioTest/test.cpp\<close> are commented out for the most part. The
  greetings that the workers of \<^verbatim>\<open>sockpair_trivial.cpp\<close> exchange in their epoll loops and the command lines of the programs
  have no model either. \<^verbatim>\<open>sqlite3.h\<close> and \<^verbatim>\<open>sqlite3ext.h\<close> are SQLite's, the files under \<^verbatim>\<open>CMakeFiles\<close>
  are generated. Moves and destructors that only transfer or free memory have no model. The thread pool
  of the service appears as its queue of tasks; that the queue behaves so is the subject of \<^verbatim>\<open>ThreadPool\<close>.
\<close>

end
